(* ===== verification/Prelude.thy ===== *)
theory Prelude
  imports Main "HOL-Library.Sublist" "HOL-Library.Word"
begin

text \<open>
  Shared ground of the development: decimal numerals as JavaScript's \<open>String(n)\<close> prints them,
  the insertion-ordered \<open>Map\<close> of JavaScript as an association list with distinct keys, and the
  lemmas on prefixes of strings that the key schemas of the journal rest on.

  A JavaScript string is a HOL \<^typ>\<open>string\<close>: one \<^typ>\<open>char\<close> stands for one UTF-16 code unit below
  256. \<open>startsWith\<close> is \<^const>\<open>prefix\<close>, \<open>endsWith\<close> is \<^const>\<open>suffix\<close>.
\<close>

named_theorems js_map_simps \<open>lookup laws of the insertion-ordered map\<close>
named_theorems prog_simps \<open>unfolding of programs and of their sequential runs\<close>
named_theorems vc_intros \<open>verification conditions of program fragments\<close>
named_theorems key_simps \<open>equalities and prefixes of journal keys\<close>

type_synonym key = string

text \<open>A thrown error: its class and the subject of its message.\<close>

datatype err = Err (err_class: string) (err_msg: string)

section \<open>Decimal numerals\<close>

definition digit_char :: "nat \<Rightarrow> char" where
  "digit_char d = char_of (48 + d)"

fun show_nat :: "nat \<Rightarrow> string" where
  "show_nat n = (if n < 10 then [digit_char n] else show_nat (n div 10) @ [digit_char (n mod 10)])"

declare show_nat.simps [simp del]

definition show_int :: "int \<Rightarrow> string" where
  "show_int i = (if i < 0 then CHR ''-'' # show_nat (nat (- i)) else show_nat (nat i))"

definition is_digit_char :: "char \<Rightarrow> bool" where
  "is_digit_char c \<longleftrightarrow> 48 \<le> (of_char c :: nat) \<and> (of_char c :: nat) \<le> 57"

definition digit_value :: "char \<Rightarrow> nat" where
  "digit_value c = of_char c - 48"

definition read_nat :: "string \<Rightarrow> nat" where
  "read_nat s = foldl (\<lambda>n c. 10 * n + digit_value c) 0 s"

lemma of_char_digit_char: "d < 10 \<Longrightarrow> (of_char (digit_char d) :: nat) = 48 + d"
  by (simp add: digit_char_def)

lemma digit_value_digit_char [simp]: "d < 10 \<Longrightarrow> digit_value (digit_char d) = d"
  by (simp add: digit_value_def of_char_digit_char)

lemma is_digit_digit_char [simp]: "d < 10 \<Longrightarrow> is_digit_char (digit_char d)"
  by (simp add: is_digit_char_def of_char_digit_char)

lemma show_nat_nonempty [simp]: "show_nat n \<noteq> []"
  by (subst show_nat.simps) simp

lemma show_nat_digits: "\<forall>c \<in> set (show_nat n). is_digit_char c"
proof (induction n rule: show_nat.induct)
  case (1 n)
  then show ?case by (subst show_nat.simps) auto
qed

lemma read_show_nat [simp]: "read_nat (show_nat n) = n"
proof (induction n rule: show_nat.induct)
  case (1 n)
  show ?case
  proof (cases "n < 10")
    case True
    then show ?thesis by (subst show_nat.simps) (simp add: read_nat_def)
  next
    case False
    with 1 have IH: "read_nat (show_nat (n div 10)) = n div 10" by simp
    have "show_nat n = show_nat (n div 10) @ [digit_char (n mod 10)]"
      using False by (subst show_nat.simps) simp
    then have "read_nat (show_nat n) = 10 * read_nat (show_nat (n div 10)) + n mod 10"
      by (simp add: read_nat_def)
    with IH show ?thesis by simp
  qed
qed

lemma show_nat_inject [simp]: "show_nat m = show_nat n \<longleftrightarrow> m = n"
  by (metis read_show_nat)

lemma show_nat_hd_digit: "is_digit_char (hd (show_nat n))"
  using show_nat_digits [of n] by (simp add: list.set_sel(1))

lemma not_digit_chars [simp]:
  "\<not> is_digit_char (CHR ''-'')" "\<not> is_digit_char (CHR '':'')" "\<not> is_digit_char (CHR ''#'')"
  "\<not> is_digit_char (CHR '','')" "\<not> is_digit_char (CHR ''}'')" "\<not> is_digit_char (CHR '']'')"
  "\<not> is_digit_char (CHR 0x22)" "\<not> is_digit_char (CHR ''{'')" "\<not> is_digit_char (CHR ''['')"
  "\<not> is_digit_char (CHR ''n'')" "\<not> is_digit_char (CHR ''t'')" "\<not> is_digit_char (CHR ''f'')"
  by (simp_all add: is_digit_char_def)

lemma show_int_inject [simp]: "show_int a = show_int b \<longleftrightarrow> a = b"
proof
  assume eq: "show_int a = show_int b"
  have minus: "show_nat n \<noteq> CHR ''-'' # s" for n s
    using show_nat_digits [of n] by auto
  from eq show "a = b"
    by (auto simp: show_int_def minus minus [symmetric] split: if_splits)
qed simp

lemma colon_notin_show_nat [simp]: "CHR '':'' \<notin> set (show_nat n)"
  using show_nat_digits [of n] by auto

lemma hash_notin_show_nat [simp]: "CHR ''#'' \<notin> set (show_nat n)"
  using show_nat_digits [of n] by auto

text \<open>A numeral without leading zeros is the one its value prints.\<close>

definition canonical_nat :: "string \<Rightarrow> bool" where
  "canonical_nat s \<longleftrightarrow> s \<noteq> [] \<and> list_all is_digit_char s \<and> (hd s \<noteq> CHR ''0'' \<or> s = ''0'')"

lemma digit_char_digit_value: "is_digit_char c \<Longrightarrow> digit_char (digit_value c) = c"
  by (simp add: is_digit_char_def digit_char_def digit_value_def)

lemma digit_value_less: "is_digit_char c \<Longrightarrow> digit_value c < 10"
  unfolding is_digit_char_def digit_value_def by linarith

lemma digit_value_pos: "is_digit_char c \<Longrightarrow> c \<noteq> CHR ''0'' \<Longrightarrow> 0 < digit_value c"
proof (rule ccontr)
  assume d: "is_digit_char c" and ne: "c \<noteq> CHR ''0''" and "\<not> 0 < digit_value c"
  then have "digit_char 0 = c" using digit_char_digit_value [OF d] by simp
  then show False using ne by (simp add: digit_char_def char_of_def bit_0)
qed

lemma read_nat_snoc: "read_nat (s @ [c]) = 10 * read_nat s + digit_value c"
  by (simp add: read_nat_def)

lemma read_nat_single [simp]: "read_nat [c] = digit_value c"
  by (simp add: read_nat_def)

lemma canonical_snocD: "canonical_nat (s @ [c]) \<Longrightarrow> s \<noteq> [] \<Longrightarrow> canonical_nat s \<and> hd s \<noteq> CHR ''0'' \<and> is_digit_char c"
  by (auto simp: canonical_nat_def append_eq_Cons_conv)

lemma read_nat_pos: "list_all is_digit_char s \<Longrightarrow> s \<noteq> [] \<Longrightarrow> hd s \<noteq> CHR ''0'' \<Longrightarrow> 0 < read_nat s"
proof (induction s rule: rev_induct)
  case (snoc c s)
  then show ?case by (cases "s = []") (auto simp: read_nat_snoc digit_value_pos)
qed simp

lemma show_read_nat: "canonical_nat s \<Longrightarrow> show_nat (read_nat s) = s"
proof (induction s rule: rev_induct)
  case Nil
  then show ?case by (simp add: canonical_nat_def)
next
  case (snoc c s)
  then have c: "is_digit_char c" by (simp add: canonical_nat_def)
  show ?case
  proof (cases "s = []")
    case True
    then show ?thesis
      using c by (subst show_nat.simps) (simp add: digit_value_less digit_char_digit_value)
  next
    case False
    with snoc canonical_snocD have s: "show_nat (read_nat s) = s" "canonical_nat s" "hd s \<noteq> CHR ''0''" by auto
    then have pos: "0 < read_nat s"
      by (intro read_nat_pos) (auto simp: canonical_nat_def)
    have "show_nat (10 * read_nat s + digit_value c) = show_nat (read_nat s) @ [digit_char (digit_value c)]"
      using pos digit_value_less [OF c] by (subst show_nat.simps) simp
    with s c show ?thesis by (simp add: read_nat_snoc digit_char_digit_value)
  qed
qed

lemma canonical_show_nat: "canonical_nat (show_nat n)"
proof (induction n rule: show_nat.induct)
  case (1 n)
  show ?case
  proof (cases "n < 10")
    case True
    then have "show_nat n = [digit_char n]" by (subst show_nat.simps) simp
    then show ?thesis using True
      by (auto simp: canonical_nat_def)
  next
    case False
    then have n: "show_nat n = show_nat (n div 10) @ [digit_char (n mod 10)]"
      by (subst show_nat.simps) simp
    from False 1 have IH: "canonical_nat (show_nat (n div 10))" by simp
    moreover have "show_nat (n div 10) \<noteq> ''0''"
    proof
      assume "show_nat (n div 10) = ''0''"
      then have "n div 10 = read_nat ''0''" by (metis read_show_nat)
      with False show False by (simp add: digit_value_def)
    qed
    ultimately show ?thesis
      unfolding n by (auto simp: canonical_nat_def hd_append)
  qed
qed

section \<open>The insertion-ordered map of JavaScript\<close>

text \<open>
  \<open>Map.prototype.set\<close> overwrites the value of a present key in place and appends an absent one;
  \<open>delete\<close> removes the entry; iteration follows the list.
\<close>

type_synonym 'v js_map = "(key \<times> 'v) list"

fun js_set :: "key \<Rightarrow> 'v \<Rightarrow> 'v js_map \<Rightarrow> 'v js_map" where
  "js_set k v [] = [(k, v)]"
| "js_set k v ((k', v') # m) = (if k' = k then (k, v) # m else (k', v') # js_set k v m)"

definition js_delete :: "key \<Rightarrow> 'v js_map \<Rightarrow> 'v js_map" where
  "js_delete k m = filter (\<lambda>p. fst p \<noteq> k) m"

definition js_has :: "'v js_map \<Rightarrow> key \<Rightarrow> bool" where
  "js_has m k \<longleftrightarrow> map_of m k \<noteq> None"

abbreviation js_keys :: "'v js_map \<Rightarrow> key list" where
  "js_keys m \<equiv> map fst m"

definition js_map_wf :: "'v js_map \<Rightarrow> bool" where
  "js_map_wf m \<longleftrightarrow> distinct (js_keys m)"

lemma map_of_js_set [js_map_simps, simp]: "map_of (js_set k v m) = (map_of m)(k \<mapsto> v)"
  by (induction k v m rule: js_set.induct) (auto simp: fun_eq_iff)

lemma map_of_js_delete [js_map_simps, simp]: "map_of (js_delete k m) = (map_of m)(k := None)"
  by (induction m) (auto simp: js_delete_def fun_eq_iff)

lemma map_of_filter_key: "map_of (filter (\<lambda>p. P (fst p)) m) k = (if P k then map_of m k else None)"
  by (induction m) auto

lemma js_keys_js_set: "js_keys (js_set k v m) = (if k \<in> set (js_keys m) then js_keys m else js_keys m @ [k])"
  by (induction k v m rule: js_set.induct) auto

lemma set_js_keys: "set (js_keys m) = dom (map_of m)"
  by (simp add: dom_map_of_conv_image_fst)

lemma js_has_iff [simp]: "js_has m k \<longleftrightarrow> k \<in> dom (map_of m)"
  by (auto simp: js_has_def)

lemma js_map_wf_empty [simp, intro]: "js_map_wf []"
  by (simp add: js_map_wf_def)

lemma js_map_wf_set [simp, intro]: "js_map_wf m \<Longrightarrow> js_map_wf (js_set k v m)"
  unfolding js_map_wf_def js_keys_js_set by (simp split: if_splits)

lemma js_map_wf_filter [simp, intro]: "js_map_wf m \<Longrightarrow> js_map_wf (filter P m)"
  by (simp add: js_map_wf_def distinct_map_filter)

lemma js_map_wf_delete [simp, intro]: "js_map_wf m \<Longrightarrow> js_map_wf (js_delete k m)"
  unfolding js_delete_def by (rule js_map_wf_filter)

section \<open>Prefixes of keys\<close>

lemma prefix_append_same [key_simps]: "prefix (p @ a) (p @ b) \<longleftrightarrow> prefix a b"
  by simp

lemma prefix_length_eq: "prefix a s \<Longrightarrow> prefix b s \<Longrightarrow> length a = length b \<Longrightarrow> a = b"
  by (metis prefix_length_prefix prefix_order.antisym order_refl)

lemma drop_prefix [simp]: "drop (length p) (p @ s) = s"
  by simp

lemma prefix_drop_eq: "prefix p s \<Longrightarrow> p @ drop (length p) s = s"
  by (auto simp: prefix_def)

text \<open>A delimiter that does not occur in two segments splits them the same way.\<close>

lemma split_at_delim:
  "d \<notin> set a \<Longrightarrow> d \<notin> set b \<Longrightarrow> a @ d # x = b @ d # y \<Longrightarrow> a = b \<and> x = y"
proof (induction a arbitrary: b)
  case Nil
  then show ?case by (cases b) auto
next
  case (Cons c a)
  then show ?case by (cases b) auto
qed

lemma prefix_split_at_delim:
  assumes "d \<notin> set a" and "d \<notin> set b" and "prefix (a @ [d]) (b @ d # y)"
  shows "a = b"
proof -
  from assms(3) obtain z where "b @ d # y = a @ d # z"
    by (auto simp: prefix_def)
  with assms(1,2) show ?thesis
    using split_at_delim [of d b a y z] by simp
qed

section \<open>Splitting text\<close>

text \<open>\<open>split(d)\<close> for a one-character separator.\<close>

fun split_on :: "char \<Rightarrow> string \<Rightarrow> string list" where
  "split_on d [] = [[]]"
| "split_on d (c # s) =
     (if c = d then [] # split_on d s else (case split_on d s of [] \<Rightarrow> [[c]] | h # t \<Rightarrow> (c # h) # t))"

lemma split_on_nonempty [simp]: "split_on d s \<noteq> []"
  by (induction s) (auto split: list.split)

text \<open>The whitespace of \<open>trim\<close>, \<open>parseInt\<close> and \<open>\s\<close> among code units below 256.\<close>

definition is_white :: "char \<Rightarrow> bool" where
  "is_white c \<longleftrightarrow> (let n = of_char c :: nat in (9 \<le> n \<and> n \<le> 13) \<or> n = 32 \<or> n = 160)"

text \<open>\<open>parseInt(s, 10)\<close>; \<^const>\<open>None\<close> is \<open>NaN\<close>.\<close>

definition parseInt :: "string \<Rightarrow> int option" where
  "parseInt s =
     (let t = dropWhile is_white s;
          neg = (case t of c # _ \<Rightarrow> c = CHR ''-'' | [] \<Rightarrow> False);
          u = (case t of c # r \<Rightarrow> if c = CHR ''-'' \<or> c = CHR ''+'' then r else t | [] \<Rightarrow> []);
          ds = takeWhile is_digit_char u in
      if ds = [] then None else Some (if neg then - int (read_nat ds) else int (read_nat ds)))"

end
