(* ===== verification/JsValue.thy ===== *)
theory JsValue
  imports Prelude "HOL-Library.List_Lexorder" "HOL-Library.Char_ord" "HOL-Library.Multiset"
begin

text \<open>
  JavaScript values as the journal and the hash see them, and \<open>JSON.stringify\<close> on them.

  A value is a finite tree: object identity, cycles, \<open>toJSON\<close> methods and the exotic classes
  (\<open>Date\<close>, \<open>Map\<close>, \<open>Set\<close>, \<open>RegExp\<close>, \<open>URL\<close>) are outside the model; \<open>BigInt\<close> and the non-finite
  numbers are inside, because the hash tags them. Finite numbers are integers. An object is the list of its own enumerable
  properties in enumeration order. The last part proves that \<open>JSON.stringify\<close> is uniquely
  decodable on plain JSON values.
\<close>

datatype nonfinite = NaN | PosInfinity | NegInfinity

datatype js =
    JUndef
  | JNull
  | JBool bool
  | JNum int
  | JNonFinite nonfinite
  | JBigInt int
  | JStr string
  | JArr "js list"
  | JObj "(string \<times> js) list"

fun show_nonfinite :: "nonfinite \<Rightarrow> string" where
  "show_nonfinite NaN = ''NaN''"
| "show_nonfinite PosInfinity = ''Infinity''"
| "show_nonfinite NegInfinity = ''-Infinity''"

text \<open>Property access \<open>v.f\<close> on any value: \<open>undefined\<close> for a missing property or a non-object.\<close>

fun js_field :: "string \<Rightarrow> js \<Rightarrow> js" where
  "js_field f (JObj kvs) = (case map_of kvs f of None \<Rightarrow> JUndef | Some v \<Rightarrow> v)"
| "js_field f v = JUndef"

text \<open>\<open>f in v\<close> for an object \<open>v\<close>.\<close>

fun js_has_field :: "string \<Rightarrow> js \<Rightarrow> bool" where
  "js_has_field f (JObj kvs) = (map_of kvs f \<noteq> None)"
| "js_has_field f v = False"

text \<open>JavaScript truthiness.\<close>

fun js_truthy :: "js \<Rightarrow> bool" where
  "js_truthy JUndef = False"
| "js_truthy JNull = False"
| "js_truthy (JBool b) = b"
| "js_truthy (JNum n) = (n \<noteq> 0)"
| "js_truthy (JNonFinite x) = (x \<noteq> NaN)"
| "js_truthy (JBigInt n) = (n \<noteq> 0)"
| "js_truthy (JStr s) = (s \<noteq> [])"
| "js_truthy (JArr xs) = True"
| "js_truthy (JObj kvs) = True"

text \<open>An optional property of an object literal, and the own properties a spread copies.\<close>

definition opt_field :: "string \<Rightarrow> string option \<Rightarrow> (string \<times> js) list" where
  "opt_field k v = (case v of None \<Rightarrow> [] | Some s \<Rightarrow> [(k, JStr s)])"

fun js_props :: "js \<Rightarrow> (string \<times> js) list" where
  "js_props (JObj kvs) = kvs"
| "js_props _ = []"

section \<open>The order of an object's own keys\<close>

text \<open>
  Own keys that are canonical array indices come first, in numeric order; the other string keys
  follow in insertion order.
\<close>

definition is_index_key :: "string \<Rightarrow> bool" where
  "is_index_key s \<longleftrightarrow> s \<noteq> [] \<and> list_all is_digit_char s \<and> (s = ''0'' \<or> hd s \<noteq> CHR ''0'') \<and> read_nat s < 4294967295"

definition own_key_order :: "(string \<times> 'v) list \<Rightarrow> (string \<times> 'v) list" where
  "own_key_order kvs =
     sort_key (\<lambda>p. read_nat (fst p)) (filter (\<lambda>p. is_index_key (fst p)) kvs)
     @ filter (\<lambda>p. \<not> is_index_key (fst p)) kvs"

lemma mset_own_key_order [simp]: "mset (own_key_order kvs) = mset kvs"
  by (simp add: own_key_order_def)

lemma set_own_key_order [simp]: "set (own_key_order kvs) = set kvs"
  using mset_own_key_order [of kvs] by (metis set_mset_mset)

section \<open>JSON.stringify\<close>

definition hex_digit :: "nat \<Rightarrow> char" where
  "hex_digit n = (if n < 10 then char_of (48 + n) else char_of (87 + n))"

text \<open>One code unit inside a quoted JSON string.\<close>

definition quote_char :: "char \<Rightarrow> string" where
  "quote_char c =
     (let n = (of_char c :: nat) in
      if n = 34 then [CHR 0x5C, CHR 0x22]
      else if n = 92 then [CHR 0x5C, CHR 0x5C]
      else if n = 8 then [CHR 0x5C, CHR ''b'']
      else if n = 12 then [CHR 0x5C, CHR ''f'']
      else if n = 10 then [CHR 0x5C, CHR ''n'']
      else if n = 13 then [CHR 0x5C, CHR ''r'']
      else if n = 9 then [CHR 0x5C, CHR ''t'']
      else if n < 32 then [CHR 0x5C, CHR ''u'', CHR ''0'', CHR ''0'', hex_digit (n div 16), hex_digit (n mod 16)]
      else [c])"

definition quote :: "string \<Rightarrow> string" where
  "quote s = CHR 0x22 # concat (map quote_char s) @ [CHR 0x22]"

fun join_comma :: "string list \<Rightarrow> string" where
  "join_comma [] = []"
| "join_comma [s] = s"
| "join_comma (s # t # r) = s @ CHR '','' # join_comma (t # r)"

text \<open>
  \<open>JSON.stringify(v)\<close>: \<^const>\<open>None\<close> where it returns \<open>undefined\<close>. Inside an array an
  unserialisable element prints \<open>null\<close>, inside an object its property is left out. A \<open>BigInt\<close>
  makes \<open>JSON.stringify\<close> throw; \<open>sortKeys\<close> has replaced every one of them before it is called, and
  the model prints such a leaf as \<open>null\<close>.
\<close>

fun json_stringify :: "js \<Rightarrow> string option" where
  "json_stringify JUndef = None"
| "json_stringify JNull = Some ''null''"
| "json_stringify (JBool b) = Some (if b then ''true'' else ''false'')"
| "json_stringify (JNum n) = Some (show_int n)"
| "json_stringify (JNonFinite x) = Some ''null''"
| "json_stringify (JBigInt n) = Some ''null''"
| "json_stringify (JStr s) = Some (quote s)"
| "json_stringify (JArr xs) =
     Some (CHR ''['' # join_comma (map (\<lambda>x. case json_stringify x of None \<Rightarrow> ''null'' | Some t \<Rightarrow> t) xs) @ [CHR '']''])"
| "json_stringify (JObj kvs) =
     Some (CHR ''{'' #
       join_comma (concat (map (\<lambda>(k, v). case json_stringify v of None \<Rightarrow> [] | Some t \<Rightarrow> [quote k @ CHR '':'' # t]) kvs))
       @ [CHR ''}''])"

text \<open>Plain JSON values: the ones \<open>JSON.stringify\<close> represents without loss.\<close>

fun plain_json :: "js \<Rightarrow> bool" where
  "plain_json JUndef = False"
| "plain_json (JNonFinite x) = False"
| "plain_json (JBigInt n) = False"
| "plain_json (JArr xs) = list_all plain_json xs"
| "plain_json (JObj kvs) = list_all (\<lambda>p. plain_json (snd p)) kvs"
| "plain_json v = True"

fun json_text :: "js \<Rightarrow> string" where
  "json_text (JBool b) = (if b then ''true'' else ''false'')"
| "json_text (JNum n) = show_int n"
| "json_text (JStr s) = quote s"
| "json_text (JArr xs) = CHR ''['' # join_comma (map json_text xs) @ [CHR '']'']"
| "json_text (JObj kvs) = CHR ''{'' # join_comma (map (\<lambda>p. quote (fst p) @ CHR '':'' # json_text (snd p)) kvs) @ [CHR ''}'']"
| "json_text v = ''null''"

lemma json_stringify_plain: "plain_json v \<Longrightarrow> json_stringify v = Some (json_text v)"
proof (induction v rule: json_stringify.induct)
  case (8 xs)
  then have "map (\<lambda>x. case json_stringify x of None \<Rightarrow> ''null'' | Some t \<Rightarrow> t) xs = map json_text xs"
    by (intro map_cong) (auto simp: list_all_iff)
  then show ?case by (simp only: json_stringify.simps json_text.simps)
next
  case (9 kvs)
  have "map (\<lambda>(k, v). case json_stringify v of None \<Rightarrow> [] | Some t \<Rightarrow> [quote k @ CHR '':'' # t]) kvs
      = map (\<lambda>p. [quote (fst p) @ CHR '':'' # json_text (snd p)]) kvs"
    using 9 by (fastforce simp: list_all_iff intro!: map_cong)
  then show ?case by (simp only: json_stringify.simps json_text.simps concat_map_singleton)
qed auto

section \<open>Unique decoding\<close>

text \<open>A decoder of one quoted character; it shows that the escapes form a prefix code.\<close>

definition hex_value :: "char \<Rightarrow> nat" where
  "hex_value c = (let n = (of_char c :: nat) in if n < 58 then n - 48 else n - 87)"

fun unquote_char :: "string \<Rightarrow> (char \<times> string) option" where
  "unquote_char [] = None"
| "unquote_char (c # r) =
     (if c \<noteq> CHR 0x5C then Some (c, r)
      else case r of
        [] \<Rightarrow> None
      | e # r' \<Rightarrow>
          if e = CHR ''b'' then Some (char_of (8::nat), r')
          else if e = CHR ''f'' then Some (char_of (12::nat), r')
          else if e = CHR ''n'' then Some (char_of (10::nat), r')
          else if e = CHR ''r'' then Some (char_of (13::nat), r')
          else if e = CHR ''t'' then Some (char_of (9::nat), r')
          else if e = CHR ''u'' then Some (char_of (16 * hex_value (r' ! 2) + hex_value (r' ! 3)), drop 4 r')
          else Some (e, r'))"

lemma hex_value_digit: "n < 16 \<Longrightarrow> hex_value (hex_digit n) = n"
  by (simp add: hex_value_def hex_digit_def Let_def)

lemma char_of_eqI: "(of_char c :: nat) = n \<Longrightarrow> char_of n = c"
  by auto

lemma unquote_quote_char: "unquote_char (quote_char c @ x) = Some (c, x)"
proof -
  define n where "n = (of_char c :: nat)"
  have c: "c = char_of n" and lt: "n < 256"
    by (simp_all add: n_def)
  have esc: "c \<noteq> CHR 0x5C" if "n \<noteq> 92" using that by (auto simp: n_def)
  have hex: "16 * hex_value (hex_digit (n div 16)) + hex_value (hex_digit (n mod 16)) = n" if "n < 32"
    using that by (simp add: hex_value_digit)
  have bs: "char_of (92::nat) = CHR 0x5C" and dq: "char_of (34::nat) = CHR 0x22"
    by (simp_all add: char_of_def bit_0)
  show ?thesis
    unfolding quote_char_def n_def [symmetric] Let_def
    using esc hex c bs dq by (simp del: of_char_of)
qed

lemma quote_char_decode: "quote_char c @ x = quote_char d @ y \<Longrightarrow> c = d \<and> x = y"
  by (metis unquote_quote_char option.inject prod.inject)

lemma quote_char_no_quote: "quote_char c @ x \<noteq> CHR 0x22 # y"
  by (simp add: quote_char_def Let_def) auto

lemma quote_body_decode:
  "concat (map quote_char s) @ CHR 0x22 # x = concat (map quote_char t) @ CHR 0x22 # y \<Longrightarrow> s = t \<and> x = y"
proof (induction s arbitrary: t)
  case Nil
  then show ?case
    by (cases t) (auto dest: quote_char_no_quote [THEN notE, OF sym])
next
  case (Cons c s)
  then show ?case
  proof (cases t)
    case Nil
    with Cons.prems show ?thesis by (auto dest: quote_char_no_quote [THEN notE])
  next
    case (Cons d t')
    with Cons.prems Cons.IH [of t'] show ?thesis
      by (auto dest: quote_char_decode)
  qed
qed

lemma quote_decode: "quote s @ x = quote t @ y \<Longrightarrow> s = t \<and> x = y"
  unfolding quote_def by (auto dest: quote_body_decode)

lemma quote_inject [simp]: "quote s = quote t \<longleftrightarrow> s = t"
  using quote_decode [of s "[]" t "[]"] by auto

text \<open>
  What may follow a printed value: nothing, or a character that continues no numeral. Under it
  the printed form of a plain value determines the value and the rest of the input.
\<close>

definition delimited :: "string \<Rightarrow> bool" where
  "delimited r \<longleftrightarrow> r = [] \<or> \<not> is_digit_char (hd r)"

lemma delimited_Cons [simp]: "delimited (c # r) \<longleftrightarrow> \<not> is_digit_char c"
  by (simp add: delimited_def)

lemma delimited_Nil [simp]: "delimited []"
  by (simp add: delimited_def)

lemma digits_decode:
  "\<forall>c \<in> set a. is_digit_char c \<Longrightarrow> \<forall>c \<in> set b. is_digit_char c \<Longrightarrow>
   delimited x \<Longrightarrow> delimited y \<Longrightarrow> a @ x = b @ y \<Longrightarrow> a = b \<and> x = y"
proof (induction a arbitrary: b)
  case Nil
  then show ?case by (cases b) (auto simp: delimited_def)
next
  case (Cons c a)
  then show ?case by (cases b) (auto simp: delimited_def)
qed

lemma show_nat_decode:
  "delimited x \<Longrightarrow> delimited y \<Longrightarrow> show_nat m @ x = show_nat n @ y \<Longrightarrow> m = n \<and> x = y"
  using digits_decode [of "show_nat m" "show_nat n" x y] show_nat_digits by auto

lemma hd_show_nat_append: "is_digit_char (hd (show_nat n @ x))"
  by (simp add: show_nat_hd_digit)

lemma show_nat_no_minus: "show_nat k @ z \<noteq> CHR ''-'' # w"
  by (metis hd_show_nat_append list.sel(1) not_digit_chars(1))

lemma show_int_decode:
  assumes d: "delimited x" "delimited y" and eq: "show_int m @ x = show_int n @ y"
  shows "m = n \<and> x = y"
proof (cases "m < 0"; cases "n < 0")
  assume "m < 0" "n < 0"
  with eq show_nat_decode [OF d, of "nat (- m)" "nat (- n)"] show ?thesis
    by (auto simp: show_int_def)
next
  assume "\<not> m < 0" "\<not> n < 0"
  with eq show_nat_decode [OF d, of "nat m" "nat n"] show ?thesis
    by (auto simp: show_int_def)
next
  assume "m < 0" "\<not> n < 0"
  with eq show_nat_no_minus [of "nat n" y "show_nat (nat (- m)) @ x"] show ?thesis
    by (simp add: show_int_def)
next
  assume "\<not> m < 0" "n < 0"
  with eq show_nat_no_minus [of "nat m" x "show_nat (nat (- n)) @ y"] show ?thesis
    by (simp add: show_int_def)
qed

lemma hd_json_text: "json_text v \<noteq> [] \<and> \<not> hd (json_text v) \<in> {CHR '']'', CHR ''}'', CHR '','', CHR '':''}"
proof (cases v)
  case (JNum n)
  then show ?thesis
    using show_nat_hd_digit [of "nat n"] by (auto simp: show_int_def)
qed (auto simp: quote_def)

lemma join_comma_Cons: "join_comma (s # r) = s @ concat (map (Cons (CHR '','')) r)"
  by (induction r arbitrary: s) auto

text \<open>Sequences: \<open>T\<close> prints one element, \<open>e\<close> closes the sequence.\<close>

lemma comma_tail_decode:
  assumes "\<And>a b r r'. a \<in> set xs \<Longrightarrow> b \<in> set ys \<Longrightarrow> delimited r \<Longrightarrow> delimited r' \<Longrightarrow> T a @ r = T b @ r' \<Longrightarrow> a = b \<and> r = r'"
    and "e \<noteq> CHR '',''" and "\<not> is_digit_char e"
    and "concat (map (Cons (CHR '','')) (map T xs)) @ e # x = concat (map (Cons (CHR '','')) (map T ys)) @ e # y"
  shows "xs = ys \<and> x = y"
  using assms
proof (induction xs arbitrary: ys)
  case Nil
  then show ?case by (cases ys) auto
next
  case (Cons a xs)
  let ?tail = "\<lambda>zs z. concat (map (Cons (CHR '','')) (map T zs)) @ e # z"
  have tail: "delimited (?tail zs z)" for zs z
    using Cons.prems(3) by (cases zs) auto
  show ?case
  proof (cases ys)
    case Nil
    with Cons.prems show ?thesis by auto
  next
    case ys: (Cons b ys')
    with Cons.prems(4) have eq: "T a @ ?tail xs x = T b @ ?tail ys' y" by simp
    have "a = b \<and> ?tail xs x = ?tail ys' y"
      by (rule Cons.prems(1) [OF _ _ tail tail eq]) (simp_all add: ys)
    moreover have "xs = ys' \<and> x = y"
    proof (rule Cons.IH)
      show "\<And>c d r r'. c \<in> set xs \<Longrightarrow> d \<in> set ys' \<Longrightarrow> delimited r \<Longrightarrow> delimited r' \<Longrightarrow> T c @ r = T d @ r' \<Longrightarrow> c = d \<and> r = r'"
        using Cons.prems(1) ys by (meson list.set_intros(2))
      show "?tail xs x = ?tail ys' y" using calculation by simp
    qed (use Cons.prems in auto)
    ultimately show ?thesis using ys by simp
  qed
qed

lemma comma_seq_decode:
  assumes dec: "\<And>a b r r'. a \<in> set xs \<Longrightarrow> b \<in> set ys \<Longrightarrow> delimited r \<Longrightarrow> delimited r' \<Longrightarrow> T a @ r = T b @ r' \<Longrightarrow> a = b \<and> r = r'"
    and e: "e \<noteq> CHR '',''" "\<not> is_digit_char e"
    and hd: "\<And>a. T a \<noteq> [] \<and> hd (T a) \<noteq> e"
    and eq: "join_comma (map T xs) @ e # x = join_comma (map T ys) @ e # y"
  shows "xs = ys \<and> x = y"
proof -
  let ?tail = "\<lambda>zs z. concat (map (Cons (CHR '','')) (map T zs)) @ e # z"
  have tail: "delimited (?tail zs z)" for zs z
    using e(2) by (cases zs) auto
  have clash: "T a @ r \<noteq> e # s" for a r s
    using hd [of a] by (metis hd_append2 list.sel(1))
  show ?thesis
  proof (cases xs)
    case Nil
    with eq clash show ?thesis
      by (cases ys) (auto simp: join_comma_Cons dest: clash [THEN notE, OF sym])
  next
    case xs: (Cons a xs')
    show ?thesis
    proof (cases ys)
      case Nil
      with eq xs clash show ?thesis by (auto simp: join_comma_Cons)
    next
      case ys: (Cons b ys')
      with eq xs have eq': "T a @ ?tail xs' x = T b @ ?tail ys' y"
        by (simp add: join_comma_Cons)
      have "a = b \<and> ?tail xs' x = ?tail ys' y"
        by (rule dec [OF _ _ tail tail eq']) (simp_all add: xs ys)
      moreover from this have "xs' = ys' \<and> x = y"
        using comma_tail_decode [of xs' ys' T e x y] dec xs ys e by (meson list.set_intros(2))
      ultimately show ?thesis using xs ys by simp
    qed
  qed
qed

text \<open>The first character of the printed form tells the constructor.\<close>

fun js_kind :: "js \<Rightarrow> nat" where
  "js_kind (JBool b) = (if b then 1 else 2)"
| "js_kind (JNum n) = 3"
| "js_kind (JStr s) = 4"
| "js_kind (JArr xs) = 5"
| "js_kind (JObj kvs) = 6"
| "js_kind v = 0"

definition head_kind :: "char \<Rightarrow> nat" where
  "head_kind c =
     (if c = CHR ''t'' then 1 else if c = CHR ''f'' then 2 else if c = CHR ''-'' \<or> is_digit_char c then 3
      else if c = CHR 0x22 then 4 else if c = CHR ''['' then 5 else if c = CHR ''{'' then 6 else 0)"

lemma head_kind_json_text: "head_kind (hd (json_text v)) = js_kind v"
proof (cases v)
  case (JNum n)
  have "is_digit_char (hd (show_nat k))" for k by (rule show_nat_hd_digit)
  moreover from this have "hd (show_nat k) \<noteq> CHR ''t'' \<and> hd (show_nat k) \<noteq> CHR ''f''" for k
    by (metis not_digit_chars(11,12))
  ultimately show ?thesis using JNum by (simp add: show_int_def head_kind_def)
qed (simp_all add: quote_def head_kind_def is_digit_char_def)

lemma json_text_same_kind: "json_text v @ x = json_text w @ y \<Longrightarrow> js_kind v = js_kind w"
  using head_kind_json_text [of v] head_kind_json_text [of w] hd_json_text [of v] hd_json_text [of w]
  by (metis hd_append2)

lemma json_text_decode:
  "plain_json v \<Longrightarrow> plain_json w \<Longrightarrow> delimited x \<Longrightarrow> delimited y \<Longrightarrow>
   json_text v @ x = json_text w @ y \<Longrightarrow> v = w \<and> x = y"
proof (induction v arbitrary: w x y rule: json_text.induct)
  case (1 b)
  with json_text_same_kind [OF "1.prems"(5)] show ?case by (cases w) (auto split: if_splits)
next
  case (2 n)
  with json_text_same_kind [OF "2.prems"(5)] show ?case
    by (cases w) (auto split: if_splits dest: show_int_decode)
next
  case (3 s)
  with json_text_same_kind [OF "3.prems"(5)] show ?case
    by (cases w) (auto split: if_splits dest: quote_decode)
next
  case (4 xs)
  from json_text_same_kind [OF "4.prems"(5)] obtain ys where w: "w = JArr ys"
    by (cases w) (auto split: if_splits)
  have "xs = ys \<and> x = y"
  proof (rule comma_seq_decode [where T = json_text and e = "CHR '']''"])
    show "\<And>a. json_text a \<noteq> [] \<and> hd (json_text a) \<noteq> CHR '']''"
      using hd_json_text by blast
    show "join_comma (map json_text xs) @ CHR '']'' # x = join_comma (map json_text ys) @ CHR '']'' # y"
      using "4.prems"(5) w by simp
  qed (use 4 w in \<open>auto simp: list_all_iff\<close>)
  with w show ?case by simp
next
  case (5 kvs)
  let ?T = "\<lambda>p. quote (fst p) @ CHR '':'' # json_text (snd p)"
  from json_text_same_kind [OF "5.prems"(5)] obtain kws where w: "w = JObj kws"
    by (cases w) (auto split: if_splits)
  have "kvs = kws \<and> x = y"
  proof (rule comma_seq_decode [where T = ?T and e = "CHR ''}''"])
    fix a b r r'
    assume a: "a \<in> set kvs" and b: "b \<in> set kws" and r: "delimited r" "delimited r'"
      and eq: "?T a @ r = ?T b @ r'"
    from eq have "quote (fst a) @ (CHR '':'' # json_text (snd a) @ r) = quote (fst b) @ (CHR '':'' # json_text (snd b) @ r')"
      by simp
    from quote_decode [OF this]
    have k: "fst a = fst b" and eq': "json_text (snd a) @ r = json_text (snd b) @ r'"
      by simp_all
    have "snd a = snd b \<and> r = r'"
      using "5.IH" [OF a _ _ r eq'] "5.prems"(1,2) a b w by (simp add: list_all_iff)
    with k show "a = b \<and> r = r'" by (simp add: prod_eq_iff)
  next
    show "join_comma (map ?T kvs) @ CHR ''}'' # x = join_comma (map ?T kws) @ CHR ''}'' # y"
      using "5.prems"(5) w by simp
  qed (simp_all add: quote_def)
  with w show ?case by simp
next
  case "6_1"
  then show ?case by simp
next
  case "6_2"
  with json_text_same_kind [OF "6_2.prems"(5)] show ?case by (cases w) (auto split: if_splits)
qed simp_all

theorem json_text_inject:
  assumes "plain_json v" and "plain_json w" and "json_text v = json_text w"
  shows "v = w"
  using json_text_decode [of v w "[]" "[]"] assms by simp

end
