(* ===== verification/Hash.thy ===== *)
theory Hash
  imports JsValue
begin

text \<open>
  The canonical serialisation and the identifiers derived from it (\<open>packages/durable/src/hash.ts\<close>).

  SHA-256 of Node's \<open>crypto\<close> module is a parameter: a function from the bytes hashed to the hex
  digest. The model's strings have code units below 256, which are their own NFC normal form, so
  \<open>normalize('NFC')\<close> is the identity on them. The branches of \<open>normalizeObject\<close> for \<open>Date\<close>,
  \<open>RegExp\<close>, \<open>URL\<close>, \<open>Map\<close>, \<open>Set\<close> and \<open>toJSON\<close>, and the circularity check, concern values outside
  \<^typ>\<open>js\<close>.

  An object literal \<open>{}\<close> has the inherited accessor \<open>__proto__\<close>: the assignment
  \<open>acc['__proto__'] = v\<close> in the final \<open>reduce\<close> of \<open>normalizeObject\<close> calls it and creates no own
  property. \<^term>\<open>assign_own\<close> states exactly that.
\<close>

section \<open>Definitions\<close>

definition NUL :: char where
  "NUL = CHR 0x00"

definition TAG :: string where
  "TAG = NUL # ''gnl:''"

definition tagged :: "string \<Rightarrow> js \<Rightarrow> js" where
  "tagged type payload = JObj [(TAG @ type, payload)]"

definition escapeKey :: "string \<Rightarrow> string" where
  "escapeKey key = (if prefix [NUL] key then NUL # key else key)"

definition PROTO :: string where
  "PROTO = ''__proto__''"

text \<open>\<open>acc[k] = v\<close> on an object created by the literal \<open>{}\<close>.\<close>

definition assign_own :: "(string \<times> js) list \<Rightarrow> string \<times> js \<Rightarrow> (string \<times> js) list" where
  "assign_own acc kv = (if fst kv = PROTO then acc else js_set (fst kv) (snd kv) acc)"

fun sortKeys :: "js \<Rightarrow> js" where
  "sortKeys (JBigInt n) = tagged ''BigInt'' (JStr (show_int n))"
| "sortKeys (JNonFinite x) = tagged ''Number'' (JStr (show_nonfinite x))"
| "sortKeys (JArr xs) = JArr (map sortKeys xs)"
| "sortKeys (JObj kvs) =
     JObj (own_key_order (foldl assign_own []
       (sort_key fst (map (\<lambda>p. (escapeKey (fst p), sortKeys (snd p))) kvs))))"
| "sortKeys v = v"

text \<open>\<open>undefined\<close> results of \<open>JSON.stringify\<close> are \<^const>\<open>None\<close>.\<close>

definition stableStringify :: "js \<Rightarrow> string option" where
  "stableStringify value = json_stringify (sortKeys value)"

definition serializeForHash :: "js \<Rightarrow> err + string" where
  "serializeForHash args =
     (case stableStringify args of
        Some serialized \<Rightarrow> Inr serialized
      | None \<Rightarrow> if args = JUndef then Inr (TAG @ ''undefined'')
                else Inl (Err ''TypeError'' ''argsHash''))"

definition argsHash :: "(string \<Rightarrow> string) \<Rightarrow> js \<Rightarrow> err + string" where
  "argsHash sha256 args = map_sum id (\<lambda>s. take 16 (sha256 s)) (serializeForHash args)"

definition rawInputFingerprint :: "(string \<Rightarrow> string) \<Rightarrow> js \<Rightarrow> js \<Rightarrow> js \<Rightarrow> err + string" where
  "rawInputFingerprint sha256 prompt messages system =
     argsHash sha256 (JObj [(''prompt'', prompt), (''messages'', messages), (''system'', system)])"

subsection \<open>Derived run identifiers\<close>

definition WORKKEY_DST :: string where
  "WORKKEY_DST = ''gnl.run.v1''"

datatype WorkScopeKind = Resource | Org

fun scope_kind_text :: "WorkScopeKind \<Rightarrow> string" where
  "scope_kind_text Resource = ''resource''"
| "scope_kind_text Org = ''org''"

definition DEPLOYMENT_SCOPE :: string where
  "DEPLOYMENT_SCOPE = ''~deployment''"

definition workKeyHash :: "(string \<Rightarrow> string) \<Rightarrow> string \<Rightarrow> string" where
  "workKeyHash sha256 workKey = take 16 (sha256 workKey)"

definition MAX_WORK_KEY_LENGTH :: nat where
  "MAX_WORK_KEY_LENGTH = 2048"

definition DERIVED_RUN_ID_PREFIX :: string where
  "DERIVED_RUN_ID_PREFIX = ''run1_''"

definition is_hex_char :: "char \<Rightarrow> bool" where
  "is_hex_char c \<longleftrightarrow> is_digit_char c \<or> (97 \<le> (of_char c :: nat) \<and> (of_char c :: nat) \<le> 102)"

record DerivedRunIdParts =
  digest :: string
  execution :: "nat option"
  replaySeq :: "nat option"
  forkNo :: "nat option"

text \<open>
  The four groups of \<open>DERIVED_RUN_ID_RE\<close>. \<open>is_execution_text\<close> is \<open>[2-9]\d*|[1-9]\d+\<close>,
  \<open>is_replay_text\<close> is \<open>0|[1-9]\d*\<close>, \<open>is_fork_text\<close> is \<open>[1-9]\d*\<close>.
\<close>

definition is_execution_text :: "string \<Rightarrow> bool" where
  "is_execution_text t \<longleftrightarrow> t \<noteq> [] \<and> list_all is_digit_char t \<and> hd t \<noteq> CHR ''0''
     \<and> (hd t \<noteq> CHR ''1'' \<or> tl t \<noteq> [])"

definition is_replay_text :: "string \<Rightarrow> bool" where
  "is_replay_text t \<longleftrightarrow> t = ''0'' \<or> (t \<noteq> [] \<and> list_all is_digit_char t \<and> hd t \<noteq> CHR ''0'')"

definition is_fork_text :: "string \<Rightarrow> bool" where
  "is_fork_text t \<longleftrightarrow> t \<noteq> [] \<and> list_all is_digit_char t \<and> hd t \<noteq> CHR ''0''"

definition parse_suffix :: "string \<Rightarrow> string \<Rightarrow> DerivedRunIdParts option" where
  "parse_suffix d t =
     (if is_execution_text t then Some \<lparr>digest = d, execution = Some (read_nat t), replaySeq = None, forkNo = None\<rparr>
      else if prefix ''replay-'' t \<and> is_replay_text (drop 7 t)
        then Some \<lparr>digest = d, execution = None, replaySeq = Some (read_nat (drop 7 t)), forkNo = None\<rparr>
      else if prefix ''fork-'' t \<and> is_fork_text (drop 5 t)
        then Some \<lparr>digest = d, execution = None, replaySeq = None, forkNo = Some (read_nat (drop 5 t))\<rparr>
      else None)"

definition parseDerivedRunId :: "string \<Rightarrow> DerivedRunIdParts option" where
  "parseDerivedRunId runId =
     (if prefix DERIVED_RUN_ID_PREFIX runId then
        let body = drop (length DERIVED_RUN_ID_PREFIX) runId; d = take 32 body; rest = drop 32 body in
        if length d = 32 \<and> list_all is_hex_char d then
          (case rest of
             [] \<Rightarrow> Some \<lparr>digest = d, execution = None, replaySeq = None, forkNo = None\<rparr>
           | c # t \<Rightarrow> if c = CHR ''#'' then parse_suffix d t else None)
        else None
      else None)"

definition isDerivedRunId :: "string \<Rightarrow> bool" where
  "isDerivedRunId runId \<longleftrightarrow> parseDerivedRunId runId \<noteq> None"

definition derivedRunIdBase :: "string \<Rightarrow> string option" where
  "derivedRunIdBase runId = map_option (\<lambda>p. DERIVED_RUN_ID_PREFIX @ digest p) (parseDerivedRunId runId)"

definition work_preimage :: "string \<Rightarrow> WorkScopeKind \<Rightarrow> string \<Rightarrow> string \<Rightarrow> js" where
  "work_preimage agentName scopeKind scopeValue workKey =
     JArr [JStr WORKKEY_DST, JStr agentName, JStr (scope_kind_text scopeKind), JStr scopeValue, JStr workKey]"

definition workDigest ::
  "(string \<Rightarrow> string) \<Rightarrow> string \<Rightarrow> WorkScopeKind \<Rightarrow> string \<Rightarrow> string \<Rightarrow> err + string" where
  "workDigest sha256 agentName scopeKind scopeValue workKey =
     (if agentName = [] then Inl (Err ''Error'' ''agentName'')
      else if scopeValue = [] then Inl (Err ''Error'' ''scopeValue'')
      else if workKey = [] then Inl (Err ''Error'' ''workKey'')
      else if length workKey > MAX_WORK_KEY_LENGTH then Inl (Err ''Error'' ''workKey is too long'')
      else case stableStringify (work_preimage agentName scopeKind scopeValue workKey) of
        Some s \<Rightarrow> Inr (take 32 (sha256 s))
      | None \<Rightarrow> Inl (Err ''TypeError'' ''update''))"

definition derivedRunId ::
  "(string \<Rightarrow> string) \<Rightarrow> string \<Rightarrow> WorkScopeKind \<Rightarrow> string \<Rightarrow> string \<Rightarrow> err + string" where
  "derivedRunId sha256 agentName scopeKind scopeValue workKey =
     map_sum id (\<lambda>d. DERIVED_RUN_ID_PREFIX @ d) (workDigest sha256 agentName scopeKind scopeValue workKey)"

definition executionRunId :: "string \<Rightarrow> int \<Rightarrow> err + string" where
  "executionRunId base n =
     (if CHR ''#'' \<in> set base then Inl (Err ''Error'' ''execution axis'')
      else if \<not> isDerivedRunId base then Inl (Err ''Error'' ''not an engine-derived id'')
      else if n < 2 then Inl (Err ''Error'' ''execution number'')
      else Inr (base @ CHR ''#'' # show_int n))"

definition forkRunId :: "string \<Rightarrow> int \<Rightarrow> err + string" where
  "forkRunId base n =
     (if CHR ''#'' \<in> set base then Inl (Err ''Error'' ''execution axis'')
      else if \<not> isDerivedRunId base then Inl (Err ''Error'' ''not an engine-derived id'')
      else if n < 1 then Inl (Err ''Error'' ''fork number'')
      else Inr (base @ ''#fork-'' @ show_int n))"

section \<open>The canonical form decides equality up to the order of keys\<close>

text \<open>
  The reference notion: equal leaves, equal arrays position by position, equal objects key by
  key in any order.
\<close>

fun js_same :: "js \<Rightarrow> js \<Rightarrow> bool" where
  "js_same (JArr xs) w = (case w of JArr ys \<Rightarrow> list_all2 (\<lambda>x y. js_same x y) xs ys | _ \<Rightarrow> False)"
| "js_same (JObj a) w =
     (case w of
        JObj b \<Rightarrow> length a = length b \<and>
          list_all (\<lambda>p. case map_of b (fst p) of None \<Rightarrow> False | Some y \<Rightarrow> js_same (snd p) y) a
      | _ \<Rightarrow> False)"
| "js_same v w = (v = w)"

text \<open>Values whose content the serialisation keeps: no \<open>undefined\<close> and no own key \<open>__proto__\<close>.\<close>

fun hashable :: "js \<Rightarrow> bool" where
  "hashable JUndef = False"
| "hashable (JArr xs) = list_all hashable xs"
| "hashable (JObj kvs) =
     (distinct (map fst kvs) \<and> PROTO \<notin> set (map fst kvs) \<and> list_all (\<lambda>p. hashable (snd p)) kvs)"
| "hashable v = True"

lemma escapeKey_inject [simp]: "escapeKey a = escapeKey b \<longleftrightarrow> a = b"
  by (auto simp: escapeKey_def prefix_def split: if_splits)

lemma escapeKey_not_tag: "escapeKey k \<noteq> TAG @ t"
  by (auto simp: escapeKey_def TAG_def NUL_def prefix_def split: if_splits)

lemma escapeKey_proto [simp]: "escapeKey k = PROTO \<longleftrightarrow> k = PROTO"
  by (auto simp: escapeKey_def PROTO_def NUL_def prefix_def split: if_splits)

lemma assign_own_distinct:
  "distinct (map fst (acc @ kvs)) \<Longrightarrow> PROTO \<notin> set (map fst kvs) \<Longrightarrow> foldl assign_own acc kvs = acc @ kvs"
proof (induction kvs arbitrary: acc)
  case (Cons kv kvs)
  have "js_set k v m = m @ [(k, v)]" if "k \<notin> set (js_keys m)" for k and v :: js and m
    using that by (induction k v m rule: js_set.induct) (auto split: if_splits)
  with Cons show ?case by (cases kv) (auto simp: assign_own_def)
qed simp

definition sorted_pairs :: "(string \<times> js) list \<Rightarrow> (string \<times> js) list" where
  "sorted_pairs kvs = sort_key fst (map (\<lambda>p. (escapeKey (fst p), sortKeys (snd p))) kvs)"

lemma mset_sorted_pairs:
  "mset (sorted_pairs kvs) = image_mset (\<lambda>p. (escapeKey (fst p), sortKeys (snd p))) (mset kvs)"
  by (simp add: sorted_pairs_def)

lemma set_sorted_pairs: "set (sorted_pairs kvs) = (\<lambda>p. (escapeKey (fst p), sortKeys (snd p))) ` set kvs"
  by (simp add: sorted_pairs_def)

lemma distinct_escaped:
  "distinct (map fst kvs) \<Longrightarrow> distinct (map fst (map (\<lambda>p. (escapeKey (fst p), sortKeys (snd p))) kvs))"
  by (induction kvs) force+

lemma distinct_sorted_pairs:
  assumes "distinct (map fst kvs)"
  shows "distinct (map fst (sorted_pairs kvs))"
proof -
  have "mset (map fst (sorted_pairs kvs)) = mset (map fst (map (\<lambda>p. (escapeKey (fst p), sortKeys (snd p))) kvs))"
    by (simp add: sorted_pairs_def multiset.map_comp)
  then show ?thesis using distinct_escaped [OF assms] mset_eq_imp_distinct_iff by blast
qed

lemma sortKeys_obj:
  assumes "distinct (map fst kvs)" and "PROTO \<notin> set (map fst kvs)"
  shows "sortKeys (JObj kvs) = JObj (own_key_order (sorted_pairs kvs))"
proof -
  have "PROTO \<notin> set (map fst (sorted_pairs kvs))"
    using assms(2) by (auto simp: set_sorted_pairs eq_commute [of PROTO] rev_image_eqI)
  then have "foldl assign_own [] (sorted_pairs kvs) = sorted_pairs kvs"
    using assign_own_distinct [of "[]"] distinct_sorted_pairs [OF assms(1)] by simp
  then show ?thesis by (simp add: sorted_pairs_def)
qed

lemma plain_sortKeys: "hashable v \<Longrightarrow> plain_json (sortKeys v)"
proof (induction v rule: sortKeys.induct)
  case (4 kvs)
  then have "sortKeys (JObj kvs) = JObj (own_key_order (sorted_pairs kvs))"
    by (intro sortKeys_obj) auto
  with 4 show ?case
    by (auto simp: list_all_iff set_sorted_pairs)
qed (auto simp: tagged_def list_all_iff)

text \<open>Equal values up to key order have one canonical form.\<close>

lemma same_objects_mset:
  assumes "distinct (map fst a)" and "distinct (map fst b)" and "length a = length b"
    and "\<And>k v. (k, v) \<in> set a \<Longrightarrow> \<exists>w. (k, w) \<in> set b \<and> sortKeys v = sortKeys w"
  shows "mset (sorted_pairs a) = mset (sorted_pairs b)"
proof -
  let ?f = "\<lambda>p. (escapeKey (fst p), sortKeys (snd p))"
  have "distinct (map ?f a)" "distinct (map ?f b)"
    by (rule distinct_map [THEN iffD1, THEN conjunct1], rule distinct_escaped, fact)+
  moreover have "set (map ?f a) \<subseteq> set (map ?f b)"
  proof
    fix q assume "q \<in> set (map ?f a)"
    then obtain k v where "(k, v) \<in> set a" "q = (escapeKey k, sortKeys v)" by auto
    with assms(4) [of k v] show "q \<in> set (map ?f b)" by (auto intro: rev_image_eqI)
  qed
  moreover have "card (set (map ?f a)) = card (set (map ?f b))"
    using calculation(1,2) [THEN distinct_card] assms(3) by (simp only: length_map)
  ultimately have "mset (map ?f a) = mset (map ?f b)"
    using card_subset_eq [of "set (map ?f b)" "set (map ?f a)"]
    by (simp only: List.finite_set set_eq_iff_mset_eq_distinct)
  then show ?thesis by (simp add: sorted_pairs_def)
qed

lemma sort_key_unique:
  assumes "mset xs = mset ys" and "distinct (map f xs)"
  shows "sort_key f xs = sort_key f ys"
proof -
  have "distinct (map f ys)"
    using assms by (metis mset_eq_imp_distinct_iff mset_map)
  then have inj: "inj_on f (set ys)" by (simp add: distinct_map)
  have "filter (\<lambda>x. f k = f x) (sort_key f xs) = filter (\<lambda>x. f k = f x) ys" if "k \<in> set ys" for k
  proof -
    have eq: "f k = f x \<longleftrightarrow> x = k" if "x \<in> set ys" for x
      using inj that \<open>k \<in> set ys\<close> by (auto dest: inj_onD)
    have "set (sort_key f xs) = set ys" using assms(1) by (metis set_mset_mset set_sort)
    then have "filter (\<lambda>x. f k = f x) (sort_key f xs) = filter (\<lambda>x. x = k) (sort_key f xs)"
      and "filter (\<lambda>x. f k = f x) ys = filter (\<lambda>x. x = k) ys"
      by (auto intro!: filter_cong simp: eq)
    moreover have "filter (\<lambda>x. x = k) zs = replicate (count (mset zs) k) k" for zs
      by (induction zs) auto
    ultimately show ?thesis using assms(1) by simp
  qed
  then have "sort_key f ys = sort_key f xs"
    using assms(1) by (intro properties_for_sort_key) (auto dest: mset_eq_setD)
  then show ?thesis by simp
qed

lemma sorted_pairs_unique:
  assumes "mset (sorted_pairs a) = mset (sorted_pairs b)" and "distinct (map fst a)"
  shows "sorted_pairs a = sorted_pairs b"
proof -
  have "sort_key fst (sorted_pairs a) = sort_key fst (sorted_pairs b)"
    by (rule sort_key_unique [OF assms(1) distinct_sorted_pairs [OF assms(2)]])
  moreover have "sort_key fst (sorted_pairs x) = sorted_pairs x" for x
    unfolding sorted_pairs_def by (rule sort_key_id_if_sorted) simp
  ultimately show ?thesis by simp
qed

lemma js_same_sortKeys: "hashable v \<Longrightarrow> hashable w \<Longrightarrow> js_same v w \<Longrightarrow> sortKeys v = sortKeys w"
proof (induction v arbitrary: w rule: sortKeys.induct)
  case (3 xs)
  then obtain ys where w: "w = JArr ys" and l2: "list_all2 js_same xs ys"
    by (cases w) auto
  have "map sortKeys xs = map sortKeys ys"
    using 3 w l2 by (auto simp: list_all2_conv_all_nth list_all_iff intro!: nth_equalityI)
  with w show ?case by simp
next
  case (4 a)
  then obtain b where w: "w = JObj b" and len: "length a = length b"
    and sub: "\<And>k v. (k, v) \<in> set a \<Longrightarrow> \<exists>y. map_of b k = Some y \<and> js_same v y"
    by (cases w) (fastforce simp: list_all_iff split: option.splits)+
  have d: "distinct (map fst a)" "distinct (map fst b)" "PROTO \<notin> set (map fst a)" "PROTO \<notin> set (map fst b)"
    using 4 w by auto
  have hv: "hashable v" if "(k, v) \<in> set a" for k v
    using "4.prems"(1) that by (auto simp: list_all_iff)
  have hw: "hashable v" if "(k, v) \<in> set b" for k v
    using "4.prems"(2) w that by (auto simp: list_all_iff)
  have "mset (sorted_pairs a) = mset (sorted_pairs b)"
  proof (rule same_objects_mset [OF d(1,2) len])
    fix k v assume kv: "(k, v) \<in> set a"
    from sub [OF kv] obtain y where y: "map_of b k = Some y" "js_same v y" by blast
    then have "(k, y) \<in> set b" by (simp add: map_of_SomeD)
    moreover have "sortKeys v = sortKeys y"
      using "4.IH" [OF kv] hv [OF kv] hw calculation y(2) by simp
    ultimately show "\<exists>w. (k, w) \<in> set b \<and> sortKeys v = sortKeys w" by blast
  qed
  from sorted_pairs_unique [OF this d(1)] show ?case
    unfolding w sortKeys_obj [OF d(1,3)] sortKeys_obj [OF d(2,4)] by simp
qed auto

text \<open>Conversely the canonical form determines the value up to key order.\<close>

lemma sortKeys_not_tagged: "hashable (JObj kvs) \<Longrightarrow> sortKeys (JObj kvs) \<noteq> tagged t p"
proof
  assume h: "hashable (JObj kvs)" and eq: "sortKeys (JObj kvs) = tagged t p"
  then have "own_key_order (sorted_pairs kvs) = [(TAG @ t, p)]"
    using sortKeys_obj [of kvs] by (simp add: tagged_def)
  then have "set (sorted_pairs kvs) = {(TAG @ t, p)}"
    by (metis set_own_key_order list.set(1) list.simps(15))
  then have "(TAG @ t, p) \<in> (\<lambda>p. (escapeKey (fst p), sortKeys (snd p))) ` set kvs"
    by (simp add: set_sorted_pairs)
  then show False using escapeKey_not_tag by (metis (no_types, lifting) imageE prod.inject)
qed

lemma show_nonfinite_inject [simp]: "show_nonfinite x = show_nonfinite y \<longleftrightarrow> x = y"
  by (cases x; cases y) simp_all

lemma tagged_inject [simp]: "tagged s p = tagged t q \<longleftrightarrow> s = t \<and> p = q"
  by (simp add: tagged_def)

lemma tagged_not [simp]:
  "tagged t p \<noteq> JNull" "tagged t p \<noteq> JBool b" "tagged t p \<noteq> JNum n" "tagged t p \<noteq> JStr s" "tagged t p \<noteq> JArr xs"
  "JNull \<noteq> tagged t p" "JBool b \<noteq> tagged t p" "JNum n \<noteq> tagged t p" "JStr s \<noteq> tagged t p" "JArr xs \<noteq> tagged t p"
  "tagged t p \<noteq> JUndef" "JUndef \<noteq> tagged t p"
  by (simp_all add: tagged_def)

lemma sortKeys_leaf:
  "JNull = sortKeys w \<longleftrightarrow> w = JNull" "JBool b = sortKeys w \<longleftrightarrow> w = JBool b"
  "JNum n = sortKeys w \<longleftrightarrow> w = JNum n" "JStr s = sortKeys w \<longleftrightarrow> w = JStr s" "JUndef = sortKeys w \<longleftrightarrow> w = JUndef"
  by (cases w; auto)+

lemma sortKeys_js_same: "hashable v \<Longrightarrow> hashable w \<Longrightarrow> sortKeys v = sortKeys w \<Longrightarrow> js_same v w"
proof (induction v arbitrary: w rule: sortKeys.induct)
  case (1 n)
  then show ?case using sortKeys_not_tagged by (cases w) (auto simp del: sortKeys.simps(4) dest: sym)
next
  case (2 x)
  then show ?case using sortKeys_not_tagged by (cases w) (auto simp del: sortKeys.simps(4) dest: sym)
next
  case (3 xs)
  then obtain ys where w: "w = JArr ys" and "map sortKeys xs = map sortKeys ys"
    by (cases w) auto
  then have len: "length xs = length ys" and "\<And>i. i < length xs \<Longrightarrow> sortKeys (xs ! i) = sortKeys (ys ! i)"
    by (metis length_map, metis length_map nth_map)
  with 3 w show ?case by (auto simp: list_all2_conv_all_nth list_all_iff)
next
  case (4 a)
  from 4(4) sortKeys_not_tagged [OF 4(2)] obtain b where w: "w = JObj b"
    by (cases w) (auto simp del: sortKeys.simps(4), auto)
  have d: "distinct (map fst a)" "distinct (map fst b)" "PROTO \<notin> set (map fst a)" "PROTO \<notin> set (map fst b)"
    using 4 w by auto
  have "own_key_order (sorted_pairs a) = own_key_order (sorted_pairs b)"
    using 4(4) unfolding w sortKeys_obj [OF d(1,3)] sortKeys_obj [OF d(2,4)] by simp
  then have m: "mset (sorted_pairs a) = mset (sorted_pairs b)"
    by (metis mset_own_key_order)
  have len: "length a = length b"
    using arg_cong [OF m, of size] by (simp add: mset_sorted_pairs)
  have "\<exists>y. map_of b k = Some y \<and> js_same v y" if kv: "(k, v) \<in> set a" for k v
  proof -
    have "(escapeKey k, sortKeys v) \<in> set (sorted_pairs b)"
      using kv mset_eq_setD [OF m] by (force simp: set_sorted_pairs)
    then obtain y where y: "(k, y) \<in> set b" "sortKeys v = sortKeys y"
      by (auto simp: set_sorted_pairs)
    moreover have "js_same v y"
      using "4.IH" [OF kv] "4.prems"(1,2) kv y w by (force simp: list_all_iff)
    ultimately show ?thesis using d(2) by auto
  qed
  with w len show ?case by (fastforce simp: list_all_iff)
qed (simp_all add: sortKeys_leaf)

lemma stableStringify_hashable: "hashable v \<Longrightarrow> stableStringify v = Some (json_text (sortKeys v))"
  by (simp add: stableStringify_def json_stringify_plain plain_sortKeys)

lemma stableStringify_eq_iff:
  assumes "hashable v" and "hashable w"
  shows "stableStringify v = stableStringify w \<longleftrightarrow> js_same v w"
proof
  assume "stableStringify v = stableStringify w"
  then have "sortKeys v = sortKeys w"
    using json_text_inject [OF plain_sortKeys plain_sortKeys] assms by (simp add: stableStringify_hashable)
  with assms show "js_same v w" by (rule sortKeys_js_same)
next
  assume "js_same v w"
  with assms have "sortKeys v = sortKeys w" by (rule js_same_sortKeys)
  then show "stableStringify v = stableStringify w" by (simp add: stableStringify_def)
qed

lemma json_text_not_tag: "json_text v \<noteq> TAG @ t"
proof
  assume "json_text v = TAG @ t"
  then have "hd (json_text v) = NUL" by (simp add: TAG_def)
  moreover have "head_kind NUL = 0 \<and> NUL \<noteq> CHR ''n''"
    by (simp add: head_kind_def NUL_def is_digit_char_def)
  ultimately show False
    using head_kind_json_text [of v] by (cases v) (auto split: if_splits)
qed

lemma serializeForHash_hashable: "hashable v \<Longrightarrow> serializeForHash v = Inr (json_text (sortKeys v))"
  by (simp add: serializeForHash_def stableStringify_hashable)

lemma serializeForHash_undef: "serializeForHash JUndef = Inr (TAG @ ''undefined'')"
  by (simp add: serializeForHash_def stableStringify_def)

section \<open>Derived identifiers\<close>

text \<open>The reference spelling of a parsed identifier.\<close>

definition print_parts :: "DerivedRunIdParts \<Rightarrow> string" where
  "print_parts p = DERIVED_RUN_ID_PREFIX @ digest p
     @ (case execution p of Some n \<Rightarrow> CHR ''#'' # show_nat n | None \<Rightarrow> [])
     @ (case replaySeq p of Some n \<Rightarrow> ''#replay-'' @ show_nat n | None \<Rightarrow> [])
     @ (case forkNo p of Some n \<Rightarrow> ''#fork-'' @ show_nat n | None \<Rightarrow> [])"

lemma print_parse_suffix:
  assumes "parse_suffix d t = Some p"
  shows "print_parts p = DERIVED_RUN_ID_PREFIX @ d @ CHR ''#'' # t"
proof -
  have canon: "show_nat (read_nat u) = u" if "is_execution_text u \<or> is_replay_text u \<or> is_fork_text u" for u
    using that by (intro show_read_nat) (auto simp: is_execution_text_def is_replay_text_def is_fork_text_def canonical_nat_def is_digit_char_def)
  have "prefix ''replay-'' t \<Longrightarrow> ''replay-'' @ drop 7 t = t" "prefix ''fork-'' t \<Longrightarrow> ''fork-'' @ drop 5 t = t"
    using prefix_drop_eq [of "''replay-''" t] prefix_drop_eq [of "''fork-''" t] by (simp_all add: eval_nat_numeral)
  then show ?thesis
    using assms canon
    by (auto simp: parse_suffix_def print_parts_def split: if_splits)
qed

lemma print_parse:
  assumes "parseDerivedRunId s = Some p"
  shows "print_parts p = s"
proof -
  define body where "body = drop (length DERIVED_RUN_ID_PREFIX) s"
  have s: "s = DERIVED_RUN_ID_PREFIX @ body" if "prefix DERIVED_RUN_ID_PREFIX s"
    using prefix_drop_eq [OF that] by (simp add: body_def)
  have b: "body = take 32 body @ drop 32 body" by simp
  from assms consider
      (plain) "s = DERIVED_RUN_ID_PREFIX @ body" "drop 32 body = []"
        "p = \<lparr>digest = take 32 body, execution = None, replaySeq = None, forkNo = None\<rparr>"
    | (suf) t where "s = DERIVED_RUN_ID_PREFIX @ body" "drop 32 body = CHR ''#'' # t" "parse_suffix (take 32 body) t = Some p"
    unfolding parseDerivedRunId_def body_def [symmetric] Let_def
    by (auto split: if_splits list.splits dest: s)
  then show ?thesis
  proof cases
    case plain
    then show ?thesis by (simp add: print_parts_def)
  next
    case suf
    then show ?thesis using print_parse_suffix [OF suf(3)] b by simp
  qed
qed

lemma parse_mint:
  assumes "length d = 32" and "list_all is_hex_char d"
  shows "parseDerivedRunId (DERIVED_RUN_ID_PREFIX @ d) = Some \<lparr>digest = d, execution = None, replaySeq = None, forkNo = None\<rparr>"
    and "parseDerivedRunId (DERIVED_RUN_ID_PREFIX @ d @ CHR ''#'' # t) = parse_suffix d t"
  using assms by (simp_all add: parseDerivedRunId_def Let_def)

text \<open>An identifier with no \<open>#\<close> that parses is the prefix and a digest.\<close>

lemma derived_base_shape:
  assumes "isDerivedRunId base" and "CHR ''#'' \<notin> set base"
  obtains d where "base = DERIVED_RUN_ID_PREFIX @ d" "length d = 32" "list_all is_hex_char d"
proof -
  from assms(1) obtain p where p: "parseDerivedRunId base = Some p" by (auto simp: isDerivedRunId_def)
  from print_parse [OF p] assms(2) have "execution p = None" "replaySeq p = None" "forkNo p = None"
    by (auto simp: print_parts_def split: option.splits)
  then have base: "base = DERIVED_RUN_ID_PREFIX @ digest p"
    using print_parse [OF p] by (simp add: print_parts_def)
  moreover have "length (digest p) = 32 \<and> list_all is_hex_char (digest p)"
    using p by (auto simp: parseDerivedRunId_def parse_suffix_def Let_def split: if_splits list.splits)
  ultimately show ?thesis using that by blast
qed

lemma is_digit_1 [simp]: "is_digit_char (CHR ''1'')"
  by (simp add: is_digit_char_def)

lemma parse_suffix_execution:
  assumes "2 \<le> n"
  shows "parse_suffix d (show_nat n) = Some \<lparr>digest = d, execution = Some n, replaySeq = None, forkNo = None\<rparr>"
proof -
  have "canonical_nat (show_nat n)" by (rule canonical_show_nat)
  moreover have "show_nat n \<noteq> ''0''" "show_nat n \<noteq> ''1''"
    using assms read_show_nat [of n] by (auto simp: read_nat_def digit_value_def)
  ultimately have "is_execution_text (show_nat n)"
    by (cases "show_nat n") (auto simp: is_execution_text_def canonical_nat_def)
  then show ?thesis by (simp add: parse_suffix_def)
qed

lemma not_execution_text: "\<not> is_digit_char c \<Longrightarrow> \<not> is_execution_text (c # t)"
  by (simp add: is_execution_text_def)

lemma parse_suffix_fork:
  assumes "1 \<le> n"
  shows "parse_suffix d (''fork-'' @ show_nat n) = Some \<lparr>digest = d, execution = None, replaySeq = None, forkNo = Some n\<rparr>"
proof -
  have "canonical_nat (show_nat n)" by (rule canonical_show_nat)
  moreover have "show_nat n \<noteq> ''0''"
    using assms read_show_nat [of n] by (auto simp: read_nat_def digit_value_def)
  ultimately have "is_fork_text (show_nat n)"
    by (auto simp: is_fork_text_def canonical_nat_def)
  then show ?thesis by (simp add: parse_suffix_def not_execution_text)
qed

section \<open>Properties\<close>



text \<open>
  An own key \<open>__proto__\<close> disappears from the canonical form. Arguments that differ only in the
  value of such a key (\<open>JSON.parse\<close> creates one) have the same \<open>argsHash\<close> as the arguments without it,
  whatever the hash function is.
\<close>

theorem args_hash_drops_proto:
  "argsHash sha256 (JObj ((PROTO, v) # kvs)) = argsHash sha256 (JObj kvs)"
proof -
  let ?np = "filter (\<lambda>p. fst p \<noteq> PROTO)"
  let ?m = "map (\<lambda>p. (escapeKey (fst p), sortKeys (snd p)))"
  have drop: "foldl assign_own acc xs = foldl assign_own acc (?np xs)" for acc and xs :: "(string \<times> js) list"
    by (induction xs arbitrary: acc) (auto simp: assign_own_def)
  have "?np (?m ((PROTO, v) # kvs)) = ?np (?m kvs)" by simp
  then have "?np (sort_key fst (?m ((PROTO, v) # kvs))) = ?np (sort_key fst (?m kvs))"
    by (simp only: filter_sort)
  then have "sortKeys (JObj ((PROTO, v) # kvs)) = sortKeys (JObj kvs)"
    unfolding sortKeys.simps
    by (subst drop, subst (2) drop) (simp only:)
  then show ?thesis by (simp add: argsHash_def serializeForHash_def stableStringify_def)
qed

text \<open>
  A derived run identity names one unit of work. When two derivations give the same identifier
  and SHA-256 (cut to 32 hex digits) does not collide on the two serialised tuples, the agent, the
  scope kind, the scope value and the work key all agree: no choice of field contents shifts a
  boundary between the fields.
\<close>

theorem derived_run_id_names_one_work:
  assumes "derivedRunId sha256 a k s w = Inr r" and "derivedRunId sha256 a' k' s' w' = Inr r"
    and "take 32 (sha256 (json_text (work_preimage a k s w))) = take 32 (sha256 (json_text (work_preimage a' k' s' w')))
         \<longrightarrow> json_text (work_preimage a k s w) = json_text (work_preimage a' k' s' w')"
  shows "a = a' \<and> k = k' \<and> s = s' \<and> w = w'"
proof -
  have str: "stableStringify (work_preimage a k s w) = Some (json_text (work_preimage a k s w))" for a k s w
    by (subst stableStringify_hashable) (simp_all add: work_preimage_def)
  have "json_text (work_preimage a k s w) = json_text (work_preimage a' k' s' w')"
    using assms by (auto simp: derivedRunId_def workDigest_def str split: if_splits)
  then have "work_preimage a k s w = work_preimage a' k' s' w'"
    by (rule json_text_inject [rotated 2]) (simp_all add: work_preimage_def)
  then show ?thesis
    by (cases k; cases k') (auto simp: work_preimage_def)
qed

theorem derived_run_id_names_one_work_witness:
  "(''ag'', Org, ''o:1'', ''inv'') = (''ag'', Org, ''o:1'', ''inv'')
   \<and> derivedRunId id ''ag'' Org ''o:1'' ''inv'' = Inr (''run1_'' @ take 32 (json_text (work_preimage ''ag'' Org ''o:1'' ''inv'')))"
proof -
  have r: "derivedRunId id ''ag'' Org ''o:1'' ''inv'' = Inr (''run1_'' @ take 32 (json_text (work_preimage ''ag'' Org ''o:1'' ''inv'')))"
    by (simp add: derivedRunId_def workDigest_def MAX_WORK_KEY_LENGTH_def DERIVED_RUN_ID_PREFIX_def
        stableStringify_hashable work_preimage_def)
  from derived_run_id_names_one_work [OF r r] r show ?thesis by simp
qed

text \<open>
  Parsing a derived identifier inverts minting it. An execution number of at least 2 and a fork
  number of at least 1 are read back from the minted identifier, together with the base; and every
  identifier that parses is the one spelling of its parts, so no two accepted identifiers name the
  same execution.
\<close>

theorem derived_run_id_roundtrip:
  assumes "executionRunId base n = Inr e" and "forkRunId base m = Inr f"
  shows "map_option execution (parseDerivedRunId e) = Some (Some (nat n)) \<and> derivedRunIdBase e = Some base
    \<and> map_option forkNo (parseDerivedRunId f) = Some (Some (nat m)) \<and> derivedRunIdBase f = Some base
    \<and> (\<forall>p. parseDerivedRunId s = Some p \<and> parseDerivedRunId t = Some p \<longrightarrow> s = t)"
proof -
  from assms have der: "isDerivedRunId base" and hash: "CHR ''#'' \<notin> set base" and n: "2 \<le> n" and m: "1 \<le> m"
    and e: "e = base @ CHR ''#'' # show_nat (nat n)" and f: "f = base @ CHR ''#'' # ''fork-'' @ show_nat (nat m)"
    by (auto simp: executionRunId_def forkRunId_def show_int_def split: if_splits)
  obtain d where base: "base = DERIVED_RUN_ID_PREFIX @ d" and d: "length d = 32" "list_all is_hex_char d"
    using derived_base_shape [OF der hash] .
  have "parseDerivedRunId e = Some \<lparr>digest = d, execution = Some (nat n), replaySeq = None, forkNo = None\<rparr>"
    using parse_mint(2) [OF d] parse_suffix_execution [of "nat n"] n by (simp add: e base)
  moreover have "parseDerivedRunId f = Some \<lparr>digest = d, execution = None, replaySeq = None, forkNo = Some (nat m)\<rparr>"
    using parse_mint(2) [OF d] parse_suffix_fork [of "nat m"] m by (simp add: f base)
  moreover have "s = t" if "parseDerivedRunId s = Some p" "parseDerivedRunId t = Some p" for p
    using print_parse [OF that(1)] print_parse [OF that(2)] by simp
  ultimately show ?thesis by (auto simp: derivedRunIdBase_def base)
qed

theorem derived_run_id_roundtrip_witness:
  "derivedRunIdBase (''run1_0123456789abcdef0123456789abcdef'' @ ''#12'') = Some ''run1_0123456789abcdef0123456789abcdef''"
proof -
  let ?b = "''run1_0123456789abcdef0123456789abcdef''"
  have "isDerivedRunId ?b"
    by (simp add: isDerivedRunId_def parseDerivedRunId_def DERIVED_RUN_ID_PREFIX_def Let_def is_hex_char_def is_digit_char_def)
  then have e: "executionRunId ?b 12 = Inr (?b @ ''#'' @ show_nat 12)" and f: "forkRunId ?b 1 = Inr (?b @ ''#fork-'' @ show_nat 1)"
    by (simp_all add: executionRunId_def forkRunId_def show_int_def)
  have "show_nat 12 = ''12''"
    by (simp add: show_nat.simps digit_char_def char_of_def bit_0)
  with derived_run_id_roundtrip [OF e f] show ?thesis by simp
qed

end
