(* ===== verification/Journal.thy ===== *)
theory Journal
  imports Hash
begin

text \<open>
  The journal (\<open>packages/durable/src/journal.ts\<close>): the key schema and its parser, run summaries and
  paging, and \<open>InMemoryJournal\<close>, the reference implementation of the journal port.

  An operation of \<open>InMemoryJournal\<close> is a function on its record; \<open>Date.now()\<close> is the argument \<open>t\<close>.
  Stored values are immutable here, so \<open>structuredClone\<close> is the identity. An absent value is
  \<^const>\<open>JUndef\<close>, as \<open>get\<close> returns it; a stored \<open>undefined\<close> is present for \<open>has\<close>, as in the code.
\<close>

section \<open>The key schema\<close>

definition assertNoColonInToolName :: "string \<Rightarrow> err option" where
  "assertNoColonInToolName toolName =
     (if CHR '':'' \<in> set toolName then Some (Err ''Error'' ''tool name must not contain a colon'') else None)"

definition nestedAgentRunId :: "string option \<Rightarrow> string \<Rightarrow> string \<Rightarrow> string" where
  "nestedAgentRunId parentRunId toolCallId pre =
     (case parentRunId of
        Some p \<Rightarrow> if p \<noteq> [] then pre @ '':'' @ p @ '':'' @ toolCallId else pre @ '':'' @ toolCallId
      | None \<Rightarrow> pre @ '':'' @ toolCallId)"

fun split_colon :: "string \<Rightarrow> string list" where
  "split_colon [] = [[]]"
| "split_colon (c # s) =
     (if c = CHR '':'' then [] # split_colon s
      else (c # hd (split_colon s)) # tl (split_colon s))"

text \<open>\<open>/(^|:)(model|tool)(:|$)/\<close> holds of a text with a colon-delimited segment \<open>model\<close> or \<open>tool\<close>.\<close>

definition assertThreadId :: "string \<Rightarrow> err option" where
  "assertThreadId threadId =
     (if list_ex (\<lambda>s. s = ''model'' \<or> s = ''tool'') (split_colon threadId)
      then Some (Err ''Error'' ''thread id would collide with the key schema'') else None)"

definition key_input :: "string \<Rightarrow> key" where
  "key_input runId = runId @ '':input''"

definition key_model :: "string \<Rightarrow> string \<Rightarrow> key" where
  "key_model runId step = runId @ '':model:'' @ step"

definition key_tool :: "string \<Rightarrow> string \<Rightarrow> key" where
  "key_tool runId toolCallId = runId @ '':tool:'' @ toolCallId"

definition key_toolByArgs :: "string \<Rightarrow> string \<Rightarrow> string \<Rightarrow> err + key" where
  "key_toolByArgs runId toolName h =
     (case assertNoColonInToolName toolName of
        Some e \<Rightarrow> Inl e
      | None \<Rightarrow> Inr (runId @ '':tool:args-'' @ toolName @ ''-'' @ h))"

definition key_toolCrossRun :: "string \<Rightarrow> string \<Rightarrow> err + key" where
  "key_toolCrossRun toolName h =
     (case assertNoColonInToolName toolName of
        Some e \<Rightarrow> Inl e
      | None \<Rightarrow> Inr (''xrun:args-'' @ toolName @ ''-'' @ h))"

definition key_toolCrossRunOwner :: "string \<Rightarrow> string \<Rightarrow> err + key" where
  "key_toolCrossRunOwner toolName h =
     (case assertNoColonInToolName toolName of
        Some e \<Rightarrow> Inl e
      | None \<Rightarrow> Inr (''xrun:owner-'' @ toolName @ ''-'' @ h))"

definition key_toolThread :: "string \<Rightarrow> string \<Rightarrow> string \<Rightarrow> err + key" where
  "key_toolThread threadId toolName h =
     (case assertThreadId threadId of
        Some e \<Rightarrow> Inl e
      | None \<Rightarrow>
          (case assertNoColonInToolName toolName of
             Some e \<Rightarrow> Inl e
           | None \<Rightarrow> Inr (''xthr:'' @ threadId @ '':args-'' @ toolName @ ''-'' @ h)))"

definition key_proc :: "string \<Rightarrow> string \<Rightarrow> key" where
  "key_proc runId name = runId @ '':proc:'' @ name"

definition key_memAppended :: "string \<Rightarrow> key" where
  "key_memAppended runId = ''mem-appended:'' @ runId"

definition key_memUserAppended :: "string \<Rightarrow> key" where
  "key_memUserAppended runId = ''mem-user-appended:'' @ runId"

definition key_memoryContext :: "string \<Rightarrow> key" where
  "key_memoryContext runId = runId @ '':memctx''"

definition key_cfgModel :: "string \<Rightarrow> key" where
  "key_cfgModel runId = runId @ '':cfg:model''"

definition key_cfgLimits :: "string \<Rightarrow> key" where
  "key_cfgLimits runId = runId @ '':cfg:limits''"

definition key_approval :: "string \<Rightarrow> string \<Rightarrow> key" where
  "key_approval runId toolCallId = runId @ '':approval:'' @ toolCallId"

definition key_outcome :: "string \<Rightarrow> key" where
  "key_outcome runId = runId @ '':outcome''"

subsection \<open>Reading keys back\<close>

datatype JournalEntryKind = Model | Tool

text \<open>
  \<open>/^(.*):(model|tool):.+$/\<close>. The dot matches no line terminator (\<open>LF\<close>, \<open>CR\<close> among code units
  below 256), and every character of the key is matched by a dot or a literal, so a key with one
  does not match; the group \<open>(.*)\<close> is greedy, so the last possible split is taken.
\<close>

definition is_line_terminator :: "char \<Rightarrow> bool" where
  "is_line_terminator c \<longleftrightarrow> of_char c = (10 :: nat) \<or> of_char c = (13 :: nat)"

definition kind_at :: "string \<Rightarrow> JournalEntryKind option" where
  "kind_at s =
     (if prefix '':model:'' s \<and> length s > 7 then Some Model
      else if prefix '':tool:'' s \<and> length s > 6 then Some Tool else None)"

fun last_kind :: "string \<Rightarrow> (string \<times> JournalEntryKind) option" where
  "last_kind [] = None"
| "last_kind (c # s) =
     (case last_kind s of
        Some (h, k) \<Rightarrow> Some (c # h, k)
      | None \<Rightarrow> map_option (\<lambda>k. ([], k)) (kind_at (c # s)))"

definition parseJournalKey :: "key \<Rightarrow> (string \<times> JournalEntryKind) option" where
  "parseJournalKey key = (if list_ex is_line_terminator key then None else last_kind key)"

definition isVersionedRecord :: "js \<Rightarrow> bool" where
  "isVersionedRecord value = js_has_field ''_v'' value"

definition runIdOfKey :: "key \<Rightarrow> js \<Rightarrow> string option" where
  "runIdOfKey key value =
     (case parseJournalKey key of
        Some (r, _) \<Rightarrow> Some r
      | None \<Rightarrow>
          if suffix '':input'' key \<and> \<not> list_ex is_line_terminator key \<and> isVersionedRecord value
          then Some (take (length key - 6) key) else None)"

definition lifecycle_status :: "js \<Rightarrow> bool" where
  "lifecycle_status s \<longleftrightarrow> s \<in> {JStr ''failed'', JStr ''completed'', JStr ''running'', JStr ''canceled''}"

definition outcomeStatusOf :: "key \<Rightarrow> js \<Rightarrow> string option" where
  "outcomeStatusOf key value =
     (if \<not> suffix '':outcome'' key then None
      else case js_field ''status'' value of
        JStr s \<Rightarrow> if lifecycle_status (JStr s) then Some s else None
      | _ \<Rightarrow> None)"

section \<open>Run summaries\<close>

datatype RunStatus = Completed | Suspended | Failed | Running | Canceled

definition deriveRunStatus :: "bool \<Rightarrow> js \<Rightarrow> RunStatus" where
  "deriveRunStatus suspended outcome =
     (let st = js_field ''status'' outcome in
      if st = JStr ''canceled'' then Canceled
      else if suspended then Suspended
      else if st = JStr ''failed'' then Failed
      else if st = JStr ''running'' then Running
      else Completed)"

record JournalEntry =
  entry_key :: key
  entry_runId :: string
  entry_kind :: JournalEntryKind
  entry_value :: js
  entry_seq :: nat
  entry_ts :: "int option"

record RunSummary =
  sum_runId :: string
  sum_status :: RunStatus
  sum_modelSteps :: nat
  sum_toolCalls :: nat
  sum_threadId :: js
  sum_agent :: js
  sum_resourceId :: js
  sum_workKey :: js

definition tool_suspended :: "js \<Rightarrow> bool" where
  "tool_suspended v \<longleftrightarrow> js_field ''status'' v = JStr ''suspended''"

text \<open>The loop of \<open>summarizeRun\<close> over \<open>(modelSteps, toolCalls, suspended)\<close>.\<close>

fun summarize_step :: "nat \<times> nat \<times> bool \<Rightarrow> JournalEntry \<Rightarrow> nat \<times> nat \<times> bool" where
  "summarize_step (m, t, s) e =
     (case entry_kind e of
        Model \<Rightarrow> (Suc m, t, s)
      | Tool \<Rightarrow> (m, Suc t, s \<or> tool_suspended (entry_value e)))"

definition summarizeRun :: "string \<Rightarrow> JournalEntry list \<Rightarrow> js \<Rightarrow> RunSummary" where
  "summarizeRun runId entries outcome =
     (case foldl summarize_step (0, 0, False) entries of
        (m, t, s) \<Rightarrow>
          \<lparr>sum_runId = runId, sum_status = deriveRunStatus s outcome, sum_modelSteps = m, sum_toolCalls = t,
           sum_threadId = JUndef, sum_agent = JUndef, sum_resourceId = JUndef, sum_workKey = JUndef\<rparr>)"

subsection \<open>Paging\<close>

text \<open>
  A query; an absent filter is \<^const>\<open>None\<close> (an empty filter string is falsy and filters nothing).
  Cursors are the decimal texts the pages hand out; any other text reads as 0, as
  \<open>Number(cursor) || 0\<close> does for texts that are no numerals.
\<close>

record RunListQuery =
  q_limit :: "nat option"
  q_cursor :: "string option"
  q_status :: "RunStatus option"
  q_agent :: string
  q_resourceId :: string
  q_workKey :: string

definition no_query :: RunListQuery where
  "no_query = \<lparr>q_limit = None, q_cursor = None, q_status = None, q_agent = [], q_resourceId = [], q_workKey = []\<rparr>"

definition matches_query :: "RunListQuery \<Rightarrow> RunSummary \<Rightarrow> bool" where
  "matches_query q r \<longleftrightarrow>
     (case q_status q of Some s \<Rightarrow> sum_status r = s | None \<Rightarrow> True)
     \<and> (q_agent q \<noteq> [] \<longrightarrow> sum_agent r = JStr (q_agent q))
     \<and> (q_resourceId q \<noteq> [] \<longrightarrow> sum_resourceId r = JStr (q_resourceId q))
     \<and> (q_workKey q \<noteq> [] \<longrightarrow> sum_workKey r = JStr (q_workKey q))"

definition cursor_start :: "string option \<Rightarrow> nat" where
  "cursor_start c =
     (case c of None \<Rightarrow> 0 | Some s \<Rightarrow> if s \<noteq> [] \<and> list_all is_digit_char s then read_nat s else 0)"

record RunPage =
  page_items :: "RunSummary list"
  page_nextCursor :: "string option"

definition pageFromArray :: "RunSummary list \<Rightarrow> RunListQuery \<Rightarrow> RunPage" where
  "pageFromArray all q =
     (let filtered = filter (matches_query q) all;
          start = cursor_start (q_cursor q);
          lim = (case q_limit q of None \<Rightarrow> 50 | Some n \<Rightarrow> n);
          nxt = start + lim
      in \<lparr>page_items = take lim (drop start filtered),
          page_nextCursor = (if nxt < length filtered then Some (show_nat nxt) else None)\<rparr>)"

datatype RunListAnswer = RunArray "RunSummary list" | RunPaged RunPage

text \<open>
  \<open>listRunsArray\<close>: the answer of the backend is either the whole array or a page. The loop follows
  cursors until one is missing, empty or repeated; it runs on fuel because a backend may hand out
  new cursors forever.
\<close>

fun follow_cursors ::
  "nat \<Rightarrow> (RunListQuery \<Rightarrow> RunListAnswer) \<Rightarrow> string list \<Rightarrow> RunSummary list \<Rightarrow> string option \<Rightarrow> RunSummary list option" where
  "follow_cursors 0 view seen items cursor = None"
| "follow_cursors (Suc fuel) view seen items cursor =
     (case cursor of
        None \<Rightarrow> Some items
      | Some c \<Rightarrow>
          if c = [] \<or> c \<in> set seen then Some items
          else case view (no_query\<lparr>q_cursor := Some c\<rparr>) of
            RunArray xs \<Rightarrow> follow_cursors fuel view (c # seen) (items @ xs) None
          | RunPaged p \<Rightarrow> follow_cursors fuel view (c # seen) (items @ page_items p) (page_nextCursor p))"

definition listRunsArray :: "nat \<Rightarrow> (RunListQuery \<Rightarrow> RunListAnswer) \<Rightarrow> RunSummary list option" where
  "listRunsArray fuel view =
     (case view no_query of
        RunArray xs \<Rightarrow> Some xs
      | RunPaged p \<Rightarrow> follow_cursors fuel view [] (page_items p) (page_nextCursor p))"

text \<open>The \<open>listRuns\<close> and \<open>listRunsPaged\<close> that \<open>asReaderJournal\<close> adds to a journal whose own \<open>listRuns\<close> is \<open>view\<close>.\<close>

definition reader_listRunsPaged :: "(RunListQuery \<Rightarrow> RunListAnswer) \<Rightarrow> RunListQuery \<Rightarrow> RunPage" where
  "reader_listRunsPaged view q =
     (case view q of RunArray xs \<Rightarrow> pageFromArray xs q | RunPaged p \<Rightarrow> p)"

section \<open>InMemoryJournal\<close>

record InMemoryJournal =
  store :: "js js_map"
  times :: "int js_map"
  counters :: "(int js_map) js_map"

definition empty_journal :: InMemoryJournal where
  "empty_journal = \<lparr>store = [], times = [], counters = []\<rparr>"

definition mem_get :: "key \<Rightarrow> InMemoryJournal \<Rightarrow> js" where
  "mem_get key j = (case map_of (store j) key of None \<Rightarrow> JUndef | Some v \<Rightarrow> v)"

definition touch :: "key \<Rightarrow> int \<Rightarrow> int js_map \<Rightarrow> int js_map" where
  "touch key t m = (if js_has m key then m else js_set key t m)"

definition mem_put :: "int \<Rightarrow> key \<Rightarrow> js \<Rightarrow> InMemoryJournal \<Rightarrow> InMemoryJournal" where
  "mem_put t key value j = j\<lparr>times := touch key t (times j), store := js_set key value (store j)\<rparr>"

definition mem_putIfAbsent :: "int \<Rightarrow> key \<Rightarrow> js \<Rightarrow> InMemoryJournal \<Rightarrow> bool \<times> InMemoryJournal" where
  "mem_putIfAbsent t key value j =
     (if js_has (store j) key then (False, j)
      else (True, j\<lparr>times := js_set key t (times j), store := js_set key value (store j)\<rparr>))"

definition mem_putIfMatch :: "key \<Rightarrow> js \<Rightarrow> js \<Rightarrow> InMemoryJournal \<Rightarrow> bool \<times> InMemoryJournal" where
  "mem_putIfMatch key expected value j =
     (if \<not> js_has (store j) key then (False, j)
      else if stableStringify (mem_get key j) \<noteq> stableStringify expected then (False, j)
      else (True, j\<lparr>store := js_set key value (store j)\<rparr>))"

text \<open>\<open>for (const [f, d] of Object.entries(fields)) cur[f] = (cur[f] ?? 0) + d\<close>\<close>

definition add_field :: "int js_map \<Rightarrow> string \<times> int \<Rightarrow> int js_map" where
  "add_field cur fd = js_set (fst fd) ((case map_of cur (fst fd) of None \<Rightarrow> 0 | Some n \<Rightarrow> n) + snd fd) cur"

definition mem_incrBy :: "key \<Rightarrow> (string \<times> int) list \<Rightarrow> InMemoryJournal \<Rightarrow> InMemoryJournal" where
  "mem_incrBy key flds j =
     (let cur = (case map_of (counters j) key of None \<Rightarrow> [] | Some c \<Rightarrow> c)
      in j\<lparr>counters := js_set key (foldl add_field cur flds) (counters j)\<rparr>)"

definition mem_getCounters :: "key \<Rightarrow> InMemoryJournal \<Rightarrow> (int js_map) option" where
  "mem_getCounters key j = map_of (counters j) key"

record JournalBatch =
  batch_claim :: "(key \<times> js) option"
  batch_incrs :: "(key \<times> (string \<times> int) list) list"
  batch_puts :: "(key \<times> js) list"

definition mem_applyBatch :: "int \<Rightarrow> JournalBatch \<Rightarrow> InMemoryJournal \<Rightarrow> bool \<times> InMemoryJournal" where
  "mem_applyBatch t b j =
     (let rest = (\<lambda>j1. (True,
            foldl (\<lambda>j' kv. mem_put t (fst kv) (snd kv) j')
              (foldl (\<lambda>j' kf. mem_incrBy (fst kf) (snd kf) j') j1 (batch_incrs b)) (batch_puts b)))
      in case batch_claim b of
           None \<Rightarrow> rest j
         | Some (k, v) \<Rightarrow>
             if js_has (store j) k then (False, j)
             else rest (j\<lparr>times := js_set k t (times j), store := js_set k v (store j)\<rparr>))"

definition mem_getMany :: "key list \<Rightarrow> InMemoryJournal \<Rightarrow> js list" where
  "mem_getMany ks j = map (\<lambda>k. mem_get k j) ks"

definition mem_keys :: "InMemoryJournal \<Rightarrow> key list" where
  "mem_keys j = js_keys (store j) @ filter (\<lambda>k. \<not> js_has (store j) k) (js_keys (counters j))"

text \<open>The two nested loops of \<open>listKeys\<close> with a limit; the early return leaves both.\<close>

fun list_keys_loop :: "nat \<Rightarrow> string \<Rightarrow> key list \<Rightarrow> key list \<Rightarrow> key list" where
  "list_keys_loop limit pre out [] = out"
| "list_keys_loop limit pre out (k # ks) =
     (if limit \<le> length out then out
      else list_keys_loop limit pre (if prefix pre k \<and> k \<notin> set out then out @ [k] else out) ks)"

definition mem_listKeys :: "string \<Rightarrow> nat option \<Rightarrow> InMemoryJournal \<Rightarrow> key list" where
  "mem_listKeys pre limit j =
     (case limit of
        None \<Rightarrow> filter (prefix pre) (mem_keys j)
      | Some n \<Rightarrow> list_keys_loop n pre [] (js_keys (store j) @ js_keys (counters j)))"

definition mem_deletePrefix :: "string \<Rightarrow> InMemoryJournal \<Rightarrow> nat \<times> InMemoryJournal" where
  "mem_deletePrefix pre j =
     (length (filter (prefix pre) (js_keys (store j))) + length (filter (prefix pre) (js_keys (counters j))),
      j\<lparr>store := filter (\<lambda>p. \<not> prefix pre (fst p)) (store j),
        times := filter (\<lambda>p. \<not> (prefix pre (fst p) \<and> js_has (store j) (fst p))) (times j),
        counters := filter (\<lambda>p. \<not> prefix pre (fst p)) (counters j)\<rparr>)"

text \<open>\<open>if (m.has(k)) { m.set(to, m.get(k)); m.delete(k) }\<close>\<close>

definition move_key :: "key \<Rightarrow> key \<Rightarrow> 'v js_map \<Rightarrow> 'v js_map" where
  "move_key k dest m = (case map_of m k of None \<Rightarrow> m | Some v \<Rightarrow> js_delete k (js_set dest v m))"

definition rekey_step :: "(key \<Rightarrow> key option) \<Rightarrow> nat \<times> InMemoryJournal \<Rightarrow> key \<Rightarrow> nat \<times> InMemoryJournal" where
  "rekey_step rename nj k =
     (case rename k of
        None \<Rightarrow> nj
      | Some dest \<Rightarrow>
          if dest = k then nj
          else (Suc (fst nj),
                (snd nj)\<lparr>store := move_key k dest (store (snd nj)),
                  counters := move_key k dest (counters (snd nj)),
                  times := move_key k dest (times (snd nj))\<rparr>))"

definition mem_rekey :: "(key \<Rightarrow> key option) \<Rightarrow> InMemoryJournal \<Rightarrow> nat \<times> InMemoryJournal" where
  "mem_rekey rename j = foldl (rekey_step rename) (0, j) (mem_keys j)"

definition run_entry :: "string \<Rightarrow> key \<times> js \<Rightarrow> bool" where
  "run_entry runId kv = (case parseJournalKey (fst kv) of Some (r, _) \<Rightarrow> r = runId | None \<Rightarrow> False)"

definition kind_of_key :: "key \<Rightarrow> JournalEntryKind" where
  "kind_of_key k = (case parseJournalKey k of Some (_, kd) \<Rightarrow> kd | None \<Rightarrow> Tool)"

definition mem_readRun :: "string \<Rightarrow> InMemoryJournal \<Rightarrow> JournalEntry list" where
  "mem_readRun runId j =
     map (\<lambda>(i, kv). \<lparr>entry_key = fst kv, entry_runId = runId, entry_kind = kind_of_key (fst kv),
                       entry_value = snd kv, entry_seq = i, entry_ts = map_of (times j) (fst kv)\<rparr>)
       (enumerate 0 (filter (run_entry runId) (store j)))"

text \<open>\<open>stableStringify(value).length\<close> throws for a stored \<open>undefined\<close>: \<^const>\<open>None\<close>.\<close>

fun stats_loop :: "nat \<times> nat \<Rightarrow> (key \<times> js) list \<Rightarrow> (nat \<times> nat) option" where
  "stats_loop (n, b) [] = Some (n, b)"
| "stats_loop (n, b) ((k, v) # r) =
     (case stableStringify v of None \<Rightarrow> None | Some s \<Rightarrow> stats_loop (Suc n, b + length s) r)"

definition mem_readRunStats :: "string \<Rightarrow> InMemoryJournal \<Rightarrow> (nat \<times> nat) option" where
  "mem_readRunStats runId j = stats_loop (0, 0) (filter (run_entry runId) (store j))"

text \<open>One iteration of the loop of \<open>listRuns\<close> over \<open>(byRun, seq)\<close>.\<close>

definition open_run :: "string \<Rightarrow> (JournalEntry list) js_map \<Rightarrow> (JournalEntry list) js_map" where
  "open_run r m = (if js_has m r then m else js_set r [] m)"

definition listRuns_step ::
  "(JournalEntry list) js_map \<times> nat \<Rightarrow> key \<times> js \<Rightarrow> (JournalEntry list) js_map \<times> nat" where
  "listRuns_step acc kv =
     (case acc of (byRun, sq) \<Rightarrow>
      case parseJournalKey (fst kv) of
        None \<Rightarrow>
          (let m1 = (case runIdOfKey (fst kv) (snd kv) of
                       Some owner \<Rightarrow> if owner = [] then byRun else open_run owner byRun
                     | None \<Rightarrow> byRun);
               m2 = (case outcomeStatusOf (fst kv) (snd kv) of
                       Some _ \<Rightarrow> open_run (take (length (fst kv) - 8) (fst kv)) m1
                     | None \<Rightarrow> m1)
           in (m2, sq))
      | Some (r, kd) \<Rightarrow>
          (js_set r ((case map_of byRun r of None \<Rightarrow> [] | Some es \<Rightarrow> es) @
             [\<lparr>entry_key = fst kv, entry_runId = r, entry_kind = kd, entry_value = snd kv, entry_seq = sq, entry_ts = None\<rparr>]) byRun,
           Suc sq))"

definition truthy_or_undef :: "js \<Rightarrow> js" where
  "truthy_or_undef v = (if js_truthy v then v else JUndef)"

definition run_summary_of :: "InMemoryJournal \<Rightarrow> string \<times> JournalEntry list \<Rightarrow> RunSummary" where
  "run_summary_of j re =
     (let inp = mem_get (key_input (fst re)) j
      in (summarizeRun (fst re) (snd re) (mem_get (key_outcome (fst re)) j))
           \<lparr>sum_threadId := truthy_or_undef (js_field ''threadId'' inp),
            sum_agent := truthy_or_undef (js_field ''agent'' inp),
            sum_resourceId := truthy_or_undef (js_field ''resourceId'' inp),
            sum_workKey := truthy_or_undef (js_field ''workKey'' inp)\<rparr>)"

definition mem_listRuns :: "InMemoryJournal \<Rightarrow> RunSummary list" where
  "mem_listRuns j = map (run_summary_of j) (fst (foldl listRuns_step ([], 0) (store j)))"

definition mem_listRunsPaged :: "RunListQuery \<Rightarrow> InMemoryJournal \<Rightarrow> RunPage" where
  "mem_listRunsPaged q j =
     (let all = filter (matches_query q) (mem_listRuns j);
          start = cursor_start (q_cursor q);
          limit = (case q_limit q of None \<Rightarrow> 50 | Some n \<Rightarrow> n);
          nxt = start + limit
      in \<lparr>page_items = take limit (drop start all),
          page_nextCursor = (if nxt < length all then Some (show_nat nxt) else None)\<rparr>)"

fun status_text :: "RunStatus \<Rightarrow> string" where
  "status_text Completed = ''completed''"
| "status_text Suspended = ''suspended''"
| "status_text Failed = ''failed''"
| "status_text Running = ''running''"
| "status_text Canceled = ''canceled''"

definition mem_countRunsByStatus :: "InMemoryJournal \<Rightarrow> int js_map" where
  "mem_countRunsByStatus j = foldl (\<lambda>out r. add_field out (status_text (sum_status r), 1)) [] (mem_listRuns j)"

text \<open>\<open>listStaleRuns\<close>: per run the newest write time and whether a tool record is suspended.\<close>

definition stale_step :: "int js_map \<Rightarrow> (int \<times> bool) js_map \<Rightarrow> key \<times> js \<Rightarrow> (int \<times> bool) js_map" where
  "stale_step ts newest kv =
     (case (case parseJournalKey (fst kv) of Some (r, _) \<Rightarrow> Some r | None \<Rightarrow> runIdOfKey (fst kv) (snd kv)) of
        None \<Rightarrow> newest
      | Some owner \<Rightarrow>
          if owner = [] then newest
          else
            (let t = (case map_of ts (fst kv) of None \<Rightarrow> 0 | Some x \<Rightarrow> x);
                 cur = (case map_of newest owner of None \<Rightarrow> (0, False) | Some c \<Rightarrow> c);
                 sus = (case parseJournalKey (fst kv) of Some (_, Tool) \<Rightarrow> tool_suspended (snd kv) | _ \<Rightarrow> False)
             in js_set owner (max (fst cur) t, snd cur \<or> sus) newest))"

definition mem_listStaleRuns :: "int \<Rightarrow> bool \<Rightarrow> InMemoryJournal \<Rightarrow> string list" where
  "mem_listStaleRuns cutoffTs includeSuspended j =
     map fst (filter (\<lambda>(_, t, s). t < cutoffTs \<and> (includeSuspended \<or> \<not> s))
       (foldl (stale_step (times j)) [] (store j)))"

section \<open>Lookup laws\<close>

lemma mem_get_put [simp]: "mem_get k (mem_put t k' v j) = (if k = k' then v else mem_get k j)"
  by (simp add: mem_get_def mem_put_def)

lemma mem_has_put [simp]: "js_has (store (mem_put t k' v j)) k \<longleftrightarrow> k = k' \<or> js_has (store j) k"
  by (auto simp: mem_put_def)

lemma mem_putIfAbsent_cases:
  "mem_putIfAbsent t k v j = (b, j') \<longleftrightarrow>
     (if js_has (store j) k then \<not> b \<and> j' = j
      else b \<and> j' = j\<lparr>times := js_set k t (times j), store := js_set k v (store j)\<rparr>)"
  by (auto simp: mem_putIfAbsent_def)

lemma mem_putIfMatch_cases:
  "mem_putIfMatch k e v j = (b, j') \<longleftrightarrow>
     (if js_has (store j) k \<and> stableStringify (mem_get k j) = stableStringify e
      then b \<and> j' = j\<lparr>store := js_set k v (store j)\<rparr> else \<not> b \<and> j' = j)"
  by (auto simp: mem_putIfMatch_def)

section \<open>The invariant of InMemoryJournal\<close>

definition mem_wf :: "InMemoryJournal \<Rightarrow> bool" where
  "mem_wf j \<longleftrightarrow> js_map_wf (store j) \<and> js_map_wf (times j) \<and> js_map_wf (counters j)
     \<and> dom (map_of (times j)) = dom (map_of (store j))"

lemma mem_wf_empty [simp]: "mem_wf empty_journal"
  by (simp add: mem_wf_def empty_journal_def)

lemma mem_wf_put [simp, intro]: "mem_wf j \<Longrightarrow> mem_wf (mem_put t k v j)"
  by (auto simp: mem_wf_def mem_put_def touch_def)

lemma mem_wf_putIfAbsent [simp, intro]: "mem_wf j \<Longrightarrow> mem_wf (snd (mem_putIfAbsent t k v j))"
  by (auto simp: mem_wf_def mem_putIfAbsent_def)

lemma mem_wf_putIfMatch [simp, intro]: "mem_wf j \<Longrightarrow> mem_wf (snd (mem_putIfMatch k e v j))"
  by (auto simp: mem_wf_def mem_putIfMatch_def)

lemma mem_wf_incrBy [simp, intro]: "mem_wf j \<Longrightarrow> mem_wf (mem_incrBy k f j)"
  by (auto simp: mem_wf_def mem_incrBy_def Let_def)

lemma foldl_invariant: "P a \<Longrightarrow> (\<And>a x. P a \<Longrightarrow> P (f a x)) \<Longrightarrow> P (foldl f a xs)"
  by (induction xs arbitrary: a) auto

lemma mem_wf_applyBatch [simp, intro]:
  assumes "mem_wf j"
  shows "mem_wf (snd (mem_applyBatch t b j))"
proof -
  have rest: "mem_wf (foldl (\<lambda>j' kv. mem_put t (fst kv) (snd kv) j')
      (foldl (\<lambda>j' kf. mem_incrBy (fst kf) (snd kf) j') j1 (batch_incrs b)) (batch_puts b))" if "mem_wf j1" for j1
    using that by (intro foldl_invariant [where P = mem_wf]) auto
  have "mem_wf (j\<lparr>times := js_set k t (times j), store := js_set k v (store j)\<rparr>)" for k v
    using assms by (auto simp: mem_wf_def)
  then show ?thesis
    using assms rest by (auto simp: mem_applyBatch_def Let_def split: option.splits)
qed

lemma mem_wf_deletePrefix [simp, intro]: "mem_wf j \<Longrightarrow> mem_wf (snd (mem_deletePrefix pre j))"
proof -
  assume wf: "mem_wf j"
  have "dom (map_of (filter (\<lambda>p. \<not> (prefix pre (fst p) \<and> js_has (store j) (fst p))) (times j)))
      = dom (map_of (filter (\<lambda>p. \<not> prefix pre (fst p)) (store j)))"
  proof (rule set_eqI)
    fix k
    have "map_of (times j) k = None \<longleftrightarrow> map_of (store j) k = None"
      using wf unfolding mem_wf_def by (metis domIff)
    then show "k \<in> dom (map_of (filter (\<lambda>p. \<not> (prefix pre (fst p) \<and> js_has (store j) (fst p))) (times j)))
        \<longleftrightarrow> k \<in> dom (map_of (filter (\<lambda>p. \<not> prefix pre (fst p)) (store j)))"
      using map_of_filter_key [of "\<lambda>k. \<not> (prefix pre k \<and> js_has (store j) k)" "times j" k]
        map_of_filter_key [of "\<lambda>k. \<not> prefix pre k" "store j" k]
      by (cases "prefix pre k") (simp_all add: domIff)
  qed
  with wf show ?thesis by (auto simp: mem_wf_def mem_deletePrefix_def)
qed

lemma map_of_move_key:
  "map_of (move_key k dest m) = (case map_of m k of None \<Rightarrow> map_of m | Some v \<Rightarrow> ((map_of m)(dest \<mapsto> v))(k := None))"
  by (auto simp: move_key_def split: option.splits)

lemma js_map_wf_move_key [simp, intro]: "js_map_wf m \<Longrightarrow> js_map_wf (move_key k dest m)"
  by (auto simp: move_key_def split: option.splits)

lemma dom_move_key:
  "dom (map_of (move_key k dest m)) = (if k \<in> dom (map_of m) then insert dest (dom (map_of m)) - {k} else dom (map_of m))"
  by (auto simp: map_of_move_key split: option.splits)

lemma mem_wf_rekey [simp, intro]: "mem_wf j \<Longrightarrow> mem_wf (snd (mem_rekey rename j))"
  unfolding mem_rekey_def
  by (rule foldl_invariant [where P = "\<lambda>nj. mem_wf (snd nj)"])
     (auto simp: rekey_step_def mem_wf_def dom_move_key split: option.splits)

section \<open>Listing and deleting keys\<close>

lemma distinct_mem_keys: "mem_wf j \<Longrightarrow> distinct (mem_keys j)"
  by (auto simp: mem_wf_def js_map_wf_def mem_keys_def dom_map_of_conv_image_fst)

text \<open>The loop with a limit collects a prefix of what the loop without one collects.\<close>

definition collect_keys :: "string \<Rightarrow> key list \<Rightarrow> key list \<Rightarrow> key list" where
  "collect_keys pre = foldl (\<lambda>out k. if prefix pre k \<and> k \<notin> set out then out @ [k] else out)"

lemma collect_keys_extends: "\<exists>zs. collect_keys pre out ks = out @ zs"
proof (induction ks arbitrary: out)
  case (Cons k ks)
  then show ?case
    unfolding collect_keys_def by (simp split: if_splits) (metis append.assoc)
qed (simp add: collect_keys_def)

lemma list_keys_loop_take:
  "length out \<le> n \<Longrightarrow> list_keys_loop n pre out ks = take n (collect_keys pre out ks)"
proof (induction ks arbitrary: out)
  case Nil
  then show ?case by (simp add: collect_keys_def)
next
  case (Cons k ks)
  show ?case
  proof (cases "n \<le> length out")
    case True
    with Cons.prems collect_keys_extends [of pre out "k # ks"] show ?thesis by auto
  next
    case False
    then show ?thesis using Cons.IH by (auto simp: collect_keys_def)
  qed
qed

lemma collect_keys_distinct:
  "distinct ks \<Longrightarrow> collect_keys pre out ks = out @ filter (\<lambda>k. prefix pre k \<and> k \<notin> set out) ks"
proof (induction ks arbitrary: out)
  case (Cons k ks)
  have "filter (\<lambda>x. prefix pre x \<and> x \<notin> set (out @ [k])) ks = filter (\<lambda>x. prefix pre x \<and> x \<notin> set out) ks"
    using Cons.prems by (intro filter_cong) auto
  with Cons show ?case by (simp add: collect_keys_def)
qed (simp add: collect_keys_def)

lemma listKeys_limit:
  assumes "mem_wf j"
  shows "mem_listKeys pre (Some n) j = take n (mem_listKeys pre None j)"
proof -
  have d: "distinct (js_keys (store j))" "distinct (js_keys (counters j))"
    using assms by (simp_all add: mem_wf_def js_map_wf_def)
  have "collect_keys pre [] (js_keys (store j) @ js_keys (counters j))
      = collect_keys pre (collect_keys pre [] (js_keys (store j))) (js_keys (counters j))"
    by (simp add: collect_keys_def)
  also have "\<dots> = filter (prefix pre) (js_keys (store j))
      @ filter (\<lambda>k. prefix pre k \<and> k \<notin> set (filter (prefix pre) (js_keys (store j)))) (js_keys (counters j))"
    using d by (simp add: collect_keys_distinct)
  also have "\<dots> = filter (prefix pre) (mem_keys j)"
    by (auto simp: mem_keys_def dom_map_of_conv_image_fst intro!: filter_cong)
  finally show ?thesis by (simp add: mem_listKeys_def list_keys_loop_take)
qed

lemma set_mem_keys: "set (mem_keys j) = dom (map_of (store j)) \<union> dom (map_of (counters j))"
  by (auto simp: mem_keys_def dom_map_of_conv_image_fst)

lemma map_of_deletePrefix:
  "map_of (store (snd (mem_deletePrefix pre j))) k = (if prefix pre k then None else map_of (store j) k)"
  "map_of (counters (snd (mem_deletePrefix pre j))) k = (if prefix pre k then None else map_of (counters j) k)"
  using map_of_filter_key [of "\<lambda>k. \<not> prefix pre k" "store j"] map_of_filter_key [of "\<lambda>k. \<not> prefix pre k" "counters j"]
  by (simp_all add: mem_deletePrefix_def)

section \<open>Reading minted keys\<close>

lemma kind_at_no_colon: "c \<noteq> CHR '':'' \<Longrightarrow> kind_at (c # s) = None"
  by (auto simp: kind_at_def)

lemma last_kind_no_colon: "CHR '':'' \<notin> set s \<Longrightarrow> last_kind s = None"
proof (induction s)
  case (Cons c s)
  then show ?case by (auto simp: kind_at_no_colon)
qed simp

lemma last_kind_append: "last_kind s = Some (h, k) \<Longrightarrow> last_kind (r @ s) = Some (r @ h, k)"
  by (induction r) auto

lemma colon_free_prefix: "CHR '':'' \<notin> set x \<Longrightarrow> \<not> prefix ''tool:'' x \<and> \<not> prefix ''model:'' x"
  by (auto simp: prefix_def)

lemma last_kind_tool: "x \<noteq> [] \<Longrightarrow> CHR '':'' \<notin> set x \<Longrightarrow> last_kind ('':tool:'' @ x) = Some ([], Tool)"
  by (simp add: last_kind_no_colon kind_at_def colon_free_prefix)

lemma last_kind_model: "x \<noteq> [] \<Longrightarrow> CHR '':'' \<notin> set x \<Longrightarrow> last_kind ('':model:'' @ x) = Some ([], Model)"
  by (simp add: last_kind_no_colon kind_at_def colon_free_prefix)

lemma parse_key_tool:
  assumes "x \<noteq> []" and "CHR '':'' \<notin> set x" and "\<not> list_ex is_line_terminator (r @ x)"
  shows "parseJournalKey (r @ '':tool:'' @ x) = Some (r, Tool)"
proof -
  have "\<not> list_ex is_line_terminator (r @ '':tool:'' @ x)"
    using assms(3) by (simp add: is_line_terminator_def)
  then show ?thesis
    using last_kind_append [OF last_kind_tool [OF assms(1,2)], of r] by (simp add: parseJournalKey_def)
qed

lemma parse_key_model:
  assumes "x \<noteq> []" and "CHR '':'' \<notin> set x" and "\<not> list_ex is_line_terminator (r @ x)"
  shows "parseJournalKey (r @ '':model:'' @ x) = Some (r, Model)"
proof -
  have "\<not> list_ex is_line_terminator (r @ '':model:'' @ x)"
    using assms(3) by (simp add: is_line_terminator_def)
  then show ?thesis
    using last_kind_append [OF last_kind_model [OF assms(1,2)], of r] by (simp add: parseJournalKey_def)
qed

text \<open>A key is read as a run record only at an inner segment \<open>model\<close> or \<open>tool\<close>.\<close>

lemma split_colon_nonempty [simp]: "split_colon s \<noteq> []"
  by (induction s) auto

lemma split_colon_append:
  "split_colon (a @ CHR '':'' # b) = split_colon a @ split_colon b"
  by (induction a) (auto simp: hd_append)

lemma split_colon_free: "CHR '':'' \<notin> set a \<Longrightarrow> split_colon a = [a]"
  by (induction a) auto

lemma last_kind_split:
  "last_kind s = Some (h, k) \<Longrightarrow> \<exists>m x. s = h @ CHR '':'' # m @ CHR '':'' # x \<and> m \<in> {''model'', ''tool''} \<and> x \<noteq> []"
proof (induction s arbitrary: h)
  case (Cons c s)
  show ?case
  proof (cases "last_kind s")
    case None
    with Cons.prems have "kind_at (c # s) = Some k" and h: "h = []" by auto
    then consider "prefix '':model:'' (c # s)" "length (c # s) > 7" | "prefix '':tool:'' (c # s)" "length (c # s) > 6"
      by (auto simp: kind_at_def split: if_splits)
    then consider x where "c # s = '':model:'' @ x" "x \<noteq> []" | x where "c # s = '':tool:'' @ x" "x \<noteq> []"
      by cases (auto simp: prefix_def)
    then show ?thesis
    proof cases
      case (1 x)
      then show ?thesis unfolding h by (intro exI [of _ "''model''"] exI [of _ x]) simp
    next
      case (2 x)
      then show ?thesis unfolding h by (intro exI [of _ "''tool''"] exI [of _ x]) simp
    qed
  next
    case (Some hk)
    with Cons obtain h' where "h = c # h'" "last_kind s = Some (h', k)" by (cases hk) auto
    with Cons.IH [of h'] show ?thesis by auto
  qed
qed simp

lemma inner_segments:
  assumes "last_kind (a @ CHR '':'' # t @ CHR '':'' # b) = Some (h, k)" and "CHR '':'' \<notin> set a" and "CHR '':'' \<notin> set b"
  shows "\<exists>m \<in> {''model'', ''tool''}. m \<in> set (split_colon t)"
proof -
  from last_kind_split [OF assms(1)] obtain m x where
    eq: "a @ CHR '':'' # t @ CHR '':'' # b = h @ CHR '':'' # m @ CHR '':'' # x" and m: "m \<in> {''model'', ''tool''}" by blast
  have free: "CHR '':'' \<notin> set m" using m by auto
  have "split_colon (a @ CHR '':'' # t @ CHR '':'' # b) = a # split_colon t @ [b]"
    using assms(2,3) by (simp add: split_colon_append split_colon_free)
  then have "a # split_colon t @ [b] = split_colon h @ m # split_colon x"
    using free by (simp add: eq split_colon_append split_colon_free)
  moreover obtain y ys where "split_colon h = y # ys" by (cases "split_colon h") auto
  moreover obtain zs z where "split_colon x = zs @ [z]" by (metis split_colon_nonempty rev_exhaust)
  ultimately have "split_colon t @ [b] = (ys @ m # zs) @ [z]" by simp
  then have "m \<in> set (split_colon t)" by (simp only: append1_eq_conv) simp
  with m show ?thesis by blast
qed

section \<open>Listing runs\<close>

definition entry_core :: "JournalEntry \<Rightarrow> key \<times> JournalEntryKind \<times> js" where
  "entry_core e = (entry_key e, entry_kind e, entry_value e)"

definition entries_of :: "(JournalEntry list) js_map \<Rightarrow> string \<Rightarrow> JournalEntry list" where
  "entries_of m r = (case map_of m r of None \<Rightarrow> [] | Some es \<Rightarrow> es)"

definition runs_agree :: "(JournalEntry list) js_map \<Rightarrow> (key \<times> js) list \<Rightarrow> bool" where
  "runs_agree m L \<longleftrightarrow> js_map_wf m \<and>
     (\<forall>r. map entry_core (entries_of m r) = map (\<lambda>kv. (fst kv, kind_of_key (fst kv), snd kv)) (filter (run_entry r) L))"

lemma entries_of_open [simp]: "entries_of (open_run r m) r' = entries_of m r'"
  by (auto simp: open_run_def entries_of_def domIff)

lemma entries_of_set [simp]: "entries_of (js_set r es m) r' = (if r = r' then es else entries_of m r')"
  by (simp add: entries_of_def)

lemma open_run_wf [simp]: "js_map_wf m \<Longrightarrow> js_map_wf (open_run r m)"
  by (simp add: open_run_def)

lemma runs_agree_open: "runs_agree m L \<Longrightarrow> runs_agree (open_run r m) L"
  by (simp add: runs_agree_def)

lemma runs_agree_skip: "runs_agree m L \<Longrightarrow> parseJournalKey (fst kv) = None \<Longrightarrow> runs_agree m (L @ [kv])"
  by (simp add: runs_agree_def run_entry_def)

lemma runs_agree_record:
  assumes "runs_agree m L" and p: "parseJournalKey (fst kv) = Some (r, kd)"
    and e: "entry_core e = (fst kv, kd, snd kv)"
  shows "runs_agree (js_set r (entries_of m r @ [e]) m) (L @ [kv])"
proof -
  have re: "run_entry r' kv \<longleftrightarrow> r = r'" for r' by (simp add: run_entry_def p)
  have kd: "kind_of_key (fst kv) = kd" by (simp add: kind_of_key_def p)
  show ?thesis
    using assms(1) by (simp add: runs_agree_def re kd e)
qed

lemma listRuns_step_agrees:
  assumes "runs_agree (fst acc) L"
  shows "runs_agree (fst (listRuns_step acc kv)) (L @ [kv])"
proof (cases "parseJournalKey (fst kv)")
  case None
  with assms show ?thesis
    by (auto simp: listRuns_step_def Let_def runs_agree_skip runs_agree_open split: prod.splits option.splits)
next
  case (Some rk)
  with assms show ?thesis
    by (auto simp: listRuns_step_def entry_core_def entries_of_def [symmetric] intro!: runs_agree_record split: prod.splits)
qed

lemma listRuns_agrees: "runs_agree (fst (foldl listRuns_step ([], 0) L)) L"
proof (induction L rule: rev_induct)
  case Nil
  then show ?case by (simp add: runs_agree_def entries_of_def)
next
  case (snoc kv L)
  then show ?case using listRuns_step_agrees by simp
qed

lemma summarize_fold:
  "foldl summarize_step (m, t, s) es =
     (m + length (filter (\<lambda>e. entry_kind e = Model) es), t + length (filter (\<lambda>e. entry_kind e = Tool) es),
      s \<or> (\<exists>e \<in> set es. entry_kind e = Tool \<and> tool_suspended (entry_value e)))"
  by (induction es arbitrary: m t s) (auto split: JournalEntryKind.splits)

text \<open>The counts and the suspension flag of a run depend only on kinds and values of its entries.\<close>

lemma summary_of_core:
  assumes "map entry_core es = map entry_core es'"
  shows "length (filter (\<lambda>e. entry_kind e = k) es) = length (filter (\<lambda>e. entry_kind e = k) es')"
    and "(\<exists>e \<in> set es. entry_kind e = Tool \<and> tool_suspended (entry_value e))
         \<longleftrightarrow> (\<exists>e \<in> set es'. entry_kind e = Tool \<and> tool_suspended (entry_value e))"
proof -
  have "length (filter (\<lambda>e. entry_kind e = k) xs) = length (filter (\<lambda>c. fst (snd c) = k) (map entry_core xs))" for xs
    by (induction xs) (auto simp: entry_core_def)
  then show "length (filter (\<lambda>e. entry_kind e = k) es) = length (filter (\<lambda>e. entry_kind e = k) es')"
    using assms by metis
  have "(\<exists>e \<in> set xs. entry_kind e = Tool \<and> tool_suspended (entry_value e))
      \<longleftrightarrow> (\<exists>c \<in> set (map entry_core xs). fst (snd c) = Tool \<and> tool_suspended (snd (snd c)))" for xs
    by (auto simp: entry_core_def)
  then show "(\<exists>e \<in> set es. entry_kind e = Tool \<and> tool_suspended (entry_value e))
      \<longleftrightarrow> (\<exists>e \<in> set es'. entry_kind e = Tool \<and> tool_suspended (entry_value e))"
    using assms by metis
qed

lemma readRun_core:
  "map entry_core (mem_readRun r j) = map (\<lambda>kv. (fst kv, kind_of_key (fst kv), snd kv)) (filter (run_entry r) (store j))"
proof -
  have "map entry_core (mem_readRun r j)
      = map (\<lambda>x. (fst (snd x), kind_of_key (fst (snd x)), snd (snd x))) (enumerate 0 (filter (run_entry r) (store j)))"
    by (simp add: mem_readRun_def entry_core_def comp_def case_prod_unfold)
  also have "\<dots> = map (\<lambda>kv. (fst kv, kind_of_key (fst kv), snd kv)) (map snd (enumerate 0 (filter (run_entry r) (store j))))"
    by (simp only: map_map comp_def)
  finally show ?thesis by (simp only: map_snd_enumerate)
qed

lemma listRuns_entries:
  assumes "(r, es) \<in> set (fst (foldl listRuns_step ([], 0) (store j)))"
  shows "map entry_core es = map entry_core (mem_readRun r j)"
proof -
  let ?m = "fst (foldl listRuns_step ([], 0) (store j))"
  have "distinct (js_keys ?m)" using listRuns_agrees [of "store j"] by (simp add: runs_agree_def js_map_wf_def)
  then have "map_of ?m r = Some es" using assms by simp
  then have "entries_of ?m r = es" by (simp add: entries_of_def)
  then show ?thesis
    using listRuns_agrees [of "store j"] unfolding runs_agree_def readRun_core by metis
qed

section \<open>Following pages\<close>

lemma cursor_start_show [simp]: "cursor_start (Some (show_nat n)) = n"
  using show_nat_digits [of n] by (simp add: cursor_start_def list_all_iff)

lemma pageFromArray_cursor:
  "pageFromArray all (no_query\<lparr>q_cursor := Some (show_nat p)\<rparr>)
     = \<lparr>page_items = take 50 (drop p all), page_nextCursor = (if p + 50 < length all then Some (show_nat (p + 50)) else None)\<rparr>"
  by (simp add: pageFromArray_def no_query_def matches_query_def Let_def)

lemma follow_cursors_complete:
  assumes "length all - p + 2 \<le> fuel" and "\<And>q. show_nat q \<in> set seen \<Longrightarrow> q < p"
  shows "follow_cursors fuel (\<lambda>q. RunPaged (pageFromArray all q)) seen (take p all)
           (if p < length all then Some (show_nat p) else None) = Some all"
  using assms
proof (induction fuel arbitrary: p seen)
  case (Suc fuel)
  show ?case
  proof (cases "p < length all")
    case True
    have fresh: "show_nat p \<notin> set seen" using Suc.prems(2) by blast
    have "follow_cursors fuel (\<lambda>q. RunPaged (pageFromArray all q)) (show_nat p # seen) (take (p + 50) all)
           (if p + 50 < length all then Some (show_nat (p + 50)) else None) = Some all"
      using Suc.prems True by (intro Suc.IH) (fastforce dest: Suc.prems(2))+
    then show ?thesis using True fresh by (simp add: pageFromArray_cursor take_add)
  next
    case False
    then show ?thesis by simp
  qed
qed simp

lemma listRunsArray_pages:
  assumes "length all + 2 \<le> fuel"
  shows "listRunsArray fuel (\<lambda>q. RunPaged (pageFromArray all q)) = Some all"
proof -
  have "pageFromArray all no_query
      = \<lparr>page_items = take 50 all, page_nextCursor = (if 50 < length all then Some (show_nat 50) else None)\<rparr>"
    by (simp add: pageFromArray_def no_query_def matches_query_def cursor_start_def Let_def)
  then show ?thesis
    using follow_cursors_complete [of all 50 fuel "[]"] assms by (simp add: listRunsArray_def)
qed

lemma listRunsPaged_pageFromArray: "mem_listRunsPaged q j = pageFromArray (mem_listRuns j) q"
  by (simp add: mem_listRunsPaged_def pageFromArray_def)

lemma listRuns_lists_run:
  assumes "mem_readRun r j \<noteq> []"
  shows "r \<in> sum_runId ` set (mem_listRuns j)"
proof -
  let ?m = "fst (foldl listRuns_step ([], 0) (store j))"
  have "map entry_core (entries_of ?m r) = map entry_core (mem_readRun r j)"
    using listRuns_agrees [of "store j"] by (simp add: runs_agree_def readRun_core)
  with assms have "entries_of ?m r \<noteq> []" by (metis map_is_Nil_conv)
  then have "map_of ?m r \<noteq> None" by (auto simp: entries_of_def split: option.splits)
  then obtain es where "(r, es) \<in> set ?m" by (auto dest: map_of_SomeD)
  then have "run_summary_of j (r, es) \<in> set (mem_listRuns j)" by (simp add: mem_listRuns_def)
  moreover have "sum_runId (run_summary_of j (r, es)) = r"
    by (simp add: run_summary_of_def Let_def summarizeRun_def summarize_fold)
  ultimately show ?thesis by force
qed

lemma listRuns_ids: "map sum_runId (mem_listRuns j) = js_keys (fst (foldl listRuns_step ([], 0) (store j)))"
  by (simp add: mem_listRuns_def comp_def run_summary_of_def Let_def summarizeRun_def summarize_fold)

section \<open>Properties\<close>

text \<open>
  C15: every operation of \<open>InMemoryJournal\<close> that writes keeps its three maps well formed: no key occurs
  twice, and exactly the stored keys have a first-write time (\<open>put\<close>, \<open>putIfAbsent\<close>, \<open>putIfMatch\<close>, \<open>incrBy\<close>,
  \<open>applyBatch\<close>, \<open>deletePrefix\<close> and \<open>rekey\<close> with any renaming).
\<close>

theorem in_memory_journal_invariant:
  assumes "mem_wf j"
  shows "mem_wf (mem_put t k v j) \<and> mem_wf (snd (mem_putIfAbsent t k v j)) \<and> mem_wf (snd (mem_putIfMatch k e v j))
    \<and> mem_wf (mem_incrBy k f j) \<and> mem_wf (snd (mem_applyBatch t b j)) \<and> mem_wf (snd (mem_deletePrefix pre j))
    \<and> mem_wf (snd (mem_rekey rename j))"
  using assms by blast

theorem in_memory_journal_invariant_witness:
  "mem_wf (snd (mem_rekey (\<lambda>k. Some (''x'' @ k)) (mem_put 7 ''a'' JNull empty_journal)))"
  using in_memory_journal_invariant [of "mem_put 7 ''a'' JNull empty_journal" 0 "[]" JNull JNull "[]"
      "\<lparr>batch_claim = None, batch_incrs = [], batch_puts = []\<rparr>" "[]" "\<lambda>k. Some (''x'' @ k)"]
    mem_wf_put [OF mem_wf_empty] by blast

text \<open>
  \<open>listRuns\<close> and \<open>readRun\<close> tell the same story. Every run appears once; its counts of model steps
  and tool calls are those of the entries \<open>readRun\<close> returns, its status is derived from the
  suspended tool records among them and from the stored outcome, and every run that has an entry is
  listed.
\<close>

theorem list_runs_agrees_with_read_run:
  "distinct (map sum_runId (mem_listRuns j))
   \<and> (\<forall>s \<in> set (mem_listRuns j).
        let es = mem_readRun (sum_runId s) j in
        sum_modelSteps s = length (filter (\<lambda>e. entry_kind e = Model) es)
        \<and> sum_toolCalls s = length (filter (\<lambda>e. entry_kind e = Tool) es)
        \<and> sum_status s = deriveRunStatus (\<exists>e \<in> set es. entry_kind e = Tool \<and> tool_suspended (entry_value e))
             (mem_get (key_outcome (sum_runId s)) j))
   \<and> (mem_readRun r j \<noteq> [] \<longrightarrow> r \<in> sum_runId ` set (mem_listRuns j))"
proof (intro conjI ballI impI)
  show "distinct (map sum_runId (mem_listRuns j))"
    unfolding listRuns_ids using listRuns_agrees [of "store j"] by (simp add: runs_agree_def js_map_wf_def)
next
  fix s assume "s \<in> set (mem_listRuns j)"
  then obtain r es where s: "s = run_summary_of j (r, es)" and m: "(r, es) \<in> set (fst (foldl listRuns_step ([], 0) (store j)))"
    by (auto simp: mem_listRuns_def)
  note core = summary_of_core [OF listRuns_entries [OF m]]
  have id: "sum_runId s = r"
    by (simp add: s run_summary_of_def Let_def summarizeRun_def summarize_fold)
  show "let es = mem_readRun (sum_runId s) j in
        sum_modelSteps s = length (filter (\<lambda>e. entry_kind e = Model) es)
        \<and> sum_toolCalls s = length (filter (\<lambda>e. entry_kind e = Tool) es)
        \<and> sum_status s = deriveRunStatus (\<exists>e \<in> set es. entry_kind e = Tool \<and> tool_suspended (entry_value e))
             (mem_get (key_outcome (sum_runId s)) j)"
    unfolding id Let_def core(1) [symmetric] core(2) [symmetric]
    by (simp add: s run_summary_of_def Let_def summarizeRun_def summarize_fold)
qed (rule listRuns_lists_run)

theorem list_runs_agrees_with_read_run_witness:
  "''r'' \<in> sum_runId ` set (mem_listRuns (mem_put 1 ''r:model:0'' JNull empty_journal))"
proof -
  have "parseJournalKey ''r:model:0'' = Some (''r'', Model)"
    using parse_key_model [of "''0''" "''r''"] by (simp add: is_line_terminator_def)
  then have "mem_readRun ''r'' (mem_put 1 ''r:model:0'' JNull empty_journal) \<noteq> []"
    by (simp add: mem_readRun_def mem_put_def empty_journal_def run_entry_def)
  then show ?thesis
    using list_runs_agrees_with_read_run [of "mem_put 1 ''r:model:0'' JNull empty_journal" "''r''"] by blast
qed

text \<open>
  Following the cursors of \<open>listRunsPaged\<close> from the first page returns every run once, in the order
  of \<open>listRuns\<close>, and the loop ends: fuel of the number of runs plus two is enough.
\<close>

theorem paging_returns_every_run:
  "listRunsArray (length (mem_listRuns j) + 2 + n) (\<lambda>q. RunPaged (mem_listRunsPaged q j)) = Some (mem_listRuns j)"
  unfolding listRunsPaged_pageFromArray by (rule listRunsArray_pages) simp

text \<open>
  \<open>listKeys\<close> with a limit returns the first keys of the unlimited listing, which holds exactly the
  stored keys and counter keys with the prefix, each once; \<open>deletePrefix\<close> removes exactly those, leaves
  every other key as it was, and reports how many entries it removed.
\<close>

theorem list_keys_delete_prefix:
  assumes "mem_wf j"
  shows "mem_listKeys pre (Some n) j = take n (mem_listKeys pre None j)
    \<and> distinct (mem_listKeys pre None j)
    \<and> set (mem_listKeys pre None j) = {k. prefix pre k \<and> (js_has (store j) k \<or> js_has (counters j) k)}
    \<and> mem_listKeys pre None (snd (mem_deletePrefix pre j)) = []
    \<and> (\<not> prefix pre k \<longrightarrow> mem_get k (snd (mem_deletePrefix pre j)) = mem_get k j
          \<and> mem_getCounters k (snd (mem_deletePrefix pre j)) = mem_getCounters k j)"
proof (intro conjI impI)
  show "mem_listKeys pre (Some n) j = take n (mem_listKeys pre None j)"
    using assms by (rule listKeys_limit)
  show "distinct (mem_listKeys pre None j)"
    using distinct_mem_keys [OF assms] by (simp add: mem_listKeys_def)
  show "set (mem_listKeys pre None j) = {k. prefix pre k \<and> (js_has (store j) k \<or> js_has (counters j) k)}"
    by (auto simp: mem_listKeys_def set_mem_keys)
  have "k \<notin> set (mem_keys (snd (mem_deletePrefix pre j)))" if "prefix pre k" for k
    using that by (simp add: set_mem_keys domIff map_of_deletePrefix)
  then show "mem_listKeys pre None (snd (mem_deletePrefix pre j)) = []"
    by (auto simp: mem_listKeys_def filter_empty_conv)
qed (simp_all add: mem_get_def mem_getCounters_def map_of_deletePrefix)

theorem list_keys_delete_prefix_witness:
  "mem_listKeys ''a'' (Some 1) (mem_put 1 ''ab'' JNull (mem_put 0 ''a'' JNull empty_journal)) = [''a'']"
proof -
  let ?j = "mem_put 1 ''ab'' JNull (mem_put 0 ''a'' JNull empty_journal)"
  have "mem_listKeys ''a'' None ?j = [''a'', ''ab'']"
    by (simp add: mem_listKeys_def mem_keys_def mem_put_def empty_journal_def)
  with list_keys_delete_prefix [of ?j "''a''" 1 "[]"] show ?thesis by simp
qed

text \<open>
  The key schema separates run records from the rest. The keys minted for a run's model steps and
  tool calls (by call id or by arguments) parse back to that run and kind; and a thread-window key,
  whose thread id has passed \<open>assertThreadId\<close>, is never read as a record of some run. Step, call id and
  hash are free of colons; no line terminator occurs in the parts.
\<close>

theorem key_schema_separates_runs:
  assumes "x \<noteq> []" and "CHR '':'' \<notin> set x" and "CHR '':'' \<notin> set h"
    and "\<not> list_ex is_line_terminator (r @ x @ name @ h)"
  shows "parseJournalKey (key_model r x) = Some (r, Model) \<and> parseJournalKey (key_tool r x) = Some (r, Tool)
    \<and> (key_toolByArgs r name h = Inr k1 \<longrightarrow> parseJournalKey k1 = Some (r, Tool))
    \<and> (key_toolThread thr name h = Inr k2 \<longrightarrow> parseJournalKey k2 = None)"
proof (intro conjI impI)
  show "parseJournalKey (key_model r x) = Some (r, Model)"
    unfolding key_model_def using assms by (intro parse_key_model) auto
  show "parseJournalKey (key_tool r x) = Some (r, Tool)"
    unfolding key_tool_def using assms by (intro parse_key_tool) auto
next
  assume "key_toolByArgs r name h = Inr k1"
  then have "k1 = r @ '':tool:'' @ (''args-'' @ name @ ''-'' @ h)" and "CHR '':'' \<notin> set name"
    by (auto simp: key_toolByArgs_def assertNoColonInToolName_def split: if_splits)
  then show "parseJournalKey k1 = Some (r, Tool)"
    using parse_key_tool [of "''args-'' @ name @ ''-'' @ h" r] assms by (simp add: is_line_terminator_def)
next
  assume "key_toolThread thr name h = Inr k2"
  then have k2: "k2 = ''xthr'' @ CHR '':'' # thr @ CHR '':'' # (''args-'' @ name @ ''-'' @ h)"
    and name: "CHR '':'' \<notin> set name" and thr: "\<not> list_ex (\<lambda>s. s = ''model'' \<or> s = ''tool'') (split_colon thr)"
    by (auto simp: key_toolThread_def assertThreadId_def assertNoColonInToolName_def split: if_splits option.splits)
  have "last_kind k2 = None"
  proof (cases "last_kind k2")
    case (Some hk)
    then show ?thesis
      using inner_segments [of "''xthr''" thr "''args-'' @ name @ ''-'' @ h" "fst hk" "snd hk"] name assms(3) thr
      unfolding k2 by (auto simp: list_ex_iff)
  qed
  then show "parseJournalKey k2 = None" by (simp add: parseJournalKey_def)
qed

theorem key_schema_separates_runs_witness:
  "parseJournalKey (key_tool ''agent:tool:x'' ''c1'') = Some (''agent:tool:x'', Tool)"
  using key_schema_separates_runs [of "''c1''" "''00''" "''agent:tool:x''" "''mail''"]
  by (simp add: is_line_terminator_def)

end
