(* ===== verification/Format.thy ===== *)
theory Format
  imports Journal
begin

text \<open>
  Record format versions (\<open>packages/durable/src/format.ts\<close>): the stamp, the registry of upgraders with
  the built-in step from version 1 to 2, and the upgrade loop. An object record is the list of its
  properties; a version is an integer. The loop runs on fuel because a registered upgrader may
  return any version; \<^const>\<open>None\<close> is fuel exhausted.
\<close>

section \<open>Definitions\<close>

type_synonym js_record = "(string \<times> js) list"

definition JOURNAL_FORMAT_VERSION :: int where
  "JOURNAL_FORMAT_VERSION = 2"

definition format_error :: err where
  "format_error = Err ''JournalFormatError'' ''format version''"

type_synonym upgraders = "int \<Rightarrow> (js_record \<Rightarrow> js_record) option"

text \<open>\<open>registerFormatUpgrade\<close> returns the new registry and the disposer, a function on registries.\<close>

definition registerFormatUpgrade ::
  "int \<Rightarrow> (js_record \<Rightarrow> js_record) \<Rightarrow> upgraders \<Rightarrow> upgraders \<times> (upgraders \<Rightarrow> upgraders)" where
  "registerFormatUpgrade from up reg = (reg(from := Some up), \<lambda>later. later(from := reg from))"

definition record_field :: "string \<Rightarrow> js_record \<Rightarrow> js" where
  "record_field f kvs = (case map_of kvs f of None \<Rightarrow> JUndef | Some v \<Rightarrow> v)"

definition nullish_to_undef :: "js \<Rightarrow> js" where
  "nullish_to_undef v = (if v = JNull then JUndef else v)"

fun typeof_object :: "js \<Rightarrow> bool" where
  "typeof_object JNull = True"
| "typeof_object (JArr xs) = True"
| "typeof_object (JObj kvs) = True"
| "typeof_object v = False"

definition v1_usage :: "js \<Rightarrow> js" where
  "v1_usage u = JObj
     [(''inputTokens'', JObj [(''total'', nullish_to_undef (js_field ''inputTokens'' u)), (''noCache'', JUndef),
                              (''cacheRead'', nullish_to_undef (js_field ''cachedInputTokens'' u)), (''cacheWrite'', JUndef)]),
      (''outputTokens'', JObj [(''total'', nullish_to_undef (js_field ''outputTokens'' u)), (''text'', JUndef), (''reasoning'', JUndef)])]"

text \<open>The assignments of the built-in upgrader before the one of \<open>parts\<close>.\<close>

definition v1_head :: "js_record \<Rightarrow> js_record" where
  "v1_head rec =
     (let out = js_set ''_v'' (JNum 2) rec;
          u = record_field ''usage'' rec;
          out1 = (if js_truthy u \<and> \<not> typeof_object (js_field ''inputTokens'' u) then js_set ''usage'' (v1_usage u) out else out)
      in case record_field ''finishReason'' rec of
           JStr s \<Rightarrow> js_set ''finishReason'' (JObj [(''unified'', JStr s), (''raw'', JStr s)]) out1
         | _ \<Rightarrow> out1)"

text \<open>
  The built-in upgrader. A part of type \<open>finish\<close> is upgraded from version 1 to 2 by the same step and
  loses its stamp, which is what the nested \<open>upgradeFormat({...part, _v: 1}, undefined, 2)\<close> does while
  the built-in step is the one registered.
\<close>

definition unversioned_size :: "js_record \<Rightarrow> nat" where
  "unversioned_size rec = sum_list (map (\<lambda>p. size (snd p)) (filter (\<lambda>p. fst p \<noteq> ''_v'') rec))"

lemma unversioned_size_set [simp]: "unversioned_size (js_set ''_v'' v rec) = unversioned_size rec"
  by (induction "''_v''" v rec rule: js_set.induct) (auto simp: unversioned_size_def)

lemma unversioned_size_le: "unversioned_size rec \<le> size_list (size_prod (\<lambda>x. 0) size) rec"
  by (induction rec) (auto simp: unversioned_size_def)

lemma js_size_elem: "x \<in> set xs \<Longrightarrow> size x < size (JArr xs)"
  by (induction xs) auto

lemma record_field_size:
  assumes "record_field f rec = v" and "f \<noteq> ''_v''" and "v \<noteq> JUndef"
  shows "size v \<le> unversioned_size rec"
proof -
  from assms have "(f, v) \<in> set rec" by (auto simp: record_field_def map_of_SomeD split: option.splits)
  then show ?thesis using assms(2) by (induction rec) (auto simp: unversioned_size_def)
qed

function upgrade_v1 :: "js_record \<Rightarrow> js_record" where
  "upgrade_v1 rec =
     (case record_field ''parts'' rec of
        JArr parts \<Rightarrow>
          js_set ''parts''
            (JArr (map (\<lambda>part. case part of
                JObj kvs \<Rightarrow>
                  if record_field ''type'' kvs = JStr ''finish''
                  then JObj (js_delete ''_v'' (upgrade_v1 (js_set ''_v'' (JNum 1) kvs)))
                  else part
              | _ \<Rightarrow> part) parts))
            (v1_head rec)
      | _ \<Rightarrow> v1_head rec)"
  by pat_completeness auto
termination
proof (relation "measure unversioned_size", simp)
  fix rec parts part kvs
  assume parts: "record_field ''parts'' rec = JArr parts" and part: "part \<in> set parts" "part = JObj kvs"
  have "unversioned_size kvs < size (JObj kvs)"
    using unversioned_size_le [of kvs] by simp
  also have "\<dots> < size (JArr parts)" using js_size_elem part by blast
  also have "\<dots> \<le> unversioned_size rec" using record_field_size [OF parts] by simp
  finally show "(js_set ''_v'' (JNum 1) kvs, rec) \<in> measure unversioned_size" by simp
qed

declare upgrade_v1.simps [simp del]

definition builtin_upgraders :: upgraders where
  "builtin_upgraders = fst (registerFormatUpgrade 1 upgrade_v1 (\<lambda>_. None))"

definition stampFormat :: "js_record \<Rightarrow> js_record" where
  "stampFormat value = js_set ''_v'' (JNum JOURNAL_FORMAT_VERSION) value"

text \<open>\<open>/:model:\d+$/\<close> and \<open>/:tool:[^:]*$/\<close> read from the end of the key.\<close>

definition tail_while :: "(char \<Rightarrow> bool) \<Rightarrow> string \<Rightarrow> string" where
  "tail_while P s = rev (takeWhile P (rev s))"

definition isVersionedKey :: "key \<Rightarrow> bool" where
  "isVersionedKey key \<longleftrightarrow>
     suffix '':input'' key
     \<or> (tail_while is_digit_char key \<noteq> [] \<and> suffix ('':model:'' @ tail_while is_digit_char key) key)
     \<or> suffix ('':tool:'' @ tail_while (\<lambda>c. c \<noteq> CHR '':'') key) key"

definition version_of :: "js_record \<Rightarrow> int \<Rightarrow> int" where
  "version_of rec dflt = (case record_field ''_v'' rec of JNum n \<Rightarrow> n | _ \<Rightarrow> dflt)"

fun upgrade_loop :: "nat \<Rightarrow> upgraders \<Rightarrow> int \<Rightarrow> int \<Rightarrow> js_record \<Rightarrow> (err + js_record) option" where
  "upgrade_loop fuel reg target ver rec =
     (if ver < target then
        (case fuel of
           0 \<Rightarrow> None
         | Suc n \<Rightarrow>
             (case reg ver of
                None \<Rightarrow> Some (Inl format_error)
              | Some up \<Rightarrow> upgrade_loop n reg target (version_of (up rec) (ver + 1)) (up rec)))
      else Some (Inr rec))"

definition upgradeFormat :: "nat \<Rightarrow> upgraders \<Rightarrow> js \<Rightarrow> int \<Rightarrow> (err + js) option" where
  "upgradeFormat fuel reg value target =
     (case value of
        JObj rec \<Rightarrow>
          (let ver = version_of rec 1 in
           if ver > target then Some (Inl format_error)
           else map_option (map_sum id (\<lambda>r. JObj (js_delete ''_v'' r))) (upgrade_loop fuel reg target ver rec))
      | _ \<Rightarrow> Some (Inr value))"

text \<open>What the readers of the package call: the built-in registry and the current version; see \<open>upgrade_format_total\<close> for the fuel.\<close>

definition upgrade_current :: "js \<Rightarrow> err + js" where
  "upgrade_current value =
     (case upgradeFormat 1 builtin_upgraders value JOURNAL_FORMAT_VERSION of
        Some r \<Rightarrow> r
      | None \<Rightarrow> Inl (Err ''OutOfFuel'' ''upgradeFormat''))"

section \<open>The built-in registry\<close>

lemma builtin_upgraders_lookup: "builtin_upgraders n = (if n = 1 then Some upgrade_v1 else None)"
  by (simp add: builtin_upgraders_def registerFormatUpgrade_def)

lemma v1_head_version: "record_field ''_v'' (v1_head rec) = JNum 2"
  by (auto simp: v1_head_def record_field_def Let_def split: js.splits)

lemma upgrade_v1_version: "version_of (upgrade_v1 rec) d = 2"
  using v1_head_version [of rec]
  by (subst upgrade_v1.simps) (auto simp: version_of_def record_field_def split: js.splits option.splits)

lemma upgrade_builtin:
  "upgradeFormat (Suc n) builtin_upgraders (JObj rec) 2 =
     Some (let ver = version_of rec 1 in
           if ver = 2 then Inr (JObj (js_delete ''_v'' rec))
           else if ver = 1 then Inr (JObj (js_delete ''_v'' (upgrade_v1 rec)))
           else Inl format_error)"
  by (simp add: upgradeFormat_def Let_def builtin_upgraders_lookup upgrade_v1_version)

lemma js_delete_absent: "map_of m k = None \<Longrightarrow> js_delete k m = m"
  unfolding js_delete_def by (subst filter_True) (auto simp: map_of_eq_None_iff)

lemma js_delete_set: "map_of m k = None \<Longrightarrow> js_delete k (js_set k v m) = m"
  by (induction k v m rule: js_set.induct) (auto simp: js_delete_def js_delete_absent split: if_splits)

section \<open>Properties\<close>

text \<open>
  Reading a record back through the built-in registry always gives an answer, and the answer is
  decided by the version it carries: the current version returns the record without its stamp,
  version 1 (or no version) the upgraded record, and any other version is refused with
  \<open>JournalFormatError\<close>, so a record of a newer format is never read as if it were current. In
  particular what \<open>stampFormat\<close> wrote is read back unchanged.
\<close>

theorem upgrade_format_total:
  assumes "map_of rec ''_v'' = None"
  shows "upgrade_current (JObj (stampFormat rec)) = Inr (JObj rec)
    \<and> upgrade_current (JObj rec) = Inr (JObj (js_delete ''_v'' (upgrade_v1 rec)))
    \<and> (\<forall>n. n \<noteq> 1 \<and> n \<noteq> 2 \<longrightarrow> upgrade_current (JObj (js_set ''_v'' (JNum n) rec)) = Inl format_error)
    \<and> js_field ''_v'' (JObj (js_delete ''_v'' (upgrade_v1 rec))) = JUndef"
proof -
  have v: "version_of (js_set ''_v'' (JNum n) rec) 1 = n" for n
    by (simp add: version_of_def record_field_def)
  have "version_of rec 1 = 1" using assms by (simp add: version_of_def record_field_def)
  then show ?thesis
    using upgrade_builtin [of 0 rec] upgrade_builtin [of 0 "js_set ''_v'' (JNum _) rec"] assms
    by (auto simp: upgrade_current_def JOURNAL_FORMAT_VERSION_def stampFormat_def v js_delete_set)
qed

theorem upgrade_format_total_witness:
  "upgrade_current (JObj (stampFormat [(''status'', JStr ''succeeded'')])) = Inr (JObj [(''status'', JStr ''succeeded'')])
   \<and> upgrade_current (JObj (js_set ''_v'' (JNum 3) [(''status'', JStr ''succeeded'')])) = Inl format_error"
  using upgrade_format_total [of "[(''status'', JStr ''succeeded'')]"] by simp

end
