(* ===== verification/Calls.thy ===== *)
theory Calls
  imports JsValue
begin

text \<open>
  Asynchronous code as trees of calls. Every \<open>await\<close> is an \<open>Op\<close> node whose branches are the values (or thrown errors) the call
  may answer; \<open>'c\<close> is the type of the calls. \<open>bindp\<close> is sequencing, \<open>catchp\<close> is \<open>try\<close>/\<open>catch\<close>.

  The same tree has two readings: \<open>grun\<close>, the undisturbed run against a world of type \<open>'w\<close>, and the interleaving \<open>gstep\<close> of any number of
  workers, in which every single call is a step of its own and a worker may stop for good between two calls. \<open>wp\<close> checks
  a program against rules for single calls, and the locale \<open>call_protocol\<close> turns such rules into invariants of all
  reachable configurations. \<open>Prog\<close> takes the calls of the journal port, \<open>WorkProg\<close> adds those of the work store.
\<close>

section \<open>Programs\<close>

datatype ('c, 'a) calls = Ret 'a | Raise err | Op 'c "err + js \<Rightarrow> ('c, 'a) calls"

primrec bindp :: "('c, 'a) calls \<Rightarrow> ('a \<Rightarrow> ('c, 'b) calls) \<Rightarrow> ('c, 'b) calls" where
  "bindp (Ret x) f = f x"
| "bindp (Raise e) f = Raise e"
| "bindp (Op c k) f = Op c (\<lambda>r. bindp (k r) f)"

primrec catchp :: "('c, 'a) calls \<Rightarrow> (err \<Rightarrow> ('c, 'a) calls) \<Rightarrow> ('c, 'a) calls" where
  "catchp (Ret x) h = Ret x"
| "catchp (Raise e) h = h e"
| "catchp (Op c k) h = Op c (\<lambda>r. catchp (k r) h)"

definition seqp :: "('c, 'a) calls \<Rightarrow> ('c, 'b) calls \<Rightarrow> ('c, 'b) calls" where
  "seqp p q = bindp p (\<lambda>_. q)"

definition liftp :: "err + 'a \<Rightarrow> ('c, 'a) calls" where
  "liftp r = (case r of Inl e \<Rightarrow> Raise e | Inr x \<Rightarrow> Ret x)"

text \<open>One awaited call: its value, or the error it throws.\<close>

definition callp :: "'c \<Rightarrow> ('c, js) calls" where
  "callp c = Op c liftp"

text \<open>\<open>for (const x of xs) await body(x)\<close>\<close>

primrec forp :: "'x list \<Rightarrow> ('x \<Rightarrow> ('c, unit) calls) \<Rightarrow> ('c, unit) calls" where
  "forp [] body = Ret ()"
| "forp (x # xs) body = seqp (body x) (forp xs body)"

text \<open>A loop that threads a value through its iterations.\<close>

primrec foldp :: "('s \<Rightarrow> 'x \<Rightarrow> ('c, 's) calls) \<Rightarrow> 's \<Rightarrow> 'x list \<Rightarrow> ('c, 's) calls" where
  "foldp f s [] = Ret s"
| "foldp f s (x # xs) = bindp (f s x) (\<lambda>s'. foldp f s' xs)"

text \<open>\<open>try { p } finally { q }\<close>, and the outcome of a call as a value.\<close>

definition outcome :: "('c, 'a) calls \<Rightarrow> ('c, err + 'a) calls" where
  "outcome p = catchp (bindp p (\<lambda>x. Ret (Inr x))) (\<lambda>e. Ret (Inl e))"

definition finallyp :: "('c, 'a) calls \<Rightarrow> ('c, unit) calls \<Rightarrow> ('c, 'a) calls" where
  "finallyp p q = bindp (outcome p) (\<lambda>r. seqp q (liftp r))"

section \<open>The undisturbed run\<close>

primrec grun :: "('c \<Rightarrow> 'w \<Rightarrow> (err + js) \<times> 'w) \<Rightarrow> ('c, 'a) calls \<Rightarrow> 'w \<Rightarrow> (err + 'a) \<times> 'w" where
  "grun ex (Ret x) w = (Inr x, w)"
| "grun ex (Raise e) w = (Inl e, w)"
| "grun ex (Op c k) w = (case ex c w of (r, w') \<Rightarrow> grun ex (k r) w')"

section \<open>Interleaved runs\<close>

record ('w, 'c, 'a) gconfig =
  cworld :: 'w
  threads :: "nat \<Rightarrow> ('c, 'a) calls option"
  spawned :: nat

text \<open>
  \<open>S\<close> holds the programs workers may start with, \<open>ans\<close> the answers a call may get and what it does to the world. A step performs one call of
  one worker, starts a worker, stops one for good, or lets time pass.
\<close>

inductive gstep :: "('c \<Rightarrow> 'w \<Rightarrow> err + js \<Rightarrow> 'w \<Rightarrow> bool) \<Rightarrow> ('w \<Rightarrow> 'w \<Rightarrow> bool) \<Rightarrow> ('c, 'a) calls set \<Rightarrow> ('w, 'c, 'a) gconfig \<Rightarrow> ('w, 'c, 'a) gconfig \<Rightarrow> bool"
  for ans time S where
  c_op: "threads c i = Some (Op o1 k) \<Longrightarrow> ans o1 (cworld c) r w' \<Longrightarrow>
         gstep ans time S c (c\<lparr>cworld := w', threads := (threads c)(i \<mapsto> k r)\<rparr>)"
| c_spawn: "p \<in> S \<Longrightarrow> gstep ans time S c (c\<lparr>threads := (threads c)(spawned c \<mapsto> p), spawned := Suc (spawned c)\<rparr>)"
| c_crash: "gstep ans time S c (c\<lparr>threads := (threads c)(i := None)\<rparr>)"
| c_time: "time (cworld c) w' \<Longrightarrow> gstep ans time S c (c\<lparr>cworld := w'\<rparr>)"

definition init_config :: "'w \<Rightarrow> ('w, 'c, 'a) gconfig" where
  "init_config w = \<lparr>cworld = w, threads = (\<lambda>_. None), spawned = 0\<rparr>"

inductive greach :: "('c \<Rightarrow> 'w \<Rightarrow> err + js \<Rightarrow> 'w \<Rightarrow> bool) \<Rightarrow> ('w \<Rightarrow> 'w \<Rightarrow> bool) \<Rightarrow> ('c, 'a) calls set \<Rightarrow> 'w \<Rightarrow> ('w, 'c, 'a) gconfig \<Rightarrow> bool"
  for ans time S w where
  r_init: "greach ans time S w (init_config w)"
| r_step: "greach ans time S w c \<Longrightarrow> gstep ans time S c c' \<Longrightarrow> greach ans time S w c'"

section \<open>Laws\<close>

lemma bindp_assoc [simp]: "bindp (bindp p f) g = bindp p (\<lambda>x. bindp (f x) g)"
  by (induction p) auto

lemma bindp_Ret [simp]: "bindp p Ret = p"
  by (induction p) auto

lemma liftp_simps [simp]: "liftp (Inl e) = Raise e" "liftp (Inr x) = Ret x"
  by (simp_all add: liftp_def)

lemma run_bindp [prog_simps]:
  "grun ex (bindp p f) w = (case grun ex p w of (Inl e, w') \<Rightarrow> (Inl e, w') | (Inr x, w') \<Rightarrow> grun ex (f x) w')"
  by (induction p arbitrary: w) (auto split: prod.splits)

lemma run_catchp [prog_simps]:
  "grun ex (catchp p h) w = (case grun ex p w of (Inl e, w') \<Rightarrow> grun ex (h e) w' | (Inr x, w') \<Rightarrow> (Inr x, w'))"
  by (induction p arbitrary: w) (auto split: prod.splits)

lemma run_seqp [prog_simps]:
  "grun ex (seqp p q) w = (case grun ex p w of (Inl e, w') \<Rightarrow> (Inl e, w') | (Inr x, w') \<Rightarrow> grun ex q w')"
  by (simp add: seqp_def run_bindp)

lemma run_liftp [prog_simps]: "grun ex (liftp r) w = (r, w)"
  by (cases r) auto

lemma run_callp [prog_simps]: "grun ex (callp c) w = ex c w"
  by (simp add: callp_def run_liftp split: prod.splits)

lemma run_outcome [prog_simps]: "grun ex (outcome p) w = (case grun ex p w of (r, w') \<Rightarrow> (Inr r, w'))"
  by (auto simp: outcome_def run_catchp run_bindp split: prod.split sum.split)

lemma run_finallyp:
  "grun ex (finallyp p q) w = (case grun ex p w of (r, w1) \<Rightarrow> (case grun ex q w1 of (Inl e, w2) \<Rightarrow> (Inl e, w2) | (Inr _, w2) \<Rightarrow> (r, w2)))"
  by (simp add: finallyp_def run_bindp run_seqp run_liftp run_outcome split: prod.split sum.split)

section \<open>The undisturbed run is one of the interleaved runs\<close>

definition gfinished :: "err + 'a \<Rightarrow> ('c, 'a) calls" where
  "gfinished r = (case r of Inl e \<Rightarrow> Raise e | Inr x \<Rightarrow> Ret x)"

lemma grun_reachable:
  assumes "\<And>c w r w'. ex c w = (r, w') \<Longrightarrow> ans c w r w'"
  shows "greach ans time S w0 c \<Longrightarrow> threads c i = Some p \<Longrightarrow> grun ex p (cworld c) = (r, w') \<Longrightarrow>
   greach ans time S w0 (c\<lparr>cworld := w', threads := (threads c)(i \<mapsto> gfinished r)\<rparr>)"
proof (induction p arbitrary: c)
  case (Ret x)
  then have "c\<lparr>cworld := w', threads := (threads c)(i \<mapsto> gfinished r)\<rparr> = c"
    by (auto simp: gfinished_def fun_upd_idem)
  with Ret.prems(1) show ?case by (simp only:)
next
  case (Raise e)
  then have "c\<lparr>cworld := w', threads := (threads c)(i \<mapsto> gfinished r)\<rparr> = c"
    by (auto simp: gfinished_def fun_upd_idem)
  with Raise.prems(1) show ?case by (simp only:)
next
  case (Op o1 k)
  obtain r1 w1 where e: "ex o1 (cworld c) = (r1, w1)" by fastforce
  let ?c1 = "c\<lparr>cworld := w1, threads := (threads c)(i \<mapsto> k r1)\<rparr>"
  have "greach ans time S w0 ?c1"
    by (rule r_step [OF Op.prems(1) c_op [where ans = ans, OF Op.prems(2) assms [OF e]]])
  then have "greach ans time S w0 (?c1\<lparr>cworld := w', threads := (threads ?c1)(i \<mapsto> gfinished r)\<rparr>)"
    by (rule Op.IH [rotated]) (use Op.prems(3) e in auto)
  moreover have "?c1\<lparr>cworld := w', threads := (threads ?c1)(i \<mapsto> gfinished r)\<rparr>
      = c\<lparr>cworld := w', threads := (threads c)(i \<mapsto> gfinished r)\<rparr>" by simp
  ultimately show ?case by (simp only:)
qed

text \<open>One worker alone: started on a world, run to its end.\<close>

definition gsolo :: "'w \<Rightarrow> ('c, 'a) calls \<Rightarrow> ('w, 'c, 'a) gconfig" where
  "gsolo w p = \<lparr>cworld = w, threads = [0 \<mapsto> p], spawned = 1\<rparr>"

lemma grun_solo:
  fixes p :: "('c, 'a) calls"
  assumes "\<And>c w r w'. ex c w = (r, w') \<Longrightarrow> ans c w r w'" and "p \<in> S" and "grun ex p (w :: 'w) = (r, w')"
  shows "greach ans time S w (gsolo w' (gfinished r))"
proof -
  let ?i = "init_config w :: ('w, 'c, 'a) gconfig"
  let ?c = "?i\<lparr>threads := (threads ?i)(spawned ?i \<mapsto> p), spawned := Suc (spawned ?i)\<rparr>"
  have "greach ans time S w ?c" by (rule r_step [OF r_init c_spawn [OF assms(2)]])
  from grun_reachable [where i = 0 and p = p and r = r and w' = w', OF assms(1) this] assms(3) show ?thesis
    by (simp add: init_config_def gsolo_def)
qed

section \<open>Weakest preconditions\<close>

text \<open>\<open>R\<close> holds the answers to expect, \<open>A\<close> the calls permitted, \<open>U\<close> the change of the ghost value.\<close>

primrec wp ::
  "('g \<Rightarrow> 'c \<Rightarrow> err + js \<Rightarrow> bool) \<Rightarrow> ('g \<Rightarrow> 'c \<Rightarrow> bool) \<Rightarrow> ('g \<Rightarrow> 'c \<Rightarrow> err + js \<Rightarrow> 'g) \<Rightarrow> ('c, 'a) calls \<Rightarrow> 'g \<Rightarrow>
   ('g \<Rightarrow> err + 'a \<Rightarrow> bool) \<Rightarrow> bool" where
  "wp R A U (Ret x) g Q = Q g (Inr x)"
| "wp R A U (Raise e) g Q = Q g (Inl e)"
| "wp R A U (Op c k) g Q = (A g c \<and> (\<forall>r. R g c r \<longrightarrow> wp R A U (k r) (U g c r) Q))"

lemma wp_mono: "wp R A U p g Q \<Longrightarrow> (\<And>g r. Q g r \<Longrightarrow> Q' g r) \<Longrightarrow> wp R A U p g Q'"
  by (induction p arbitrary: g) auto

lemma wp_bindp [vc_intros]:
  "wp R A U (bindp p f) g Q = wp R A U p g (\<lambda>g' r. case r of Inl e \<Rightarrow> Q g' (Inl e) | Inr x \<Rightarrow> wp R A U (f x) g' Q)"
  by (induction p arbitrary: g) auto

lemma wp_catchp [vc_intros]:
  "wp R A U (catchp p h) g Q = wp R A U p g (\<lambda>g' r. case r of Inl e \<Rightarrow> wp R A U (h e) g' Q | Inr x \<Rightarrow> Q g' (Inr x))"
  by (induction p arbitrary: g) auto

lemma wp_seqp [vc_intros]:
  "wp R A U (seqp p q) g Q = wp R A U p g (\<lambda>g' r. case r of Inl e \<Rightarrow> Q g' (Inl e) | Inr x \<Rightarrow> wp R A U q g' Q)"
  by (simp add: seqp_def wp_bindp)

lemma wp_liftp [vc_intros]: "wp R A U (liftp r) g Q = Q g r"
  by (cases r) auto

lemma wp_callp [vc_intros]: "wp R A U (callp c) g Q = (A g c \<and> (\<forall>r. R g c r \<longrightarrow> Q (U g c r) r))"
  by (simp add: callp_def wp_liftp)

section \<open>The results of a program, whatever its calls answer\<close>

primrec results :: "('c, 'a) calls \<Rightarrow> (err + 'a \<Rightarrow> bool) \<Rightarrow> bool" where
  "results (Ret x) Q = Q (Inr x)"
| "results (Raise e) Q = Q (Inl e)"
| "results (Op c k) Q = (\<forall>r. results (k r) Q)"

lemma results_bindp [simp]: "results (bindp p f) Q = results p (\<lambda>r. case r of Inl e \<Rightarrow> Q (Inl e) | Inr x \<Rightarrow> results (f x) Q)"
  by (induction p) auto

lemma results_seqp [simp]: "results (seqp p q) Q = results p (\<lambda>r. case r of Inl e \<Rightarrow> Q (Inl e) | Inr x \<Rightarrow> results q Q)"
  by (simp add: seqp_def)

lemma results_catchp [simp]: "results (catchp p h) Q = results p (\<lambda>r. case r of Inl e \<Rightarrow> results (h e) Q | Inr x \<Rightarrow> Q (Inr x))"
  by (induction p) auto

lemma results_liftp [simp]: "results (liftp r) Q = Q r"
  by (cases r) auto

lemma results_callp [simp]: "results (callp c) Q = (\<forall>r. Q r)"
  by (simp add: callp_def)

lemma all_sum: "(\<forall>r. P r) \<longleftrightarrow> (\<forall>e. P (Inl e)) \<and> (\<forall>x. P (Inr x))"
  by (metis sumE)

lemma results_run: "results p Q \<Longrightarrow> Q (fst (grun ex p w))"
  by (induction p arbitrary: w) (auto split: prod.split)

lemma results_always: "(\<And>r. Q r) \<Longrightarrow> results p Q"
  by (induction p) auto

lemma results_mono: "results p Q \<Longrightarrow> (\<And>r. Q r \<Longrightarrow> Q' r) \<Longrightarrow> results p Q'"
  by (induction p) auto

section \<open>Programs that stay within a set of calls\<close>

primrec calls_in :: "('c \<Rightarrow> bool) \<Rightarrow> ('c, 'a) calls \<Rightarrow> bool" where
  "calls_in P (Ret x) = True"
| "calls_in P (Raise e) = True"
| "calls_in P (Op c k) = (P c \<and> (\<forall>r. calls_in P (k r)))"

lemma calls_in_bindp [intro]:
  "calls_in P p \<Longrightarrow> (\<And>x. calls_in P (f x)) \<Longrightarrow> calls_in P (bindp p f)"
  by (induction p) auto

lemma calls_in_catchp [intro]:
  "calls_in P p \<Longrightarrow> (\<And>x. calls_in P (h x)) \<Longrightarrow> calls_in P (catchp p h)"
  by (induction p) auto

lemma calls_in_seqp [intro]: "calls_in P p \<Longrightarrow> calls_in P q \<Longrightarrow> calls_in P (seqp p q)"
  by (auto simp: seqp_def)

lemma calls_in_liftp [simp, intro]: "calls_in P (liftp r)"
  by (cases r) auto

lemma calls_in_callp [simp]: "calls_in P (callp c) \<longleftrightarrow> P c"
  by (simp add: callp_def)

lemma calls_in_forp [intro]: "(\<And>x. x \<in> set xs \<Longrightarrow> calls_in P (body x)) \<Longrightarrow> calls_in P (forp xs body)"
  by (induction xs) auto

lemma calls_in_foldp [intro]: "(\<And>s x. calls_in P (f s x)) \<Longrightarrow> calls_in P (foldp f s xs)"
  by (induction xs arbitrary: s) auto

lemma calls_in_mono: "calls_in P p \<Longrightarrow> (\<And>c. P c \<Longrightarrow> P' c) \<Longrightarrow> calls_in P' p"
  by (induction p) auto

lemma calls_in_outcome: "calls_in P p \<Longrightarrow> calls_in P (outcome p)"
  by (auto simp: outcome_def intro!: calls_in_catchp calls_in_bindp)

lemma calls_in_finallyp: "calls_in P p \<Longrightarrow> calls_in P q \<Longrightarrow> calls_in P (finallyp p q)"
  by (auto simp: finallyp_def calls_in_outcome intro!: calls_in_bindp calls_in_seqp)

text \<open>Such a program leaves the ghost value alone when its calls do.\<close>

lemma wp_calls_in:
  assumes "calls_in P p" and "\<And>c. P c \<Longrightarrow> A g c" and "\<And>c r. P c \<Longrightarrow> U g c r = g" and "\<And>r. Q g r"
  shows "wp R A U p g Q"
  using assms(1) by (induction p) (auto simp: assms)

lemma wp_calls_any:
  assumes "calls_in P p" and "\<And>g c. P c \<Longrightarrow> A g c" and "\<And>g r. Q g r"
  shows "wp R A U p g Q"
  using assms(1) by (induction p arbitrary: g) (auto simp: assms)

section \<open>Invariants of interleaved runs\<close>

text \<open>
  Each worker carries a ghost value that records what its calls have earned it; \<open>allowed\<close> says which calls a ghost value permits and
  \<open>upd\<close> how an answer changes it.
\<close>

locale call_protocol =
  fixes ans :: "'c \<Rightarrow> 'w \<Rightarrow> err + js \<Rightarrow> 'w \<Rightarrow> bool"
    and time :: "'w \<Rightarrow> 'w \<Rightarrow> bool"
    and allowed :: "'g \<Rightarrow> 'c \<Rightarrow> bool"
    and upd :: "'g \<Rightarrow> 'c \<Rightarrow> err + js \<Rightarrow> 'g"
    and g0 :: 'g
    and inv :: "'w \<Rightarrow> (nat \<Rightarrow> 'g) \<Rightarrow> bool"
    and resp :: "'g \<Rightarrow> 'c \<Rightarrow> err + js \<Rightarrow> bool"
  assumes inv_call: "inv w gs \<Longrightarrow> allowed (gs i) c \<Longrightarrow> ans c w r w' \<Longrightarrow> inv w' (gs(i := upd (gs i) c r))"
    and inv_time: "inv w gs \<Longrightarrow> time w w' \<Longrightarrow> inv w' gs"
    and inv_resp: "inv w gs \<Longrightarrow> ans c w r w' \<Longrightarrow> resp (gs i) c r"
begin

definition tracks :: "('g \<Rightarrow> err + 'a \<Rightarrow> bool) \<Rightarrow> ('w, 'c, 'a) gconfig \<Rightarrow> (nat \<Rightarrow> 'g) \<Rightarrow> bool" where
  "tracks Q c gs \<longleftrightarrow> inv (cworld c) gs
     \<and> (\<forall>i p. threads c i = Some p \<longrightarrow> i < spawned c \<and> wp resp allowed upd p (gs i) Q)
     \<and> (\<forall>i. spawned c \<le> i \<longrightarrow> gs i = g0)"

lemma tracks_step:
  assumes "gstep ans time S c c'" and "tracks Q c gs" and "\<And>p. p \<in> S \<Longrightarrow> wp resp allowed upd p g0 Q"
  shows "\<exists>gs'. tracks Q c' gs'"
  using assms(1)
proof cases
  case (c_op i o1 k r w')
  let ?gs = "gs(i := upd (gs i) o1 r)"
  have i: "i < spawned c" "wp resp allowed upd (Op o1 k) (gs i) Q"
    using assms(2) c_op(2) unfolding tracks_def by blast+
  moreover have "resp (gs i) o1 r" using inv_resp [OF _ c_op(3)] assms(2) unfolding tracks_def by blast
  ultimately have "allowed (gs i) o1" "wp resp allowed upd (k r) (?gs i) Q" by auto
  moreover from this have "inv w' ?gs"
    using inv_call [OF _ _ c_op(3)] assms(2) unfolding tracks_def by blast
  ultimately have "tracks Q c' ?gs"
    using assms(2) i(1) c_op(1) by (auto simp: tracks_def)
  then show ?thesis by blast
next
  case (c_spawn p)
  then have "tracks Q c' gs"
    using assms(2,3) by (fastforce simp: tracks_def)
  then show ?thesis by blast
next
  case (c_crash i)
  then have "tracks Q c' gs"
    using assms(2) by (auto simp: tracks_def)
  then show ?thesis by blast
next
  case (c_time w')
  then have "tracks Q c' gs"
    using assms(2) inv_time by (auto simp: tracks_def)
  then show ?thesis by blast
qed

lemma reachable_tracks:
  assumes "greach ans time S w c" and "inv w (\<lambda>_. g0)" and "\<And>p. p \<in> S \<Longrightarrow> wp resp allowed upd p g0 Q"
  shows "\<exists>gs. tracks Q c gs"
  using assms(1)
proof (induction rule: greach.induct)
  case r_init
  have "tracks Q (init_config w) (\<lambda>_. g0)"
    using assms(2) by (simp add: tracks_def init_config_def)
  then show ?case by blast
next
  case (r_step c c')
  then show ?case using tracks_step assms(3) by blast
qed

lemma reachable_inv:
  assumes "greach ans time S w c" and "inv w (\<lambda>_. g0)" and "\<And>p. p \<in> S \<Longrightarrow> wp resp allowed upd p g0 Q"
  obtains gs where "inv (cworld c) gs" and "\<And>i p. threads c i = Some p \<Longrightarrow> wp resp allowed upd p (gs i) Q"
proof -
  obtain gs where "tracks Q c gs" using reachable_tracks [OF assms] by blast
  then show ?thesis using that by (auto simp: tracks_def)
qed

text \<open>The worlds before and after one step, with the permission under which it was taken.\<close>

lemma reachable_call:
  assumes "greach ans time S w c" and "inv w (\<lambda>_. g0)" and "\<And>p. p \<in> S \<Longrightarrow> wp resp allowed upd p g0 Q" and "gstep ans time S c c'"
  obtains (time) "time (cworld c) (cworld c')"
    | (stay) "cworld c' = cworld c"
    | (call) gs i o1 r where "inv (cworld c) gs" "allowed (gs i) o1" "ans o1 (cworld c) r (cworld c')"
proof -
  obtain gs where inv: "inv (cworld c) gs" and wps: "\<And>i p. threads c i = Some p \<Longrightarrow> wp resp allowed upd p (gs i) Q"
    using reachable_inv [OF assms(1-3)] by blast
  from assms(4) show ?thesis
  proof cases
    case (c_op i o1 k r w')
    from wps [OF c_op(2)] have "allowed (gs i) o1" by simp
    with inv c_op show ?thesis by (intro call) auto
  qed (use that in auto)
qed

end

end
