(* ===== verification/Prog.thy ===== *)
theory Prog
  imports Format Calls
begin

text \<open>
  Asynchronous code over a journal. A program is a tree of effects: every \<open>await\<close> on the journal
  port, on the clock, on \<open>randomUUID\<close> or on code handed in from outside is an \<open>Op\<close> node whose branches are the
  values (or thrown errors) the call may answer. \<open>bindp\<close> is sequencing, \<open>catchp\<close> is \<open>try\<close>/\<open>catch\<close>.

  The same tree has two readings: \<open>run\<close>, the undisturbed run against an \<open>InMemoryJournal\<close>, and the
  interleaving \<open>cstep\<close> of any number of workers, in which every single journal call is a step of its own, a
  worker may stop for good between two calls, and a journal call may throw before or after it took effect.
\<close>

section \<open>Programs\<close>

datatype jop =
    JGet key
  | JPut key js
  | JPutIfAbsent key js
  | JPutIfMatch key js js
  | JNow
  | JListKeys key "nat option"
  | JDeletePrefix key
  | JIncrBy key "(string \<times> int) list"
  | JGetCounters key
  | JReadRun string
  | JReadRunStats string
  | DateNow
  | RandomUUID
  | Ext string js

type_synonym 'a prog = "(jop, 'a) calls"

fun js_int :: "js \<Rightarrow> int" where
  "js_int (JNum n) = n"
| "js_int _ = 0"

fun js_string :: "js \<Rightarrow> string" where
  "js_string (JStr s) = s"
| "js_string _ = []"

fun js_keys_of :: "js \<Rightarrow> key list" where
  "js_keys_of (JArr xs) = map js_string xs"
| "js_keys_of _ = []"

definition get :: "key \<Rightarrow> js prog" where "get k = callp (JGet k)"
definition put :: "key \<Rightarrow> js \<Rightarrow> unit prog" where "put k v = bindp (callp (JPut k v)) (\<lambda>_. Ret ())"
definition putIfAbsent :: "key \<Rightarrow> js \<Rightarrow> bool prog" where "putIfAbsent k v = bindp (callp (JPutIfAbsent k v)) (\<lambda>r. Ret (js_truthy r))"
definition putIfMatch :: "key \<Rightarrow> js \<Rightarrow> js \<Rightarrow> bool prog" where "putIfMatch k e v = bindp (callp (JPutIfMatch k e v)) (\<lambda>r. Ret (js_truthy r))"
definition journal_now :: "int prog" where "journal_now = bindp (callp JNow) (\<lambda>r. Ret (js_int r))"
definition date_now :: "int prog" where "date_now = bindp (callp DateNow) (\<lambda>r. Ret (js_int r))"
definition listKeys :: "key \<Rightarrow> (key list) prog" where "listKeys p = bindp (callp (JListKeys p None)) (\<lambda>r. Ret (js_keys_of r))"
definition listKeysUpTo :: "key \<Rightarrow> nat \<Rightarrow> (key list) prog" where "listKeysUpTo p n = bindp (callp (JListKeys p (Some n))) (\<lambda>r. Ret (js_keys_of r))"
definition deletePrefix :: "key \<Rightarrow> js prog" where "deletePrefix p = callp (JDeletePrefix p)"
definition randomUUID :: "string prog" where "randomUUID = bindp (callp RandomUUID) (\<lambda>r. Ret (js_string r))"
definition ext :: "string \<Rightarrow> js \<Rightarrow> js prog" where "ext f a = callp (Ext f a)"

text \<open>The optional methods of the port (\<open>interface Journal\<close>): the ones a given journal implements.\<close>

record caps =
  has_putIfAbsent :: bool
  has_putIfMatch :: bool
  has_now :: bool
  has_listKeys :: bool
  has_deletePrefix :: bool
  has_incrBy :: bool
  has_getCounters :: bool
  has_readRun :: bool
  has_readRunStats :: bool

definition full_caps :: caps where
  "full_caps = \<lparr>has_putIfAbsent = True, has_putIfMatch = True, has_now = False, has_listKeys = True, has_deletePrefix = True,
     has_incrBy = True, has_getCounters = True, has_readRun = True, has_readRunStats = True\<rparr>"

section \<open>The undisturbed run\<close>

text \<open>
  \<open>called\<close> records the calls to outside code; \<open>env\<close> answers them, given the calls made before. The
  clock stands still during a run; \<open>randomUUID\<close> counts. \<open>InMemoryJournal\<close> has no \<open>now\<close>; the
  model answers it with the clock, for journals that have one.
\<close>

record world =
  journal :: InMemoryJournal
  clock :: int
  used_uuids :: "string list"
  called :: "(string \<times> js) list"

definition new_world :: world where
  "new_world = \<lparr>journal = empty_journal, clock = 0, used_uuids = [], called = []\<rparr>"

definition js_counters :: "(int js_map) option \<Rightarrow> js" where
  "js_counters c = (case c of None \<Rightarrow> JUndef | Some fs \<Rightarrow> JObj (map (map_prod id JNum) fs))"

fun kind_text :: "JournalEntryKind \<Rightarrow> string" where
  "kind_text Model = ''model''"
| "kind_text Tool = ''tool''"

definition js_entry :: "JournalEntry \<Rightarrow> js" where
  "js_entry e = JObj [(''key'', JStr (entry_key e)), (''runId'', JStr (entry_runId e)), (''kind'', JStr (kind_text (entry_kind e))),
     (''value'', entry_value e), (''seq'', JNum (int (entry_seq e))),
     (''ts'', case entry_ts e of None \<Rightarrow> JUndef | Some t \<Rightarrow> JNum t)]"

definition fresh_uuid :: "string list \<Rightarrow> string" where
  "fresh_uuid us =
     (let u = ''uuid-'' @ show_nat (length us) in if u \<in> set us then CHR ''u'' # concat us else u)"

text \<open>What a journal call returns and does.\<close>

fun journal_op :: "jop \<Rightarrow> world \<Rightarrow> (js \<times> world) option" where
  "journal_op (JGet k) w = Some (mem_get k (journal w), w)"
| "journal_op (JPut k v) w = Some (JUndef, w\<lparr>journal := mem_put (clock w) k v (journal w)\<rparr>)"
| "journal_op (JPutIfAbsent k v) w =
     (case mem_putIfAbsent (clock w) k v (journal w) of (b, j) \<Rightarrow> Some (JBool b, w\<lparr>journal := j\<rparr>))"
| "journal_op (JPutIfMatch k e v) w =
     (case mem_putIfMatch k e v (journal w) of (b, j) \<Rightarrow> Some (JBool b, w\<lparr>journal := j\<rparr>))"
| "journal_op JNow w = Some (JNum (clock w), w)"
| "journal_op (JListKeys p lim) w = Some (JArr (map JStr (mem_listKeys p lim (journal w))), w)"
| "journal_op (JDeletePrefix p) w =
     (case mem_deletePrefix p (journal w) of (n, j) \<Rightarrow> Some (JNum (int n), w\<lparr>journal := j\<rparr>))"
| "journal_op (JIncrBy k fs) w = Some (JUndef, w\<lparr>journal := mem_incrBy k fs (journal w)\<rparr>)"
| "journal_op (JGetCounters k) w = Some (js_counters (mem_getCounters k (journal w)), w)"
| "journal_op (JReadRun r) w = Some (JArr (map js_entry (mem_readRun r (journal w))), w)"
| "journal_op (JReadRunStats r) w =
     Some (case mem_readRunStats r (journal w) of
             Some (n, b) \<Rightarrow> JObj [(''entries'', JNum (int n)), (''bytes'', JNum (int b))]
           | None \<Rightarrow> JUndef, w)"
| "journal_op DateNow w = None"
| "journal_op RandomUUID w = None"
| "journal_op (Ext f a) w = None"

type_synonym env = "(string \<times> js) list \<Rightarrow> string \<Rightarrow> js \<Rightarrow> err + js"

fun exec_op :: "env \<Rightarrow> jop \<Rightarrow> world \<Rightarrow> (err + js) \<times> world" where
  "exec_op env DateNow w = (Inr (JNum (clock w)), w)"
| "exec_op env RandomUUID w = (Inr (JStr (fresh_uuid (used_uuids w))), w\<lparr>used_uuids := fresh_uuid (used_uuids w) # used_uuids w\<rparr>)"
| "exec_op env (Ext f a) w = (env (called w) f a, w\<lparr>called := called w @ [(f, a)]\<rparr>)"
| "exec_op env c w = (case journal_op c w of Some (r, w') \<Rightarrow> (Inr r, w') | None \<Rightarrow> (Inr JUndef, w))"

abbreviation run :: "env \<Rightarrow> 'a prog \<Rightarrow> world \<Rightarrow> (err + 'a) \<times> world" where
  "run env \<equiv> grun (exec_op env)"

section \<open>Interleaved runs\<close>

text \<open>
  The answers a call may get in a world with other workers and an unreliable store. A journal call
  works; or it throws without effect; or it takes effect and throws. Outside code answers anything.
  \<open>randomUUID\<close> returns a string it has not returned before.
\<close>

inductive answer :: "jop \<Rightarrow> world \<Rightarrow> err + js \<Rightarrow> world \<Rightarrow> bool" where
  ans_ok: "journal_op c w = Some (r, w') \<Longrightarrow> answer c w (Inr r) w'"
| ans_down: "journal_op c w = Some (r, w') \<Longrightarrow> answer c w (Inl e) w"
| ans_lost: "journal_op c w = Some (r, w') \<Longrightarrow> answer c w (Inl e) w'"
| ans_date: "answer DateNow w (Inr (JNum (clock w))) w"
| ans_uuid: "u \<notin> set (used_uuids w) \<Longrightarrow> answer RandomUUID w (Inr (JStr u)) (w\<lparr>used_uuids := u # used_uuids w\<rparr>)"
| ans_ext: "answer (Ext f a) w r (w\<lparr>called := called w @ [(f, a)]\<rparr>)"

text \<open>Time passes.\<close>

definition passes :: "world \<Rightarrow> world \<Rightarrow> bool" where
  "passes w w' \<longleftrightarrow> (\<exists>t. clock w \<le> t \<and> w' = w\<lparr>clock := t\<rparr>)"

type_synonym 'a config = "(world, jop, 'a) gconfig"

abbreviation cstep :: "'a prog set \<Rightarrow> 'a config \<Rightarrow> 'a config \<Rightarrow> bool" where
  "cstep S \<equiv> gstep answer passes S"

abbreviation reachable :: "'a prog set \<Rightarrow> world \<Rightarrow> 'a config \<Rightarrow> bool" where
  "reachable S w \<equiv> greach answer passes S w"

inductive_cases answer_journalE: "answer c w r w'"
inductive_simps answer_DateNow: "answer DateNow w r w'"
inductive_simps answer_RandomUUID: "answer RandomUUID w r w'"
inductive_simps answer_Ext: "answer (Ext f a) w r w'"
inductive_simps answer_JGet: "answer (JGet k) w r w'"
inductive_simps answer_JPut: "answer (JPut k v) w r w'"
inductive_simps answer_JPutIfAbsent: "answer (JPutIfAbsent k v) w r w'"
inductive_simps answer_JPutIfMatch: "answer (JPutIfMatch k e v) w r w'"
inductive_simps answer_JNow: "answer JNow w r w'"

section \<open>Laws\<close>

lemma c_tick: "clock (cworld c) \<le> t \<Longrightarrow> cstep S c (c\<lparr>cworld := (cworld c)\<lparr>clock := t\<rparr>\<rparr>)"
  by (rule c_time) (auto simp: passes_def)

lemma js_string_JStr [simp]: "js_string \<circ> JStr = id"
  by (simp add: fun_eq_iff)

lemma js_keys_of_strings [simp]: "js_keys_of (JArr (map JStr ks)) = ks"
  by (induction ks) simp_all

lemma run_get [prog_simps]: "run env (get k) w = (Inr (mem_get k (journal w)), w)"
  by (simp add: Prog.get_def run_bindp run_callp split: prod.split)

lemma run_put [prog_simps]: "run env (put k v) w = (Inr (), w\<lparr>journal := mem_put (clock w) k v (journal w)\<rparr>)"
  by (simp add: Prog.put_def run_bindp run_callp split: prod.split)

lemma run_putIfAbsent [prog_simps]: "run env (putIfAbsent k v) w = (case mem_putIfAbsent (clock w) k v (journal w) of (b, j) \<Rightarrow> (Inr b, w\<lparr>journal := j\<rparr>))"
  by (simp add: Prog.putIfAbsent_def run_bindp run_callp split: prod.split)

lemma run_putIfMatch [prog_simps]: "run env (putIfMatch k e v) w = (case mem_putIfMatch k e v (journal w) of (b, j) \<Rightarrow> (Inr b, w\<lparr>journal := j\<rparr>))"
  by (simp add: Prog.putIfMatch_def run_bindp run_callp split: prod.split)

lemma run_journal_now [prog_simps]: "run env (journal_now) w = (Inr (clock w), w)"
  by (simp add: Prog.journal_now_def run_bindp run_callp split: prod.split)

lemma run_date_now [prog_simps]: "run env (date_now) w = (Inr (clock w), w)"
  by (simp add: Prog.date_now_def run_bindp run_callp split: prod.split)

lemma run_listKeys [prog_simps]: "run env (listKeys p) w = (Inr (mem_listKeys p None (journal w)), w)"
  by (simp add: Prog.listKeys_def run_bindp run_callp del: js_keys_of.simps)

lemma run_listKeysUpTo [prog_simps]: "run env (listKeysUpTo p n) w = (Inr (mem_listKeys p (Some n) (journal w)), w)"
  by (simp add: Prog.listKeysUpTo_def run_bindp run_callp del: js_keys_of.simps)

lemma run_randomUUID [prog_simps]: "run env (randomUUID) w = (Inr (fresh_uuid (used_uuids w)), w\<lparr>used_uuids := fresh_uuid (used_uuids w) # used_uuids w\<rparr>)"
  by (simp add: Prog.randomUUID_def run_bindp run_callp split: prod.split)

lemma run_ext [prog_simps]: "run env (ext f a) w = (env (called w) f a, w\<lparr>called := called w @ [(f, a)]\<rparr>)"
  by (simp add: Prog.ext_def run_bindp run_callp split: prod.split)

section \<open>The undisturbed run is one of the interleaved runs\<close>

lemma length_le_concat: "x \<in> set xs \<Longrightarrow> length x \<le> length (concat xs)"
  by (induction xs) auto

lemma fresh_uuid_notin: "fresh_uuid us \<notin> set us"
  using length_le_concat [of "CHR ''u'' # concat us" us] by (auto simp: fresh_uuid_def Let_def)

lemma exec_op_answer: "exec_op env c w = (r, w') \<Longrightarrow> answer c w r w'"
proof (cases "journal_op c w")
  case None
  assume e: "exec_op env c w = (r, w')"
  from None consider "c = DateNow" | "c = RandomUUID" | f a where "c = Ext f a"
    by (cases c) (auto split: prod.splits)
  then show ?thesis using e fresh_uuid_notin
    by cases (auto intro: answer.intros)
next
  case (Some rw)
  assume "exec_op env c w = (r, w')"
  with Some have "r = Inr (fst rw)" "w' = snd rw"
    by (cases c; auto split: prod.splits)+
  with Some show ?thesis by (auto intro: ans_ok)
qed

text \<open>One worker alone: started on a world, run to its end.\<close>

abbreviation solo :: "world \<Rightarrow> 'a prog \<Rightarrow> 'a config" where
  "solo \<equiv> gsolo"

abbreviation finished :: "err + 'a \<Rightarrow> 'a prog" where
  "finished \<equiv> gfinished"

lemmas solo_def = gsolo_def
lemmas finished_def = gfinished_def

lemma run_solo: "p \<in> S \<Longrightarrow> run env p w = (r, w') \<Longrightarrow> reachable S w (solo w' (finished r))"
  by (rule grun_solo [where ans = answer, OF exec_op_answer])

text \<open>Several workers under a given schedule; the entries of the schedule name the worker that makes its next call.\<close>

fun interleave :: "env \<Rightarrow> 'a prog list \<Rightarrow> nat list \<Rightarrow> world \<Rightarrow> 'a prog list \<times> world" where
  "interleave env ps [] w = (ps, w)"
| "interleave env ps (i # sched) w =
     (if i < length ps then
        (case ps ! i of
           Op c k \<Rightarrow> (case exec_op env c w of (r, w') \<Rightarrow> interleave env (ps[i := k r]) sched w')
         | _ \<Rightarrow> interleave env ps sched w)
      else interleave env ps sched w)"

definition together :: "'a prog list \<Rightarrow> world \<Rightarrow> 'a config" where
  "together ps w = \<lparr>cworld = w, threads = (\<lambda>i. if i < length ps then Some (ps ! i) else None), spawned = length ps\<rparr>"

lemma together_reachable: "set ps \<subseteq> S \<Longrightarrow> reachable S w (together ps w)"
proof (induction ps rule: rev_induct)
  case Nil
  then show ?case using r_init [where ans = answer and time = passes and S = S and w = w] by (simp add: together_def init_config_def)
next
  case (snoc p ps)
  have "(\<lambda>i. if i < length (ps @ [p]) then Some ((ps @ [p]) ! i) else None)
      = (\<lambda>i. if i < length ps then Some (ps ! i) else None)(length ps \<mapsto> p)"
    by (auto simp: fun_eq_iff nth_append)
  then have "cstep S (together ps w) (together (ps @ [p]) w)"
    using c_spawn [where ans = answer and time = passes and c = "together ps w", of p S] snoc.prems by (simp add: together_def)
  with snoc show ?case by (auto intro: r_step)
qed

lemma interleave_reachable:
  "reachable S w0 (together ps w) \<Longrightarrow> interleave env ps sched w = (ps', w') \<Longrightarrow> reachable S w0 (together ps' w')"
proof (induction sched arbitrary: ps w)
  case (Cons i sched)
  show ?case
  proof (cases "\<exists>c k. i < length ps \<and> ps ! i = Op c k")
    case True
    then obtain c k where i: "i < length ps" "ps ! i = Op c k" by blast
    obtain r w1 where e: "exec_op env c w = (r, w1)" by fastforce
    have "(\<lambda>j. if j < length (ps[i := k r]) then Some (ps[i := k r] ! j) else None)
        = (\<lambda>j. if j < length ps then Some (ps ! j) else None)(i \<mapsto> k r)"
      using i(1) by (auto simp: fun_eq_iff)
    then have "cstep S (together ps w) (together (ps[i := k r]) w1)"
      using c_op [where ans = answer and time = passes and c = "together ps w" and S = S, of i c k r w1] i exec_op_answer [OF e] by (simp add: together_def)
    then show ?thesis using Cons i e by (auto intro: r_step)
  next
    case False
    then have "interleave env ps (i # sched) w = interleave env ps sched w" by (auto split: calls.splits)
    then show ?thesis using Cons by simp
  qed
qed simp

end
