(* ===== verification/Protocol.thy ===== *)
theory Protocol
  imports Prog
begin

text \<open>
  Reasoning about interleaved workers. Each worker carries a ghost value that records what its calls
  have earned it; \<open>allowed\<close> says which calls a ghost value permits and \<open>upd\<close> how an answer changes
  it. \<open>wp\<close> checks one program against these rules for every possible answer; the locale \<open>protocol\<close> proves
  that a world invariant kept by every permitted call holds in all reachable configurations.
\<close>

section \<open>Weakest preconditions of programs\<close>

definition possible :: "jop \<Rightarrow> err + js \<Rightarrow> bool" where
  "possible c r \<longleftrightarrow> (\<exists>w w'. answer c w r w')"

text \<open>The answers a call can get.\<close>

lemma possible_putIfAbsent: "possible (JPutIfAbsent k v) r \<longleftrightarrow> (\<exists>e. r = Inl e) \<or> r = Inr (JBool True) \<or> r = Inr (JBool False)"
proof
  assume "possible (JPutIfAbsent k v) r"
  then obtain w w' where "answer (JPutIfAbsent k v) w r w'" by (auto simp: possible_def)
  then show "(\<exists>e. r = Inl e) \<or> r = Inr (JBool True) \<or> r = Inr (JBool False)"
    by (cases rule: answer.cases) (auto split: prod.splits)
next
  assume "(\<exists>e. r = Inl e) \<or> r = Inr (JBool True) \<or> r = Inr (JBool False)"
  moreover have "answer (JPutIfAbsent k v) new_world (Inl e) new_world" for e
    by (auto simp: answer_JPutIfAbsent split: prod.splits)
  moreover have "\<exists>w'. answer (JPutIfAbsent k v) new_world (Inr (JBool True)) w'"
    by (auto simp: answer_JPutIfAbsent mem_putIfAbsent_def new_world_def empty_journal_def)
  moreover have "\<exists>w'. answer (JPutIfAbsent k v) (new_world\<lparr>journal := mem_put 0 k v empty_journal\<rparr>) (Inr (JBool False)) w'"
    by (auto simp: answer_JPutIfAbsent mem_putIfAbsent_def mem_put_def empty_journal_def)
  ultimately show "possible (JPutIfAbsent k v) r" unfolding possible_def by (metis (full_types))
qed

lemma possible_putIfMatchD: "possible (JPutIfMatch k e v) r \<Longrightarrow> (\<exists>e. r = Inl e) \<or> r = Inr (JBool True) \<or> r = Inr (JBool False)"
  unfolding possible_def by (elim exE, erule answer.cases) (auto split: prod.splits)

lemma possible_nowD: "possible JNow r \<Longrightarrow> (\<exists>e. r = Inl e) \<or> (\<exists>n. r = Inr (JNum n))"
  by (auto simp: possible_def answer_JNow)

lemma possible_dateD: "possible DateNow r \<Longrightarrow> \<exists>n. r = Inr (JNum n)"
  by (auto simp: possible_def answer_DateNow)

lemma possible_uuidD: "possible RandomUUID r \<Longrightarrow> \<exists>s. r = Inr (JStr s)"
  by (auto simp: possible_def answer_RandomUUID)

section \<open>The results of a program, whatever its calls answer\<close>

lemma results_ops [simp]:
  "results (get k) Q = (\<forall>r. Q r)" "results (ext f a) Q = (\<forall>r. Q r)"
  "results (put k v) R = ((\<forall>e. R (Inl e)) \<and> R (Inr ()))"
  "results date_now N = ((\<forall>e. N (Inl e)) \<and> (\<forall>n. N (Inr n)))"
  "results journal_now N = ((\<forall>e. N (Inl e)) \<and> (\<forall>n. N (Inr n)))"
  "results (putIfAbsent k v) B = ((\<forall>e. B (Inl e)) \<and> B (Inr True) \<and> B (Inr False))"
  "results (putIfMatch k e v) B = ((\<forall>e. B (Inl e)) \<and> B (Inr True) \<and> B (Inr False))"
proof -
  have n: "(\<forall>x. N (Inr (js_int x))) \<longleftrightarrow> (\<forall>n. N (Inr n))" for N :: "err + int \<Rightarrow> bool"
    by (metis js_int.simps(1))
  have b: "(\<forall>x. B (Inr (js_truthy x))) \<longleftrightarrow> B (Inr True) \<and> B (Inr False)" for B :: "err + bool \<Rightarrow> bool"
    by (metis (full_types) js_truthy.simps(3))
  show "results (get k) Q = (\<forall>r. Q r)" "results (ext f a) Q = (\<forall>r. Q r)"
    "results (put k v) R = ((\<forall>e. R (Inl e)) \<and> R (Inr ()))"
    "results date_now N = ((\<forall>e. N (Inl e)) \<and> (\<forall>n. N (Inr n)))"
    "results journal_now N = ((\<forall>e. N (Inl e)) \<and> (\<forall>n. N (Inr n)))"
    "results (putIfAbsent k v) B = ((\<forall>e. B (Inl e)) \<and> B (Inr True) \<and> B (Inr False))"
    "results (putIfMatch k e v) B = ((\<forall>e. B (Inl e)) \<and> B (Inr True) \<and> B (Inr False))"
    by (simp_all add: get_def Prog.ext_def put_def date_now_def journal_now_def putIfAbsent_def putIfMatch_def
        all_sum [of "case_sum _ _"] n b)
qed

section \<open>Programs that stay within a set of calls\<close>

lemma calls_in_ops [simp]:
  "calls_in P (get k) \<longleftrightarrow> P (JGet k)"
  "calls_in P (ext f a) \<longleftrightarrow> P (Ext f a)"
  "calls_in P (deletePrefix p) \<longleftrightarrow> P (JDeletePrefix p)"
  by (simp_all add: get_def Prog.ext_def deletePrefix_def)

lemma calls_in_ops_bound [intro]:
  "P (JPut k v) \<Longrightarrow> calls_in P (put k v)"
  "P (JPutIfAbsent k v) \<Longrightarrow> calls_in P (putIfAbsent k v)"
  "P (JPutIfMatch k e v) \<Longrightarrow> calls_in P (putIfMatch k e v)"
  "P JNow \<Longrightarrow> calls_in P journal_now"
  "P DateNow \<Longrightarrow> calls_in P date_now"
  "P (JListKeys k None) \<Longrightarrow> calls_in P (listKeys k)"
  "P (JListKeys k (Some n)) \<Longrightarrow> calls_in P (listKeysUpTo k n)"
  "P RandomUUID \<Longrightarrow> calls_in P randomUUID"
  by (simp_all add: put_def putIfAbsent_def putIfMatch_def journal_now_def date_now_def listKeys_def listKeysUpTo_def randomUUID_def calls_in_bindp)

section \<open>Invariants of interleaved runs\<close>

locale protocol =
  fixes allowed :: "'g \<Rightarrow> jop \<Rightarrow> bool"
    and upd :: "'g \<Rightarrow> jop \<Rightarrow> err + js \<Rightarrow> 'g"
    and g0 :: 'g
    and inv :: "world \<Rightarrow> (nat \<Rightarrow> 'g) \<Rightarrow> bool"
    and resp :: "'g \<Rightarrow> jop \<Rightarrow> err + js \<Rightarrow> bool"
  assumes call_kept: "inv w gs \<Longrightarrow> allowed (gs i) c \<Longrightarrow> answer c w r w' \<Longrightarrow> inv w' (gs(i := upd (gs i) c r))"
    and tick_kept: "inv w gs \<Longrightarrow> clock w \<le> t \<Longrightarrow> inv (w\<lparr>clock := t\<rparr>) gs"
    and answers: "inv w gs \<Longrightarrow> answer c w r w' \<Longrightarrow> resp (gs i) c r"

sublocale protocol \<subseteq> call_protocol answer passes allowed upd g0 inv resp
  by unfold_locales (erule call_kept, assumption+, auto simp: passes_def dest: tick_kept answers)

context protocol
begin

lemma reachable_step:
  assumes "reachable S w c" and "inv w (\<lambda>_. g0)" and "\<And>p. p \<in> S \<Longrightarrow> wp resp allowed upd p g0 Q" and "cstep S c c'"
  obtains (time) t where "cworld c' = (cworld c)\<lparr>clock := t\<rparr>" "clock (cworld c) \<le> t"
    | (stay) "cworld c' = cworld c"
    | (call) gs i o1 r where "inv (cworld c) gs" "allowed (gs i) o1" "answer o1 (cworld c) r (cworld c')"
  by (rule reachable_call [OF assms]) (auto simp: passes_def intro: that)

end

end
