(* ===== verification/JournalOps.thy ===== *)
theory JournalOps
  imports Protocol
begin

text \<open>
  The clients of the journal port in \<open>journal.ts\<close> (\<open>claim\<close>, \<open>frozenGet\<close>, \<open>ctxGet\<close>, \<open>loadReplayCache\<close>) and
  the durable log (\<open>packages/durable/src/durable-log.ts\<close>).

  Warnings on the console are left out. The replay cache is a value passed in and out. The random half of a generated log id is
  outside code: \<open>Math.random().toString(36).slice(2, 10)\<close>.
\<close>

section \<open>Definitions\<close>

text \<open>Property access without optional chaining: it throws on \<open>null\<close> and \<open>undefined\<close>.\<close>

definition propp :: "string \<Rightarrow> js \<Rightarrow> js prog" where
  "propp f v = (if v = JNull \<or> v = JUndef then Raise (Err ''TypeError'' f) else Ret (js_field f v))"

definition claim :: "caps \<Rightarrow> key \<Rightarrow> js \<Rightarrow> bool prog" where
  "claim J key value =
     (if has_putIfAbsent J then putIfAbsent key value
      else bindp (get key) (\<lambda>v.
        if v \<noteq> JUndef then Ret False
        else seqp (put key value) (Ret True)))"

definition frozenGet :: "caps \<Rightarrow> key \<Rightarrow> js prog \<Rightarrow> js prog" where
  "frozenGet J key compute =
     bindp (get key) (\<lambda>hit.
       if hit \<noteq> JUndef then propp ''v'' hit
       else bindp compute (\<lambda>v.
         bindp (claim J key (JObj [(''v'', v)])) (\<lambda>won.
           if won then Ret v
           else bindp (get key) (\<lambda>winner.
             if winner = JUndef then Raise (Err ''Error'' ''claim was lost but the record could not be read'')
             else propp ''v'' winner))))"

definition ctxGet :: "js js_map option \<Rightarrow> key \<Rightarrow> (js \<times> js js_map option) prog" where
  "ctxGet cache key =
     (case cache of
        Some m \<Rightarrow>
          (case map_of m key of
             Some v \<Rightarrow> bindp (liftp (if isVersionedKey key then upgrade_current v else Inr v))
                         (\<lambda>v'. Ret (v', Some (js_delete key m)))
           | None \<Rightarrow> bindp (get key) (\<lambda>v.
               bindp (liftp (if v \<noteq> JUndef \<and> isVersionedKey key then upgrade_current v else Inr v)) (\<lambda>v'. Ret (v', cache))))
      | None \<Rightarrow> bindp (get key) (\<lambda>v.
          bindp (liftp (if v \<noteq> JUndef \<and> isVersionedKey key then upgrade_current v else Inr v)) (\<lambda>v'. Ret (v', cache))))"

definition REPLAY_CACHE_MAX_BYTES :: int where
  "REPLAY_CACHE_MAX_BYTES = 32 * 1024 * 1024"

fun js_elems :: "js \<Rightarrow> js list" where
  "js_elems (JArr xs) = xs"
| "js_elems _ = []"

definition cache_of_entries :: "js list \<Rightarrow> js js_map" where
  "cache_of_entries es = foldl (\<lambda>m e. js_set (js_string (js_field ''key'' e)) (js_field ''value'' e) m) [] es"

definition loadReplayCache :: "caps \<Rightarrow> string \<Rightarrow> int option \<Rightarrow> (js js_map option) prog" where
  "loadReplayCache J runId maxBytes =
     (if \<not> has_readRun J then Ret None
      else bindp
        (if has_readRunStats J
         then catchp (bindp (callp (JReadRunStats runId)) (\<lambda>st.
                bindp (propp ''bytes'' st) (\<lambda>b.
                  Ret (js_int b > (case maxBytes of None \<Rightarrow> REPLAY_CACHE_MAX_BYTES | Some n \<Rightarrow> n)))))
              (\<lambda>_. Ret False)
         else Ret False)
        (\<lambda>tooBig.
          if tooBig then Ret None
          else catchp (bindp (callp (JReadRun runId)) (\<lambda>entries.
                 if js_elems entries = [] then Ret None
                 else Ret (Some (cache_of_entries (js_elems entries)))))
               (\<lambda>_. Ret None)))"

subsection \<open>The durable log\<close>

definition base36_char :: "nat \<Rightarrow> char" where
  "base36_char d = (if d < 10 then char_of (48 + d) else char_of (87 + d))"

fun show_base36 :: "nat \<Rightarrow> string" where
  "show_base36 n = (if n < 36 then [base36_char n] else show_base36 (n div 36) @ [base36_char (n mod 36)])"

declare show_base36.simps [simp del]

definition appendLog :: "caps \<Rightarrow> string \<Rightarrow> js \<Rightarrow> string option \<Rightarrow> string prog" where
  "appendLog J ns payload given =
     bindp (case given of
              Some i \<Rightarrow> Ret i
            | None \<Rightarrow> bindp date_now (\<lambda>t. bindp (ext ''Math.random'' JUndef) (\<lambda>rnd.
                Ret (show_base36 (nat t) @ ''-'' @ js_string rnd))))
       (\<lambda>itemId. bindp date_now (\<lambda>at.
          seqp (claim J (ns @ '':'' @ itemId) (JObj [(''id'', JStr itemId), (''payload'', payload), (''at'', JNum at)]))
            (Ret itemId)))"

record LogItem =
  item_id :: js
  item_key :: key
  item_payload :: js
  item_at :: js

definition log_item :: "string \<Rightarrow> key \<Rightarrow> js \<Rightarrow> LogItem list" where
  "log_item pre key rec =
     (if js_has_field ''payload'' rec
      then [\<lparr>item_id = (let i = js_field ''id'' rec in if i = JUndef \<or> i = JNull then JStr (drop (length pre) key) else i),
             item_key = key, item_payload = js_field ''payload'' rec, item_at = js_field ''at'' rec\<rparr>]
      else [])"

definition listLog :: "caps \<Rightarrow> string \<Rightarrow> int option \<Rightarrow> (LogItem list) prog" where
  "listLog J ns limit =
     (let pre = ns @ '':'' in
      bindp (if has_listKeys J then listKeys pre else Ret []) (\<lambda>keys0.
        let keys = (case limit of
                      Some n \<Rightarrow> if 0 \<le> n \<and> n < int (length keys0) then take (nat n) (rev (sort keys0)) else keys0
                    | None \<Rightarrow> keys0)
        in bindp (foldp (\<lambda>items key. bindp (get key) (\<lambda>rec. Ret (items @ log_item pre key rec))) [] keys)
             (\<lambda>items. Ret (sort_key (\<lambda>i. js_int (item_at i)) items))))"

definition countLog :: "caps \<Rightarrow> string \<Rightarrow> nat prog" where
  "countLog J ns = (if has_listKeys J then bindp (listKeys (ns @ '':'')) (\<lambda>ks. Ret (length ks)) else Ret 0)"

definition consumeOnce :: "caps \<Rightarrow> key \<Rightarrow> bool prog" where
  "consumeOnce J marker = bindp date_now (\<lambda>t. claim J marker (JObj [(''at'', JNum t)]))"

section \<open>A key that is written once\<close>

text \<open>
  Calls that respect a write-once key \<open>K\<close>: they may create it with a value that satisfies \<open>P\<close>, and read it,
  but neither overwrite nor delete it. A worker's ghost value is what it has learnt about the content of \<open>K\<close>, whether it was the one
  that created it, and whether it knows that \<open>K\<close> exists.
\<close>

record once_ghost =
  learnt :: "js option"
  created :: bool
  exists_known :: bool

definition once_g0 :: once_ghost where
  "once_g0 = \<lparr>learnt = None, created = False, exists_known = False\<rparr>"

definition once_allowed :: "(js \<Rightarrow> bool) \<Rightarrow> key \<Rightarrow> once_ghost \<Rightarrow> jop \<Rightarrow> bool" where
  "once_allowed P K g c =
     (case c of JPut k v \<Rightarrow> k \<noteq> K | JPutIfMatch k e v \<Rightarrow> k \<noteq> K | JDeletePrefix p \<Rightarrow> \<not> prefix p K
      | JPutIfAbsent k v \<Rightarrow> k = K \<longrightarrow> P v \<and> v \<noteq> JUndef | _ \<Rightarrow> True)"

definition once_upd :: "key \<Rightarrow> once_ghost \<Rightarrow> jop \<Rightarrow> err + js \<Rightarrow> once_ghost" where
  "once_upd K g c r =
     (case c of
        JPutIfAbsent k v \<Rightarrow>
          if k = K \<and> r = Inr (JBool True) then \<lparr>learnt = Some v, created = True, exists_known = True\<rparr>
          else if k = K \<and> r = Inr (JBool False) then g\<lparr>exists_known := True\<rparr> else g
      | JGet k \<Rightarrow> (case r of Inr v \<Rightarrow> if k = K \<and> v \<noteq> JUndef then g\<lparr>learnt := Some v, exists_known := True\<rparr> else g | Inl e \<Rightarrow> g)
      | _ \<Rightarrow> g)"

definition once_inv :: "(js \<Rightarrow> bool) \<Rightarrow> key \<Rightarrow> world \<Rightarrow> (nat \<Rightarrow> once_ghost) \<Rightarrow> bool" where
  "once_inv P K w gs \<longleftrightarrow>
     (\<forall>v. map_of (store (journal w)) K = Some v \<longrightarrow> P v \<and> v \<noteq> JUndef)
     \<and> (\<forall>i v. learnt (gs i) = Some v \<longrightarrow> map_of (store (journal w)) K = Some v)
     \<and> (\<forall>i. created (gs i) \<or> exists_known (gs i) \<longrightarrow> map_of (store (journal w)) K \<noteq> None)
     \<and> (\<forall>i j. created (gs i) \<and> created (gs j) \<longrightarrow> i = j)"

definition once_resp :: "(js \<Rightarrow> bool) \<Rightarrow> key \<Rightarrow> once_ghost \<Rightarrow> jop \<Rightarrow> err + js \<Rightarrow> bool" where
  "once_resp P K g c r \<longleftrightarrow> possible c r
     \<and> (\<forall>v. c = JGet K \<and> r = Inr v \<longrightarrow> (if v = JUndef then \<not> exists_known g else P v))"

lemma once_stable:
  assumes "once_allowed P K g c" and "journal_op c w = Some (r, w')"
  shows "map_of (store (journal w')) K = map_of (store (journal w)) K
    \<or> (\<exists>v. c = JPutIfAbsent K v \<and> r = JBool True \<and> map_of (store (journal w)) K = None
         \<and> map_of (store (journal w')) K = Some v \<and> P v \<and> v \<noteq> JUndef)"
  using assms
  by (cases c) (auto simp: once_allowed_def mem_put_def mem_putIfAbsent_def mem_putIfMatch_def mem_incrBy_def Let_def domIff
      map_of_deletePrefix mem_deletePrefix_def map_of_filter_key [of "\<lambda>k. \<not> prefix _ k"] split: prod.splits if_splits)

lemma once_inv_keep:
  "once_inv P K w gs \<Longrightarrow> map_of (store (journal w')) K = map_of (store (journal w)) K \<Longrightarrow> once_inv P K w' gs"
  by (simp add: once_inv_def)

lemma once_inv_create:
  assumes "once_inv P K w gs" and "map_of (store (journal w)) K = None"
    and "map_of (store (journal w')) K = Some v" and "P v" and "v \<noteq> JUndef"
  shows "once_inv P K w' gs" and "once_inv P K w' (gs(i := \<lparr>learnt = Some v, created = True, exists_known = True\<rparr>))"
proof -
  have none: "\<not> created (gs j)" "learnt (gs j) = None" "\<not> exists_known (gs j)" for j
    using assms(1,2) by (auto simp: once_inv_def)
  show "once_inv P K w' gs" "once_inv P K w' (gs(i := \<lparr>learnt = Some v, created = True, exists_known = True\<rparr>))"
    using assms none by (auto simp: once_inv_def)
qed

lemma once_inv_learn:
  assumes "once_inv P K w gs" and "map_of (store (journal w)) K = Some v"
  shows "once_inv P K w (gs(i := (gs i)\<lparr>learnt := Some v, exists_known := True\<rparr>))"
    and "once_inv P K w (gs(i := (gs i)\<lparr>exists_known := True\<rparr>))"
  using assms by (auto simp: once_inv_def)

lemma once_inv_ok:
  assumes inv: "once_inv P K w gs" and al: "once_allowed P K (gs i) c" and ok: "journal_op c w = Some (r, w')"
  shows "once_inv P K w' (gs(i := once_upd K (gs i) c (Inr r)))"
  using once_stable [OF al ok]
proof
  assume same: "map_of (store (journal w')) K = map_of (store (journal w)) K"
  note keep = once_inv_keep [OF inv same]
  show ?thesis
  proof (cases "(\<exists>v. c = JPutIfAbsent K v) \<or> c = JGet K")
    case False
    then have "once_upd K (gs i) c (Inr r) = gs i" by (cases c) (auto simp: once_upd_def)
    with keep show ?thesis by simp
  next
    case True
    then show ?thesis
    proof
      assume "\<exists>v. c = JPutIfAbsent K v"
      then obtain v where c: "c = JPutIfAbsent K v" ..
      with ok same have "r = JBool False" "map_of (store (journal w')) K \<noteq> None"
        by (auto simp: mem_putIfAbsent_cases domIff split: prod.splits if_splits)
      then show ?thesis using once_inv_learn(2) [OF keep] c by (auto simp: once_upd_def)
    next
      assume c: "c = JGet K"
      show ?thesis
      proof (cases "r = JUndef")
        case True
        with c keep show ?thesis by (simp add: once_upd_def)
      next
        case False
        with c ok have "map_of (store (journal w')) K = Some r"
          by (auto simp: mem_get_def split: option.splits)
        with False c show ?thesis using once_inv_learn(1) [OF keep] by (simp add: once_upd_def)
      qed
    qed
  qed
next
  assume "\<exists>v. c = JPutIfAbsent K v \<and> r = JBool True \<and> map_of (store (journal w)) K = None
         \<and> map_of (store (journal w')) K = Some v \<and> P v \<and> v \<noteq> JUndef"
  then show ?thesis using once_inv_create(2) [OF inv] by (auto simp: once_upd_def)
qed

lemma once_upd_fail [simp]: "once_upd K g c (Inl e) = g"
  by (cases c) (simp_all add: once_upd_def)

lemma once_inv_answer:
  assumes "once_inv P K w gs" and "once_allowed P K (gs i) c" and "answer c w r w'"
  shows "once_inv P K w' (gs(i := once_upd K (gs i) c r))"
  using assms(3)
proof cases
  case (ans_ok r0)
  then show ?thesis using once_inv_ok [OF assms(1,2)] by simp
next
  case (ans_lost r0 e)
  have "once_inv P K w' gs"
    using once_stable [OF assms(2) ans_lost(2)] once_inv_keep [OF assms(1)] once_inv_create(1) [OF assms(1)] by metis
  with ans_lost show ?thesis by simp
next
  case (ans_down r0 w0 e)
  with assms(1) show ?thesis by simp
qed (use assms(1) in \<open>simp_all add: once_inv_def once_upd_def\<close>)

lemma once_inv_responses:
  assumes "once_inv P K w gs" and "answer c w r w'"
  shows "once_resp P K (gs i) c r"
proof -
  have "if v = JUndef then \<not> exists_known (gs i) else P v" if "c = JGet K" "r = Inr v" for v
    using assms that by (auto simp: answer_JGet mem_get_def once_inv_def split: option.splits)
  then show ?thesis using assms(2) by (auto simp: once_resp_def possible_def)
qed

interpretation once: protocol "once_allowed P K" "once_upd K" once_g0 "once_inv P K" "once_resp P K" for P K
  by unfold_locales (fact once_inv_answer, simp add: once_inv_def, fact once_inv_responses)

lemma once_inv_start: "map_of (store (journal w)) K = None \<Longrightarrow> once_inv P K w (\<lambda>_. once_g0)"
  by (simp add: once_inv_def once_g0_def)

subsection \<open>Verification conditions\<close>

lemma wp_get_once:
  "wp (once_resp P K) (once_allowed P K) (once_upd K) (get K) g Q \<longleftrightarrow>
     (\<forall>r. once_resp P K g (JGet K) r \<longrightarrow> Q (once_upd K g (JGet K) r) r)"
  by (simp add: get_def wp_callp once_allowed_def)

lemma wp_claim_once:
  assumes "has_putIfAbsent J" and "P v" and "v \<noteq> JUndef"
    and "Q \<lparr>learnt = Some v, created = True, exists_known = True\<rparr> (Inr True)" and "Q (g\<lparr>exists_known := True\<rparr>) (Inr False)"
    and "\<And>e. Q g (Inl e)"
  shows "wp (once_resp P K) (once_allowed P K) (once_upd K) (claim J K v) g Q"
  using assms
  by (auto simp: claim_def putIfAbsent_def wp_bindp wp_callp once_allowed_def once_upd_def once_resp_def possible_putIfAbsent
      split: sum.splits)

text \<open>What a finished \<open>frozenGet\<close> has learnt.\<close>

definition frozen_post :: "once_ghost \<Rightarrow> err + js \<Rightarrow> bool" where
  "frozen_post g r \<longleftrightarrow> (\<forall>v. r = Inr v \<longrightarrow> (\<exists>rec. learnt g = Some rec \<and> v = js_field ''v'' rec))"

lemma calls_in_propp [simp]: "calls_in P (propp f v)"
  by (simp add: propp_def)

lemma wp_propp: "wp R A U (propp f v) g Q \<longleftrightarrow> (if v = JNull \<or> v = JUndef then Q g (Inl (Err ''TypeError'' f)) else Q g (Inr (js_field f v)))"
  by (simp add: propp_def)

abbreviation anything :: "js \<Rightarrow> bool" where
  "anything \<equiv> (\<lambda>_. True)"

lemma wp_frozenGet:
  assumes "has_putIfAbsent J" and "calls_in (once_allowed anything K once_g0) compute"
  shows "wp (once_resp anything K) (once_allowed anything K) (once_upd K) (frozenGet J K compute) once_g0 frozen_post"
proof -
  let ?again = "bindp (get K) (\<lambda>winner.
             if winner = JUndef then Raise (Err ''Error'' ''claim was lost but the record could not be read'')
             else propp ''v'' winner)"
  have read: "wp (once_resp anything K) (once_allowed anything K) (once_upd K) ?again g frozen_post" for g
    by (auto simp: wp_bindp wp_get_once wp_propp once_upd_def frozen_post_def split: sum.splits)
  have claimed: "wp (once_resp anything K) (once_allowed anything K) (once_upd K) (bindp (claim J K (JObj [(''v'', v)])) (\<lambda>won.
           if won then Ret v else ?again)) g frozen_post" for v g
    unfolding wp_bindp [of _ _ _ "claim J K (JObj [(''v'', v)])"]
    by (rule wp_claim_once [OF assms(1)]) (simp_all add: read, simp_all add: frozen_post_def)
  have comp: "wp (once_resp anything K) (once_allowed anything K) (once_upd K) (bindp compute (\<lambda>v.
         bindp (claim J K (JObj [(''v'', v)])) (\<lambda>won. if won then Ret v else ?again))) once_g0 frozen_post"
    unfolding wp_bindp [of _ _ _ compute]
    by (rule wp_calls_any [OF assms(2)])
       (simp add: once_allowed_def, simp only: claimed frozen_post_def split: sum.split, simp)
  show ?thesis
    unfolding frozenGet_def wp_bindp [of _ _ _ "get K"] wp_get_once
    by (auto simp: wp_propp comp once_upd_def frozen_post_def split: sum.splits)
qed

section \<open>Journals that differ in one record\<close>

text \<open>Two journals that differ at most in the record at \<open>k\<close>, which comes last when it is new.\<close>

definition same_but :: "key \<Rightarrow> InMemoryJournal \<Rightarrow> InMemoryJournal \<Rightarrow> bool" where
  "same_but k j j' \<longleftrightarrow> (store j' = store j \<or> (\<exists>v. map_of (store j) k = None \<and> store j' = store j @ [(k, v)]))
     \<and> (\<forall>x. x \<noteq> k \<longrightarrow> map_of (times j') x = map_of (times j) x)"

lemma js_set_new: "map_of m k = None \<Longrightarrow> js_set k v m = m @ [(k, v)]"
  by (induction m) auto

lemma run_claim_same: "has_putIfAbsent J \<Longrightarrow> \<exists>b w1. run env (claim J k v) w = (Inr b, w1) \<and> same_but k (journal w) (journal w1)"
  by (auto simp: claim_def prog_simps mem_putIfAbsent_def same_but_def js_set_new domIff)

lemma readRun_same:
  assumes "same_but k j j'" and "\<And>kd. parseJournalKey k \<noteq> Some (src, kd)"
  shows "mem_readRun src j' = mem_readRun src j"
proof -
  have "\<not> run_entry src (k, v)" for v using assms(2) by (auto simp: run_entry_def split: option.splits)
  then have rows: "filter (run_entry src) (store j') = filter (run_entry src) (store j)" and other: "(k, v) \<notin> set (filter (run_entry src) (store j))" for v
    using assms(1) by (auto simp: same_but_def)
  have "map_of (times j') (fst (snd x)) = map_of (times j) (fst (snd x))" if "x \<in> set (enumerate 0 (filter (run_entry src) (store j)))" for x
  proof -
    from that have "snd x \<in> set (filter (run_entry src) (store j))" using set_map [of snd] map_snd_enumerate by (metis image_eqI)
    then have "fst (snd x) \<noteq> k" using other [of "snd (snd x)"] by (cases "snd x") auto
    then show ?thesis using assms(1) by (simp add: same_but_def)
  qed
  then show ?thesis unfolding mem_readRun_def rows by (intro map_cong) (auto split: prod.split)
qed

section \<open>Properties\<close>

text \<open>
  C6: \<open>frozenGet\<close> freezes one decision. Whatever number of workers call it for one key, in whatever
  interleaving, with workers stopping anywhere and journal calls failing before or after they took
  effect, all calls that return a value return the same one, even when their \<open>compute\<close> functions
  produce different values. The journal has \<open>putIfAbsent\<close>, and \<open>compute\<close> does not itself write the key.
\<close>

theorem frozen_get_agrees:
  assumes "has_putIfAbsent J" and "map_of (store (journal w)) K = None"
    and "\<And>p. p \<in> S \<Longrightarrow> \<exists>compute. p = frozenGet J K compute \<and>
           calls_in (once_allowed anything K once_g0) compute"
    and "reachable S w c" and "threads c i = Some (Ret v1)" and "threads c j = Some (Ret v2)"
  shows "v1 = v2"
proof -
  have "wp (once_resp anything K) (once_allowed anything K) (once_upd K) p once_g0 frozen_post" if "p \<in> S" for p
    using assms(3) [OF that] wp_frozenGet [OF assms(1)] by blast
  then obtain gs where inv: "once_inv anything K (cworld c) gs"
    and post: "\<And>i p. threads c i = Some p \<Longrightarrow> wp (once_resp anything K) (once_allowed anything K) (once_upd K) p (gs i) frozen_post"
    using once.reachable_inv [OF assms(4) once_inv_start [OF assms(2)]] by blast
  from post [OF assms(5)] post [OF assms(6)] obtain r1 r2
    where "learnt (gs i) = Some r1" "v1 = js_field ''v'' r1" "learnt (gs j) = Some r2" "v2 = js_field ''v'' r2"
    by (auto simp: frozen_post_def)
  with inv show ?thesis unfolding once_inv_def by (metis option.inject)
qed

theorem frozen_get_agrees_witness:
  "\<exists>c v. reachable {frozenGet full_caps ''k'' (Ret (JNum 1)), frozenGet full_caps ''k'' (Ret (JNum 2))} new_world c
        \<and> threads c 0 = Some (Ret v) \<and> v = JNum 1"
proof -
  let ?S = "{frozenGet full_caps ''k'' (Ret (JNum 1)), frozenGet full_caps ''k'' (Ret (JNum 2))}"
  obtain w' where "run (\<lambda>_ _ _. Inr JUndef) (frozenGet full_caps ''k'' (Ret (JNum 1))) new_world = (Inr (JNum 1), w')"
    by (simp add: frozenGet_def claim_def full_caps_def prog_simps mem_get_def mem_putIfAbsent_def new_world_def empty_journal_def)
  from run_solo [of _ ?S, OF _ this] have r: "reachable ?S new_world (solo w' (Ret (JNum 1)))"
    by (simp add: finished_def)
  have "JNum 1 = JNum 1"
    by (rule frozen_get_agrees [OF _ _ _ r, of full_caps "''k''" 0 _ 0])
       (auto simp: full_caps_def new_world_def empty_journal_def solo_def)
  with r show ?thesis by (auto simp: solo_def)
qed

text \<open>
  A marker is consumed once. Of any number of concurrent \<open>consumeOnce\<close> calls on one marker at most
  one returns \<open>true\<close>, under every interleaving, crash and journal failure.
\<close>

theorem consume_once_at_most_one:
  assumes "has_putIfAbsent J" and "map_of (store (journal w)) K = None"
    and "reachable {consumeOnce J K} w c" and "threads c i = Some (Ret True)" and "threads c j = Some (Ret True)"
  shows "i = j"
proof -
  let ?Q = "\<lambda>g r. r = Inr True \<longrightarrow> created g"
  have "wp (once_resp anything K) (once_allowed anything K) (once_upd K) (consumeOnce J K) once_g0 ?Q"
    unfolding consumeOnce_def date_now_def bindp_assoc wp_bindp wp_callp
    by (auto simp: once_allowed_def once_upd_def intro!: wp_claim_once [OF assms(1)] split: sum.split)
  then obtain gs where inv: "once_inv anything K (cworld c) gs"
    and post: "\<And>i p. threads c i = Some p \<Longrightarrow> wp (once_resp anything K) (once_allowed anything K) (once_upd K) p (gs i) ?Q"
    using once.reachable_inv [OF assms(3) once_inv_start [OF assms(2)]] by blast
  from post [OF assms(4)] post [OF assms(5)] inv show ?thesis by (simp add: once_inv_def)
qed

theorem consume_once_at_most_one_witness:
  "\<exists>c i. reachable {consumeOnce full_caps ''m''} new_world c \<and> threads c i = Some (Ret True) \<and> i = 0"
proof -
  obtain w' where "run (\<lambda>_ _ _. Inr JUndef) (consumeOnce full_caps ''m'') new_world = (Inr True, w')"
    by (simp add: consumeOnce_def claim_def full_caps_def prog_simps mem_putIfAbsent_def new_world_def empty_journal_def)
  from run_solo [OF singletonI this] have r: "reachable {consumeOnce full_caps ''m''} new_world (solo w' (Ret True))"
    by (simp add: finished_def)
  have "(0::nat) = 0"
    by (rule consume_once_at_most_one [OF _ _ r])
       (auto simp: full_caps_def new_world_def empty_journal_def solo_def)
  with r show ?thesis by (auto simp: solo_def)
qed

end
