(* ===== verification/RunIdentity.thy ===== *)
theory RunIdentity
  imports JournalOps
begin

text \<open>
  Who a run belongs to and who may act on it (\<open>packages/durable/src/run-identity.ts\<close> and
  \<open>identity-types.ts\<close>).

  \<open>view\<close> is the brand that marks an end user's view of a journal; decisions refuse such a view. The
  getter \<open>closeLegacyResourceId\<close> installs on tool options is left out.
\<close>

section \<open>Definitions\<close>

datatype Caller = UserCaller string "string option" | StaffCaller "string option" | UnknownCaller

record RunIdentity =
  ri_caller :: Caller
  ri_runId :: string
  ri_threadId :: "string option"
  ri_parentRunId :: "string option"

definition STAFF :: Caller where "STAFF = StaffCaller None"
definition UNKNOWN :: Caller where "UNKNOWN = UnknownCaller"

definition user :: "string \<Rightarrow> string option \<Rightarrow> err + Caller" where
  "user i orgId = (if i = [] then Inl (Err ''TypeError'' ''a user caller needs a non-empty id'') else Inr (UserCaller i orgId))"

definition staff :: "string option \<Rightarrow> Caller" where
  "staff orgId = (case orgId of None \<Rightarrow> STAFF | Some og \<Rightarrow> StaffCaller (Some og))"

definition callerFromResourceId :: "string option \<Rightarrow> string option \<Rightarrow> err + Caller" where
  "callerFromResourceId resourceId orgId =
     (case resourceId of Some r \<Rightarrow> if r \<noteq> [] then user r orgId else Inr UNKNOWN | None \<Rightarrow> Inr UNKNOWN)"

fun callerOf :: "Caller \<Rightarrow> err + Caller" where
  "callerOf (UserCaller i og) = user i og"
| "callerOf (StaffCaller og) = Inr (staff og)"
| "callerOf UnknownCaller = Inr UNKNOWN"

fun userIdOf :: "Caller \<Rightarrow> string option" where
  "userIdOf (UserCaller i og) = Some i"
| "userIdOf _ = None"

record SealFields =
  seal_resourceId :: "string option"
  seal_orgId :: "string option"
  seal_staff :: bool

definition sealFieldsOf :: "Caller \<Rightarrow> string option \<Rightarrow> SealFields" where
  "sealFieldsOf caller orgId =
     \<lparr>seal_resourceId = userIdOf caller, seal_orgId = orgId, seal_staff = (case caller of StaffCaller _ \<Rightarrow> True | _ \<Rightarrow> False)\<rparr>"

definition org_agrees :: "string option \<Rightarrow> string option \<Rightarrow> bool" where
  "org_agrees a b \<longleftrightarrow> a = None \<or> b = None \<or> a = b"

fun sameParty :: "Caller \<Rightarrow> Caller \<Rightarrow> bool" where
  "sameParty (UserCaller i ao) (UserCaller k bo) = (i = k \<and> org_agrees ao bo)"
| "sameParty (StaffCaller ao) (StaffCaller bo) = org_agrees ao bo"
| "sameParty UnknownCaller UnknownCaller = True"
| "sameParty _ _ = False"

text \<open>\<open>declared\<close> is the pair of the optional \<open>caller\<close> and the optional \<open>resourceId\<close> of a call.\<close>

definition resolveCaller :: "SealFields \<Rightarrow> Caller option \<Rightarrow> string option \<Rightarrow> err + Caller" where
  "resolveCaller seal caller resourceId =
     (let conflict = Inl (Err ''TypeError'' ''one caller per call'') in
      case (case caller of None \<Rightarrow> Inr None | Some c \<Rightarrow> map_sum id Some (callerOf c)) of
        Inl e \<Rightarrow> Inl e
      | Inr named \<Rightarrow>
          if (case (named, resourceId) of (Some n, Some r) \<Rightarrow> userIdOf n \<noteq> Some r | _ \<Rightarrow> False) then conflict
          else
            (case (case seal_resourceId seal of
                     Some r \<Rightarrow> map_sum id Some (user r (seal_orgId seal))
                   | None \<Rightarrow> Inr (if seal_staff seal then Some (staff (seal_orgId seal)) else None)) of
               Inl e \<Rightarrow> Inl e
             | Inr None \<Rightarrow> (case named of Some n \<Rightarrow> Inr n | None \<Rightarrow> callerFromResourceId resourceId (seal_orgId seal))
             | Inr (Some sealed) \<Rightarrow>
                 (case named of
                    Some n \<Rightarrow> if sameParty sealed n then Inr sealed else conflict
                  | None \<Rightarrow> Inr sealed)))"

definition truthy_id :: "string option \<Rightarrow> string option" where
  "truthy_id x = (if x = Some [] then None else x)"

definition runIdentity :: "Caller \<Rightarrow> string \<Rightarrow> string option \<Rightarrow> string option \<Rightarrow> err + RunIdentity" where
  "runIdentity c runId threadId parentRunId =
     map_sum id (\<lambda>k. \<lparr>ri_caller = k, ri_runId = runId, ri_threadId = truthy_id threadId, ri_parentRunId = truthy_id parentRunId\<rparr>)
       (callerOf c)"

definition childIdentity :: "RunIdentity \<Rightarrow> string \<Rightarrow> string option \<Rightarrow> err + RunIdentity" where
  "childIdentity parent childRunId threadId =
     (let thread = (case threadId of Some t \<Rightarrow> Some t | None \<Rightarrow> ri_threadId parent)
      in runIdentity (ri_caller parent) childRunId thread (Some (ri_runId parent)))"

text \<open>The \<open>gnl\<close> member of tool options, when present, carries the identity of the run.\<close>

definition identityOf :: "RunIdentity option \<Rightarrow> RunIdentity" where
  "identityOf g =
     (case g of Some i \<Rightarrow> i
      | None \<Rightarrow> \<lparr>ri_caller = UnknownCaller, ri_runId = [], ri_threadId = None, ri_parentRunId = None\<rparr>)"

datatype RunKind = KAgent | KWorkflow | KNetwork | KBatch | KOther

datatype RunOwner = Missing | Owned Caller RunKind bool js | Unreadable err

definition assertRaw :: "bool \<Rightarrow> unit prog" where
  "assertRaw view = (if view then Raise (Err ''TypeError'' ''handed an end user view'') else Ret ())"

fun is_js_string :: "js \<Rightarrow> bool" where
  "is_js_string (JStr s) = True"
| "is_js_string _ = False"

definition org_of_record :: "js \<Rightarrow> string option" where
  "org_of_record r = (case js_field ''orgId'' r of JStr s \<Rightarrow> Some s | _ \<Rightarrow> None)"

definition recordOwner :: "js \<Rightarrow> Caller option" where
  "recordOwner rec =
     (case rec of
        JObj _ \<Rightarrow>
          if \<not> isVersionedRecord rec then Some STAFF
          else (case js_field ''resourceId'' rec of
                  JStr (c # s) \<Rightarrow> Some (UserCaller (c # s) (org_of_record rec))
                | _ \<Rightarrow> if js_field ''ownerKind'' rec = JStr ''unknown'' then Some UNKNOWN else Some (staff (org_of_record rec)))
      | JArr _ \<Rightarrow> Some STAFF
      | _ \<Rightarrow> None)"

definition kindOf :: "js \<Rightarrow> RunKind" where
  "kindOf rec =
     (if is_js_string (js_field ''workflow'' rec) then KWorkflow
      else if is_js_string (js_field ''network'' rec) then KNetwork
      else if is_js_string (js_field ''batch'' rec) then KBatch
      else if js_field ''prompt'' rec \<noteq> JUndef \<or> js_field ''messages'' rec \<noteq> JUndef then KAgent
      else KOther)"

definition PROBE_KEYS :: "string \<Rightarrow> key list" where
  "PROBE_KEYS runId = [key_model runId ''0'', runId @ '':outcome'', runId @ '':wf:_input'', runId @ '':net:route:0'']"

definition isBookkeeping :: "string \<Rightarrow> bool" where
  "isBookkeeping rest \<longleftrightarrow> rest = ''lock'' \<or> suffix '':lock'' rest \<or> rest = ''swept'' \<or> prefix ''cfg:'' rest \<or> prefix ''proc:__gnl_taint'' rest"

definition PROBE_LIMIT :: nat where "PROBE_LIMIT = 16"

primrec any_present :: "key list \<Rightarrow> bool prog" where
  "any_present [] = Ret False"
| "any_present (k # ks) = bindp (get k) (\<lambda>v. if v \<noteq> JUndef then Ret True else any_present ks)"

definition rowsPresent :: "caps \<Rightarrow> string \<Rightarrow> bool prog" where
  "rowsPresent J runId =
     bindp (get (''wfrun:'' @ runId)) (\<lambda>v.
       if v \<noteq> JUndef then Ret True
       else if has_listKeys J then
         bindp (listKeysUpTo (runId @ '':'') PROBE_LIMIT) (\<lambda>ks.
           Ret (list_ex (\<lambda>k. \<not> isBookkeeping (drop (length (runId @ '':'')) k)) ks))
       else any_present (PROBE_KEYS runId))"

definition runOwnerOf :: "caps \<Rightarrow> bool \<Rightarrow> string \<Rightarrow> RunOwner prog" where
  "runOwnerOf J view runId =
     seqp (assertRaw view)
       (catchp
         (bindp (get (key_input runId)) (\<lambda>rec.
           case recordOwner rec of
             Some ow \<Rightarrow> Ret (Owned ow (kindOf rec) (isVersionedRecord rec) rec)
           | None \<Rightarrow>
               bindp (rowsPresent J runId) (\<lambda>rows.
                 if rows then
                   bindp (get (key_input runId)) (\<lambda>again.
                     case recordOwner again of
                       Some born \<Rightarrow> Ret (Owned born (kindOf again) (isVersionedRecord again) again)
                     | None \<Rightarrow> Ret (Owned STAFF KOther False JUndef))
                 else Ret Missing)))
         (\<lambda>e. Ret (Unreadable e)))"

datatype RunDecision = Allow | Deny | NoRun

fun decideRunAccess :: "RunOwner \<Rightarrow> Caller \<Rightarrow> RunDecision" where
  "decideRunAccess (Unreadable e) caller = Deny"
| "decideRunAccess Missing caller = NoRun"
| "decideRunAccess (Owned ow k rc rec) (StaffCaller og) = Allow"
| "decideRunAccess (Owned ow k rc rec) UnknownCaller = (if ow = UnknownCaller then Allow else Deny)"
| "decideRunAccess (Owned ow k rc rec) (UserCaller i og) = (if userIdOf ow = Some i then Allow else Deny)"

definition decideRun :: "caps \<Rightarrow> bool \<Rightarrow> string \<Rightarrow> Caller \<Rightarrow> RunDecision prog" where
  "decideRun J view runId caller = bindp (runOwnerOf J view runId) (\<lambda>ow. Ret (decideRunAccess ow caller))"

definition actingCaller :: "RunOwner \<Rightarrow> Caller \<Rightarrow> err + Caller option" where
  "actingCaller owner caller =
     (case decideRunAccess owner caller of
        NoRun \<Rightarrow> map_sum id Some (callerOf caller)
      | Deny \<Rightarrow> Inr None
      | Allow \<Rightarrow> (case owner of Owned ow k rc rec \<Rightarrow> Inr (Some ow) | _ \<Rightarrow> Inr None))"

fun ownerFields :: "Caller \<Rightarrow> js_record" where
  "ownerFields (UserCaller i og) = (''resourceId'', JStr i) # (case og of Some x \<Rightarrow> [(''orgId'', JStr x)] | None \<Rightarrow> [])"
| "ownerFields (StaffCaller og) = (''ownerKind'', JStr ''staff'') # (case og of Some x \<Rightarrow> [(''orgId'', JStr x)] | None \<Rightarrow> [])"
| "ownerFields UnknownCaller = [(''ownerKind'', JStr ''unknown'')]"

text \<open>\<open>{ ...base, ...extra }\<close>\<close>

definition spread :: "js_record \<Rightarrow> js_record \<Rightarrow> js_record" where
  "spread base extra = foldl (\<lambda>m kv. js_set (fst kv) (snd kv) m) base extra"

definition owner_record :: "int \<Rightarrow> js_record \<Rightarrow> Caller \<Rightarrow> js" where
  "owner_record at flds caller = JObj (stampFormat (spread (spread [(''at'', JNum at)] flds) (ownerFields caller)))"

definition claimRunOwner :: "caps \<Rightarrow> bool \<Rightarrow> string \<Rightarrow> Caller \<Rightarrow> js_record \<Rightarrow> Caller prog" where
  "claimRunOwner J view runId caller flds =
     seqp (assertRaw view)
       (bindp date_now (\<lambda>at.
         seqp (claim J (key_input runId) (owner_record at flds caller))
           (bindp (get (key_input runId)) (\<lambda>rec.
             case recordOwner rec of Some ow \<Rightarrow> Ret ow | None \<Rightarrow> liftp (callerOf caller)))))"

definition inheritRunOwner :: "caps \<Rightarrow> bool \<Rightarrow> string \<Rightarrow> string \<Rightarrow> js_record \<Rightarrow> Caller prog" where
  "inheritRunOwner J view srcRunId dstRunId flds =
     bindp (runOwnerOf J view srcRunId) (\<lambda>src.
       case src of
         Unreadable e \<Rightarrow> Raise e
       | Missing \<Rightarrow> Raise (Err ''Error'' ''run does not exist'')
       | Owned ow k rc rec \<Rightarrow> claimRunOwner J view dstRunId ow flds)"

definition fieldsOwner :: "js \<Rightarrow> Caller" where
  "fieldsOwner rec =
     (case js_field ''resourceId'' rec of
        JStr (c # s) \<Rightarrow> UserCaller (c # s) None
      | _ \<Rightarrow> if js_field ''ownerKind'' rec = JStr ''staff'' then STAFF else UNKNOWN)"

fun ownerLabel :: "Caller \<Rightarrow> string" where
  "ownerLabel (UserCaller i og) = i"
| "ownerLabel (StaffCaller og) = ''(staff)''"
| "ownerLabel UnknownCaller = ''(unknown)''"

definition owner_mismatch :: err where
  "owner_mismatch = Err ''RunOwnerMismatchError'' ''run belongs to a different subject''"

fun admit_decided ::
  "caps \<Rightarrow> bool \<Rightarrow> string \<Rightarrow> Caller \<Rightarrow> js_record option \<Rightarrow> RunOwner \<Rightarrow> (Caller \<times> RunOwner) prog" where
  "admit_decided J view runId caller birth (Unreadable e) = Raise e"
| "admit_decided J view runId caller birth (Owned ow k rc rec) =
     bindp (liftp (actingCaller (Owned ow k rc rec) caller)) (\<lambda>acting.
       case acting of None \<Rightarrow> Raise owner_mismatch | Some a \<Rightarrow> Ret (a, Owned ow k rc rec))"
| "admit_decided J view runId caller birth Missing =
     bindp (liftp (actingCaller Missing caller)) (\<lambda>acting.
       case acting of
         None \<Rightarrow> Raise owner_mismatch
       | Some a \<Rightarrow>
           (case birth of
              None \<Rightarrow> Ret (a, Missing)
            | Some flds \<Rightarrow>
                bindp (claimRunOwner J view runId a flds) (\<lambda>recorded.
                  bindp (liftp (actingCaller (Owned recorded KOther True JUndef) caller)) (\<lambda>again.
                    case again of
                      None \<Rightarrow> Raise owner_mismatch
                    | Some b \<Rightarrow> Ret (b, Owned recorded KOther True JUndef)))))"

definition admitRun :: "caps \<Rightarrow> bool \<Rightarrow> string \<Rightarrow> Caller \<Rightarrow> js_record option \<Rightarrow> (Caller \<times> RunOwner) prog" where
  "admitRun J view runId caller birth = bindp (runOwnerOf J view runId) (admit_decided J view runId caller birth)"

section \<open>The owner record\<close>

lemma spread_lookup:
  "distinct (map fst extra) \<Longrightarrow>
   map_of (spread base extra) f = (case map_of extra f of Some v \<Rightarrow> Some v | None \<Rightarrow> map_of base f)"
proof (induction extra arbitrary: base)
  case (Cons kv extra)
  then have none: "map_of extra (fst kv) = None" by (simp add: map_of_eq_None_iff)
  have "map_of (spread base (kv # extra)) f = map_of (spread (js_set (fst kv) (snd kv) base) extra) f"
    by (simp add: spread_def)
  also have "\<dots> = (case map_of extra f of Some v \<Rightarrow> Some v | None \<Rightarrow> map_of (js_set (fst kv) (snd kv) base) f)"
    using Cons by simp
  finally show ?case
    using none by (cases kv) (auto split: option.splits)
qed (simp add: spread_def)

lemma owner_record_versioned: "isVersionedRecord (owner_record at flds c)"
  by (simp add: isVersionedRecord_def owner_record_def stampFormat_def)

lemma owner_fields_distinct: "distinct (map fst (ownerFields c))"
  by (cases c) (auto split: option.splits)

text \<open>The record a birth writes names its caller, when the extra fields do not themselves speak about the owner.\<close>

definition no_owner_fields :: "js_record \<Rightarrow> bool" where
  "no_owner_fields flds \<longleftrightarrow> distinct (map fst flds) \<and> (\<forall>f \<in> {''resourceId'', ''orgId'', ''ownerKind''}. map_of flds f = None)"

fun valid_caller :: "Caller \<Rightarrow> bool" where
  "valid_caller (UserCaller i og) = (i \<noteq> [])"
| "valid_caller _ = True"

lemma owner_record_field:
  assumes "no_owner_fields flds" and "f \<in> {''resourceId'', ''orgId'', ''ownerKind''}"
  shows "js_field f (owner_record at flds c) = (case map_of (ownerFields c) f of Some v \<Rightarrow> v | None \<Rightarrow> JUndef)"
proof -
  have "map_of flds f = None" "distinct (map fst flds)" "f \<noteq> ''at''" "f \<noteq> ''_v''"
    using assms by (auto simp: no_owner_fields_def)
  then show ?thesis
    by (simp add: owner_record_def stampFormat_def spread_lookup [OF owner_fields_distinct] spread_lookup split: option.split)
qed

lemma recordOwner_owner_record:
  assumes "no_owner_fields flds" and "valid_caller c"
  shows "recordOwner (owner_record at flds c) = Some c"
proof -
  note f = owner_record_field [OF assms(1), of _ at c]
  have "\<exists>kvs. owner_record at flds c = JObj kvs" by (simp add: owner_record_def)
  then have "recordOwner (owner_record at flds c) =
      (case js_field ''resourceId'' (owner_record at flds c) of
         JStr (x # s) \<Rightarrow> Some (UserCaller (x # s) (org_of_record (owner_record at flds c)))
       | _ \<Rightarrow> if js_field ''ownerKind'' (owner_record at flds c) = JStr ''unknown'' then Some UNKNOWN
              else Some (staff (org_of_record (owner_record at flds c))))"
    using owner_record_versioned by (auto simp: recordOwner_def)
  then show ?thesis
    using assms(2) f [of "''resourceId''"] f [of "''ownerKind''"] f [of "''orgId''"]
    by (cases c) (auto simp: org_of_record_def UNKNOWN_def staff_def STAFF_def neq_Nil_conv split: option.splits)
qed

section \<open>Concurrent admissions\<close>

definition names_owner :: "js \<Rightarrow> bool" where
  "names_owner v \<longleftrightarrow> (\<exists>c. recordOwner v = Some c)"

lemma names_owner_record: "names_owner (owner_record at flds c)" "owner_record at flds c \<noteq> JUndef"
  using owner_record_versioned [of at flds c]
  by (auto simp: names_owner_def recordOwner_def owner_record_def split: js.splits list.splits)

definition learnt_owner :: "once_ghost \<Rightarrow> Caller \<Rightarrow> bool" where
  "learnt_owner g ow \<longleftrightarrow> (\<exists>rec. learnt g = Some rec \<and> recordOwner rec = Some ow)"

abbreviation owner_wp :: "string \<Rightarrow> 'a prog \<Rightarrow> once_ghost \<Rightarrow> (once_ghost \<Rightarrow> err + 'a \<Rightarrow> bool) \<Rightarrow> bool" where
  "owner_wp r \<equiv> wp (once_resp names_owner (key_input r)) (once_allowed names_owner (key_input r)) (once_upd (key_input r))"

lemma recordOwner_not_undef: "recordOwner v = Some c \<Longrightarrow> v \<noteq> JUndef"
  by (auto simp: recordOwner_def)

lemma wp_claimRunOwner:
  assumes "has_putIfAbsent J"
  shows "owner_wp r (claimRunOwner J view r c flds) g (\<lambda>g' res. \<forall>ow. res = Inr ow \<longrightarrow> learnt_owner g' ow)"
proof -
  have read: "owner_wp r (bindp (get (key_input r)) (\<lambda>rec. case recordOwner rec of Some ow \<Rightarrow> Ret ow | None \<Rightarrow> liftp (callerOf c))) g'
      (\<lambda>g' res. \<forall>ow. res = Inr ow \<longrightarrow> learnt_owner g' ow)" if "exists_known g'" for g'
    using that
    by (auto simp: wp_bindp wp_get_once once_resp_def once_upd_def names_owner_def learnt_owner_def dest: recordOwner_not_undef
        split: sum.splits option.splits if_splits)
  show ?thesis
    unfolding claimRunOwner_def assertRaw_def date_now_def
    by (auto simp: wp_bindp [of _ _ _ "callp DateNow"] wp_bindp [of _ _ _ "bindp (callp DateNow) _"] wp_seqp wp_callp once_allowed_def once_upd_def read intro!: wp_claim_once [OF assms] names_owner_record
        split: sum.split)
qed

lemma calls_in_any_present: "calls_in (once_allowed P K g) (any_present ks)"
  by (induction ks) (auto simp: once_allowed_def)

lemma calls_in_rowsPresent: "calls_in (once_allowed P K g) (rowsPresent J r)"
  unfolding rowsPresent_def
  by (auto intro!: calls_in_bindp calls_in_ops_bound calls_in_any_present simp: once_allowed_def)

definition owned_post :: "once_ghost \<Rightarrow> err + RunOwner \<Rightarrow> bool" where
  "owned_post g res = (case res of Inr (Owned ow k rc rec) \<Rightarrow> learnt_owner g ow \<or> ow = STAFF | _ \<Rightarrow> True)"

lemma owned_post_simps [simp]:
  "owned_post g (Inl e)" "owned_post g (Inr Missing)" "owned_post g (Inr (Unreadable e))" "owned_post g (Inr (Owned STAFF k rc rec))"
  by (simp_all add: owned_post_def)

lemma owned_post_learnt:
  "recordOwner v = Some ow \<Longrightarrow> owned_post (once_upd K g (JGet K) (Inr v)) (Inr (Owned ow k rc rec))"
  using recordOwner_not_undef by (auto simp: owned_post_def once_upd_def learnt_owner_def)

lemma wp_read_owner:
  assumes "\<And>g. owner_wp r rest g owned_post"
  shows "owner_wp r (bindp (get (key_input r)) (\<lambda>rec.
        case recordOwner rec of
          Some born \<Rightarrow> Ret (Owned born (kindOf rec) (isVersionedRecord rec) rec)
        | None \<Rightarrow> rest)) g owned_post"
  by (auto simp: wp_bindp wp_get_once owned_post_learnt assms split: sum.split option.split)

lemma wp_runOwnerOf: "owner_wp r (runOwnerOf J view r) g owned_post"
proof -
  have rows: "owner_wp r (bindp (rowsPresent J r) (\<lambda>rows.
        if rows then bindp (get (key_input r)) (\<lambda>again.
          case recordOwner again of
            Some born \<Rightarrow> Ret (Owned born (kindOf again) (isVersionedRecord again) again)
          | None \<Rightarrow> Ret (Owned STAFF KOther False JUndef))
        else Ret Missing)) g' owned_post" for g'
    unfolding wp_bindp [of _ _ _ "rowsPresent J r"]
    by (rule wp_calls_any [OF calls_in_rowsPresent])
       (auto simp: once_allowed_def intro!: wp_read_owner split: sum.split)
  show ?thesis
    unfolding runOwnerOf_def assertRaw_def wp_seqp wp_catchp
    by (auto intro!: wp_mono [OF wp_read_owner [OF rows]] split: sum.split)
qed

definition admit_post :: "string \<Rightarrow> once_ghost \<Rightarrow> err + Caller \<times> RunOwner \<Rightarrow> bool" where
  "admit_post u g res = (case res of Inr (a, ow) \<Rightarrow> learnt_owner g a \<and> userIdOf a = Some u | Inl e \<Rightarrow> True)"

lemma acting_user:
  "actingCaller (Owned ow k rc rec) (UserCaller u og) = Inr (if userIdOf ow = Some u then Some ow else None)"
  "actingCaller Missing c = map_sum id Some (callerOf c)"
  by (simp_all add: actingCaller_def)

lemma wp_admit_decided:
  assumes "has_putIfAbsent J" and "owned_post g (Inr owner)"
  shows "owner_wp r (admit_decided J view r (UserCaller u og) (Some flds) owner) g (admit_post u)"
proof (cases owner)
  case Missing
  have "owner_wp r (bindp (claimRunOwner J view r c flds) (\<lambda>recorded.
        bindp (liftp (actingCaller (Owned recorded KOther True JUndef) (UserCaller u og))) (\<lambda>again.
          case again of None \<Rightarrow> Raise owner_mismatch | Some b \<Rightarrow> Ret (b, Owned recorded KOther True JUndef)))) g (admit_post u)" for c
    unfolding wp_bindp [of _ _ _ "claimRunOwner J view r c flds"]
    by (rule wp_mono [OF wp_claimRunOwner [OF assms(1)]])
       (auto simp: acting_user admit_post_def split: sum.split)
  with Missing show ?thesis
    by (auto simp: acting_user(2) wp_bindp [of _ _ _ "liftp _"] wp_liftp user_def admit_post_def)
next
  case (Owned ow k rc rec)
  with assms(2) show ?thesis
    by (auto simp: acting_user owned_post_def admit_post_def STAFF_def)
qed (simp add: admit_post_def)

lemma wp_admitRun:
  assumes "has_putIfAbsent J"
  shows "owner_wp r (admitRun J view r (UserCaller u og) (Some flds)) g (admit_post u)"
  unfolding admitRun_def wp_bindp
  by (rule wp_mono [OF wp_runOwnerOf])
     (auto simp: wp_admit_decided [OF assms] admit_post_def split: sum.split)

section \<open>Properties\<close>



text \<open>
  What the recorded owner lets happen. The record a birth writes is read back as its caller, and
  from then on the run is open to staff, to the same user, and, for a run without a known owner, to
  unknown callers; everyone else is denied. A user of one organisation and the same user id of another are told apart by
  the journal they see, not by this decision.
\<close>

theorem owner_record_decides_access:
  assumes "no_owner_fields flds" and "valid_caller c"
  shows "recordOwner (owner_record at flds c) = Some c
    \<and> decideRunAccess (Owned c k rc rec) x =
        (case x of StaffCaller _ \<Rightarrow> Allow
         | UnknownCaller \<Rightarrow> (if c = UnknownCaller then Allow else Deny)
         | UserCaller i _ \<Rightarrow> (if userIdOf c = Some i then Allow else Deny))"
  using recordOwner_owner_record [OF assms] by (cases x) auto

theorem owner_record_decides_access_witness:
  "recordOwner (owner_record 7 [(''prompt'', JStr ''hi'')] (UserCaller ''ann'' (Some ''o1''))) = Some (UserCaller ''ann'' (Some ''o1''))"
  using owner_record_decides_access [of "[(''prompt'', JStr ''hi'')]" "UserCaller ''ann'' (Some ''o1'')" 7 KAgent True JUndef UnknownCaller]
  by (simp add: no_owner_fields_def)

text \<open>
  A sealed request context cannot be overruled. When the context is sealed for a user or for
  staff, \<open>resolveCaller\<close> answers that caller or refuses the call, whatever the call itself declares; a declaration
  of someone else is always refused.
\<close>

theorem sealed_context_decides_caller:
  assumes "seal_resourceId seal = Some u \<or> (seal_resourceId seal = None \<and> seal_staff seal)"
    and "resolveCaller seal declared resourceId = Inr c"
  shows "c = (case seal_resourceId seal of Some u \<Rightarrow> UserCaller u (seal_orgId seal) | None \<Rightarrow> staff (seal_orgId seal))
    \<and> (\<forall>d. declared = Some d \<longrightarrow> sameParty c d)"
proof -
  have self: "map_sum id Some (callerOf d) = Inr y \<Longrightarrow> y = Some d" for d y
    by (cases d) (auto simp: user_def staff_def STAFF_def UNKNOWN_def split: if_splits option.splits)
  show ?thesis
    using assms
    by (auto simp: resolveCaller_def Let_def user_def staff_def STAFF_def split: option.splits sum.splits if_splits prod.splits dest!: self)
qed

theorem sealed_context_decides_caller_witness:
  "(\<forall>c. resolveCaller \<lparr>seal_resourceId = Some ''ann'', seal_orgId = None, seal_staff = False\<rparr> (Some (UserCaller ''bob'' None)) None \<noteq> Inr c)
   \<and> resolveCaller \<lparr>seal_resourceId = Some ''ann'', seal_orgId = None, seal_staff = False\<rparr> None (Some ''bob'') = Inr (UserCaller ''ann'' None)"
proof -
  let ?s = "\<lparr>seal_resourceId = Some ''ann'', seal_orgId = None, seal_staff = False\<rparr>"
  have "False" if "resolveCaller ?s (Some (UserCaller ''bob'' None)) None = Inr c" for c
    using sealed_context_decides_caller [of ?s "''ann''", OF _ that] by auto
  moreover have "resolveCaller ?s None (Some ''bob'') = Inr (UserCaller ''ann'' None)"
    by (simp add: resolveCaller_def user_def)
  ultimately show ?thesis by blast
qed

end
