(* ===== verification/Taint.thy ===== *)
theory Taint
  imports RunIdentity
begin

text \<open>
  The taint marks that untrusted content leaves on a run and on its thread
  (\<open>packages/durable/src/taint.ts\<close>), and the incident ledger (\<open>incidents.ts\<close>).

  A taint without its time is the list of its properties. \<open>sha256\<close> is the hash function of
  \<open>argsHash\<close>. Errors written to the console are left out. Working memory, when the caller hands a reader in, is outside code.
\<close>

section \<open>Definitions\<close>

definition taintKey :: "string \<Rightarrow> key" where "taintKey runId = runId @ '':proc:__gnl_taint''"
definition threadTaintKey :: "string \<Rightarrow> key" where "threadTaintKey threadId = ''thread:'' @ threadId @ '':taint''"
definition threadTaintProvenanceKey :: "string \<Rightarrow> key" where "threadTaintProvenanceKey threadId = ''thread:'' @ threadId @ '':taintProv''"
definition directTaintKey :: "string \<Rightarrow> key" where "directTaintKey runId = runId @ '':proc:__gnl_taint_direct''"

definition TAINT_PROVENANCE_MAX_HASHES :: nat where "TAINT_PROVENANCE_MAX_HASHES = 512"

definition taintContentHash :: "(string \<Rightarrow> string) \<Rightarrow> js \<Rightarrow> err + string" where
  "taintContentHash sha256 message = argsHash sha256 message"

primrec claim_attempts :: "nat \<Rightarrow> caps \<Rightarrow> key \<Rightarrow> js \<Rightarrow> unit prog" where
  "claim_attempts 0 J key rec = Ret ()"
| "claim_attempts (Suc n) J key rec =
     catchp (bindp (claim J key rec) (\<lambda>_. Ret ())) (\<lambda>_. claim_attempts n J key rec)"

definition claimTaint :: "caps \<Rightarrow> key \<Rightarrow> js \<Rightarrow> unit prog" where
  "claimTaint J key rec = claim_attempts 3 J key rec"

definition markRunTainted :: "caps \<Rightarrow> string \<Rightarrow> js_record \<Rightarrow> string option \<Rightarrow> unit prog" where
  "markRunTainted J runId taint threadId =
     bindp date_now (\<lambda>at.
       let rec = JObj (spread [(''at'', JNum at)] taint) in
       seqp (claimTaint J (taintKey runId) rec)
         (case threadId of
            None \<Rightarrow> Ret ()
          | Some thr \<Rightarrow>
              seqp (claimTaint J (threadTaintKey thr) rec)
                (if record_field ''source'' taint \<noteq> JStr ''inherited'' then claimTaint J (directTaintKey runId) rec else Ret ())))"

definition readRunTaint :: "string \<Rightarrow> js prog" where "readRunTaint runId = get (taintKey runId)"
definition readThreadTaint :: "string \<Rightarrow> js prog" where "readThreadTaint threadId = get (threadTaintKey threadId)"
definition readDirectRunTaint :: "string \<Rightarrow> js prog" where "readDirectRunTaint runId = get (directTaintKey runId)"
definition readTaintProvenance :: "string \<Rightarrow> js prog" where "readTaintProvenance threadId = get (threadTaintProvenanceKey threadId)"

fun sequence_sum :: "(err + 'a) list \<Rightarrow> err + 'a list" where
  "sequence_sum [] = Inr []"
| "sequence_sum (Inl e # r) = Inl e"
| "sequence_sum (Inr x # r) = map_sum id ((#) x) (sequence_sum r)"

text \<open>\<open>[...new Set(xs)]\<close>: the first occurrence of each element, in order.\<close>

definition unique :: "js list \<Rightarrow> js list" where
  "unique xs = rev (remdups (rev xs))"

definition merge_provenance :: "js \<Rightarrow> js list \<Rightarrow> js" where
  "merge_provenance cur incoming =
     (let merged = unique (js_elems (js_field ''hashes'' cur) @ incoming) in
      if js_truthy (js_field ''overflow'' cur) \<or> TAINT_PROVENANCE_MAX_HASHES < length merged
      then JObj [(''hashes'', JArr (take TAINT_PROVENANCE_MAX_HASHES merged)), (''overflow'', JBool True)]
      else JObj [(''hashes'', JArr merged)])"

text \<open>One pass of the retry loop: \<open>True\<close> when the record has been written.\<close>

definition provenance_attempt :: "caps \<Rightarrow> key \<Rightarrow> js list \<Rightarrow> bool prog" where
  "provenance_attempt J key incoming =
     bindp (get key) (\<lambda>cur.
       let next = merge_provenance cur incoming in
       if cur \<noteq> JUndef \<and> has_putIfMatch J then putIfMatch key cur next
       else if cur = JUndef \<and> has_putIfAbsent J then putIfAbsent key next
       else seqp (put key next) (Ret True))"

primrec provenance_attempts :: "nat \<Rightarrow> caps \<Rightarrow> key \<Rightarrow> js list \<Rightarrow> unit prog" where
  "provenance_attempts 0 J key incoming = Ret ()"
| "provenance_attempts (Suc n) J key incoming =
     bindp (catchp (provenance_attempt J key incoming) (\<lambda>_. Ret False)) (\<lambda>done.
       if done then Ret () else provenance_attempts n J key incoming)"

definition recordTaintProvenance :: "(string \<Rightarrow> string) \<Rightarrow> caps \<Rightarrow> string \<Rightarrow> js list \<Rightarrow> unit prog" where
  "recordTaintProvenance sha256 J threadId messages =
     (if messages = [] then Ret ()
      else bindp (liftp (sequence_sum (map (taintContentHash sha256) messages))) (\<lambda>hs.
        provenance_attempts 3 J (threadTaintProvenanceKey threadId) (map JStr hs)))"

text \<open>\<open>workingMemory\<close>: whether a reader of the working memory was handed in.\<close>

definition isThreadTaintExpired :: "(string \<Rightarrow> string) \<Rightarrow> string \<Rightarrow> js list \<Rightarrow> bool \<Rightarrow> bool prog" where
  "isThreadTaintExpired sha256 threadId visibleMessages workingMemory =
     bindp (readTaintProvenance threadId) (\<lambda>prov.
       let hashes = js_elems (js_field ''hashes'' prov) in
       if \<not> js_truthy prov \<or> hashes = [] \<or> js_truthy (js_field ''overflow'' prov) then Ret False
       else if list_ex (\<lambda>m. js_field ''role'' m = JStr ''system'') visibleMessages then Ret False
       else bindp (liftp (sequence_sum (map (taintContentHash sha256) visibleMessages))) (\<lambda>hs.
         if list_ex (\<lambda>h. JStr h \<in> set hashes) hs then Ret False
         else if workingMemory then bindp (ext ''getWorkingMemory'' JUndef) (\<lambda>wm. Ret (\<not> js_truthy wm))
         else Ret True))"

subsection \<open>Incidents\<close>

record RunIncident =
  inc_source :: string
  inc_action :: string
  inc_toolName :: string
  inc_toolCallId :: string
  inc_message :: string
  inc_detail :: js

definition incidentKey :: "string \<Rightarrow> RunIncident \<Rightarrow> key" where
  "incidentKey runId i = runId @ '':incident:'' @ inc_toolCallId i @ '':'' @ inc_source i @ '':'' @ inc_action i"

definition incident_js :: "int \<Rightarrow> RunIncident \<Rightarrow> js" where
  "incident_js at i = JObj [(''at'', JNum at), (''source'', JStr (inc_source i)), (''action'', JStr (inc_action i)),
     (''toolName'', JStr (inc_toolName i)), (''toolCallId'', JStr (inc_toolCallId i)), (''message'', JStr (inc_message i)),
     (''detail'', inc_detail i)]"

text \<open>The callers stamp \<open>at: Date.now()\<close>; the write is best effort.\<close>

definition recordIncident :: "string \<Rightarrow> RunIncident \<Rightarrow> unit prog" where
  "recordIncident runId i =
     bindp date_now (\<lambda>at. catchp (put (incidentKey runId i) (JObj [(''v'', incident_js at i)])) (\<lambda>_. Ret ()))"

text \<open>\<open>localeCompare\<close> is the order of code units on the model's strings.\<close>

definition incident_order :: "js \<Rightarrow> int \<times> string" where
  "incident_order v = (js_int (js_field ''at'' v), js_string (js_field ''toolCallId'' v))"

fun insert_incident :: "js \<Rightarrow> js list \<Rightarrow> js list" where
  "insert_incident x [] = [x]"
| "insert_incident x (y # ys) =
     (if fst (incident_order x) < fst (incident_order y)
         \<or> (fst (incident_order x) = fst (incident_order y) \<and> snd (incident_order x) < snd (incident_order y))
      then x # y # ys else y # insert_incident x ys)"

definition readIncidents :: "caps \<Rightarrow> string \<Rightarrow> (js list) prog" where
  "readIncidents J runId =
     (if \<not> has_listKeys J then Ret []
      else bindp (listKeys (runId @ '':incident:'')) (\<lambda>ks.
        bindp (foldp (\<lambda>out k. bindp (get k) (\<lambda>hit.
            Ret (if js_has_field ''v'' hit then out @ [js_field ''v'' hit] else out))) [] ks)
          (\<lambda>out. Ret (foldl (\<lambda>acc x. insert_incident x acc) [] out))))"

section \<open>Provenance\<close>

lemma set_unique [simp]: "set (unique xs) = set xs"
  by (simp add: unique_def)

lemma argsHash_total: "\<exists>h. argsHash sha256 v = Inr h"
proof -
  have "stableStringify v = None \<Longrightarrow> v = JUndef"
    by (cases v) (auto simp: stableStringify_def tagged_def)
  then show ?thesis by (auto simp: argsHash_def serializeForHash_def split: option.splits)
qed

lemma content_hashes: "sequence_sum (map (taintContentHash sha256) ms) = Inr (map (\<lambda>m. projr (argsHash sha256 m)) ms)"
proof (induction ms)
  case (Cons m ms)
  obtain h where "argsHash sha256 m = Inr h" using argsHash_total by blast
  with Cons show ?case by (simp add: taintContentHash_def)
qed simp

text \<open>A merged record refuses to expire for every hash that went into it: the hash is in it, or it is marked as overflown.\<close>

lemma merge_covers:
  assumes "h \<in> set incoming"
  shows "js_truthy (js_field ''overflow'' (merge_provenance cur incoming)) \<or> h \<in> set (js_elems (js_field ''hashes'' (merge_provenance cur incoming)))"
  using assms by (simp add: merge_provenance_def Let_def)

lemma merge_hashes_nonempty:
  assumes "incoming \<noteq> []"
  shows "js_elems (js_field ''hashes'' (merge_provenance cur incoming)) \<noteq> []"
proof -
  have "unique (js_elems (js_field ''hashes'' cur) @ incoming) \<noteq> []"
    using assms set_unique [of "js_elems (js_field ''hashes'' cur) @ incoming"] by (metis append_is_Nil_conv set_empty)
  then show ?thesis by (simp add: merge_provenance_def Let_def TAINT_PROVENANCE_MAX_HASHES_def)
qed

lemma provenance_written:
  assumes "has_putIfMatch J" and "has_putIfAbsent J" and "map_of (store (journal w)) K \<noteq> Some JUndef"
  shows "\<exists>w'. run env (provenance_attempts (Suc n) J K incoming) w = (Inr (), w')
    \<and> mem_get K (journal w') = merge_provenance (mem_get K (journal w)) incoming"
proof (cases "map_of (store (journal w)) K")
  case None
  then have "mem_get K (journal w) = JUndef" by (simp add: mem_get_def)
  with None assms(1,2) show ?thesis
    by (simp add: provenance_attempt_def Let_def prog_simps mem_putIfAbsent_def domIff) (simp add: mem_get_def)
next
  case (Some v)
  then have "mem_get K (journal w) = v" "v \<noteq> JUndef" using assms(3) by (auto simp: mem_get_def)
  with Some assms(1,2) show ?thesis
    by (simp add: provenance_attempt_def Let_def prog_simps mem_putIfMatch_def domIff) (simp add: mem_get_def)
qed

section \<open>Properties\<close>

text \<open>
  Poisoned content keeps its thread tainted while it is visible. After the messages of a tainted
  run have been recorded as provenance, \<open>isThreadTaintExpired\<close> answers \<open>false\<close> for every set of visible
  messages that still contains one of them, whatever the record held before, also when the merged list was cut at 512
  hashes, and whatever else is visible.
\<close>

theorem poisoned_content_keeps_taint:
  assumes "has_putIfMatch J" and "has_putIfAbsent J"
    and "map_of (store (journal w)) (threadTaintProvenanceKey thr) \<noteq> Some JUndef"
    and "m \<in> set messages" and "m \<in> set visible"
    and "run env (recordTaintProvenance sha256 J thr messages) w = (r, w')"
  shows "fst (run env (isThreadTaintExpired sha256 thr visible wm) w') = Inr False"
proof -
  let ?K = "threadTaintProvenanceKey thr"
  let ?hash = "\<lambda>m. projr (argsHash sha256 m)"
  let ?in = "map JStr (map ?hash messages)"
  have ms: "messages \<noteq> []" using assms(4) by auto
  obtain w1 where "run env (provenance_attempts 3 J ?K ?in) w = (Inr (), w1)"
    and rec: "mem_get ?K (journal w1) = merge_provenance (mem_get ?K (journal w)) ?in"
    using provenance_written [OF assms(1-3), of env 2 ?in] unfolding numeral_3_eq_3 numeral_2_eq_2 by blast
  then have w': "w' = w1"
    using assms(6) ms by (simp add: recordTaintProvenance_def content_hashes run_liftp run_bindp)
  have "JStr (?hash m) \<in> set ?in" using assms(4) by auto
  from merge_covers [OF this] have cov: "js_truthy (js_field ''overflow'' (mem_get ?K (journal w')))
      \<or> JStr (?hash m) \<in> set (js_elems (js_field ''hashes'' (mem_get ?K (journal w'))))"
    unfolding w' rec .
  show ?thesis
    using cov assms(5)
    by (auto simp: isThreadTaintExpired_def readTaintProvenance_def Let_def prog_simps content_hashes list_ex_iff)
qed

theorem poisoned_content_keeps_taint_witness:
  "let w' = snd (run (\<lambda>_ _ _. Inr JUndef) (recordTaintProvenance id full_caps ''t'' [JStr ''evil'']) new_world)
   in fst (run (\<lambda>_ _ _. Inr JUndef) (isThreadTaintExpired id ''t'' [JStr ''hi'', JStr ''evil''] False) w') = Inr False"
  unfolding Let_def
  by (rule poisoned_content_keeps_taint [of full_caps new_world "''t''" "JStr ''evil''" "[JStr ''evil'']"
        "[JStr ''hi'', JStr ''evil'']" "\<lambda>_ _ _. Inr JUndef" id
        "fst (run (\<lambda>_ _ _. Inr JUndef) (recordTaintProvenance id full_caps ''t'' [JStr ''evil'']) new_world)"])
     (simp_all add: full_caps_def new_world_def empty_journal_def)

end
