(* ===== verification/Limits.thy ===== *)
theory Limits
  imports Taint
begin

text \<open>
  Run limits (\<open>packages/durable/src/limits.ts\<close>): the journaled counters and the repeat chain of a run,
  their seeding from history, the tool gate and the step gate.

  Token counts and costs are integers. \<open>usage table value\<close> stands for
  \<open>usageAndCostFromModelValue\<close>: tokens, cost, whether a price was found, and the model id, or nothing when the
  record carries no usage; the pricing document is read from the journal and handed to it. The
  process-wide memo of nested runs already found absent is left out: nested runs are looked up each
  time. \<open>sumSubRuns\<close> and the catch-up loop over model steps run on fuel.
\<close>

section \<open>Definitions\<close>

record RunLimits =
  maxCostUsd :: "int option"
  maxTokens :: "int option"
  maxToolCalls :: "int option"
  loop_maxRepeats :: "int option"
  loop_reflect :: bool
  dup_config :: js
  approvalScope_attempt :: bool
  taintedSideEffects :: "string option"
  taintScope_thread :: bool
  limits_strict :: bool

record LimitCounters =
  modelStepsSeen :: int
  totalTokens :: int
  costUsd :: int
  succeededToolCalls :: int

record LimitChain =
  lastToolName :: js
  lastArgsHash :: js
  consecutiveRepeats :: int
  reflected :: bool
  subRunIds :: "string list"

definition LIMITS_CHAIN_NAME :: string where "LIMITS_CHAIN_NAME = ''__gnl_limits_state''"
definition LIMITS_COUNTERS_NAME :: string where "LIMITS_COUNTERS_NAME = ''__gnl_limits_counters''"

definition emptyCounters :: LimitCounters where
  "emptyCounters = \<lparr>modelStepsSeen = 0, totalTokens = 0, costUsd = 0, succeededToolCalls = 0\<rparr>"

definition emptyChain :: LimitChain where
  "emptyChain = \<lparr>lastToolName = JUndef, lastArgsHash = JUndef, consecutiveRepeats = 0, reflected = False, subRunIds = []\<rparr>"

definition chainKey :: "string \<Rightarrow> key" where "chainKey runId = key_proc runId LIMITS_CHAIN_NAME"
definition countersKey :: "string \<Rightarrow> key" where "countersKey runId = key_proc runId LIMITS_COUNTERS_NAME"

text \<open>The records as the journal holds them.\<close>

definition chain_js :: "LimitChain \<Rightarrow> js" where
  "chain_js c = JObj [(''lastToolName'', lastToolName c), (''lastArgsHash'', lastArgsHash c),
     (''consecutiveRepeats'', JNum (consecutiveRepeats c)), (''reflected'', JBool (reflected c)),
     (''subRunIds'', JArr (map JStr (subRunIds c)))]"

definition chain_of :: "js \<Rightarrow> LimitChain" where
  "chain_of v = \<lparr>lastToolName = js_field ''lastToolName'' v, lastArgsHash = js_field ''lastArgsHash'' v,
     consecutiveRepeats = js_int (js_field ''consecutiveRepeats'' v), reflected = js_truthy (js_field ''reflected'' v),
     subRunIds = js_keys_of (js_field ''subRunIds'' v)\<rparr>"

definition chain_or_empty :: "js \<Rightarrow> LimitChain" where
  "chain_or_empty v = (if v = JUndef \<or> v = JNull then emptyChain else chain_of v)"

definition counters_of :: "js \<Rightarrow> LimitCounters" where
  "counters_of v = \<lparr>modelStepsSeen = js_int (js_field ''modelStepsSeen'' v), totalTokens = js_int (js_field ''totalTokens'' v),
     costUsd = js_int (js_field ''costUsd'' v), succeededToolCalls = js_int (js_field ''succeededToolCalls'' v)\<rparr>"

definition counters_js :: "LimitCounters \<Rightarrow> js" where
  "counters_js c = JObj [(''modelStepsSeen'', JNum (modelStepsSeen c)), (''totalTokens'', JNum (totalTokens c)),
     (''costUsd'', JNum (costUsd c)), (''succeededToolCalls'', JNum (succeededToolCalls c))]"

definition readChain :: "string \<Rightarrow> js prog" where
  "readChain runId = get (chainKey runId)"

definition readCounters :: "caps \<Rightarrow> string \<Rightarrow> (LimitCounters option) prog" where
  "readCounters J runId =
     bindp (if has_getCounters J then callp (JGetCounters (countersKey runId)) else Ret JUndef) (\<lambda>c.
       if js_truthy c then Ret (Some (counters_of c))
       else bindp (get (countersKey runId)) (\<lambda>d. Ret (if js_truthy d then Some (counters_of d) else None)))"

definition counter_fields :: "LimitCounters \<Rightarrow> (string \<times> int) list" where
  "counter_fields d = filter (\<lambda>p. snd p \<noteq> 0)
     [(''modelStepsSeen'', modelStepsSeen d), (''totalTokens'', totalTokens d), (''costUsd'', costUsd d),
      (''succeededToolCalls'', succeededToolCalls d)]"

definition add_counters :: "LimitCounters \<Rightarrow> LimitCounters \<Rightarrow> LimitCounters" where
  "add_counters a b = \<lparr>modelStepsSeen = modelStepsSeen a + modelStepsSeen b, totalTokens = totalTokens a + totalTokens b,
     costUsd = costUsd a + costUsd b, succeededToolCalls = succeededToolCalls a + succeededToolCalls b\<rparr>"

definition incr_fallback :: "string \<Rightarrow> LimitCounters \<Rightarrow> unit prog" where
  "incr_fallback runId delta =
     bindp (get (countersKey runId)) (\<lambda>cur.
       put (countersKey runId)
         (counters_js (add_counters (if cur = JUndef \<or> cur = JNull then emptyCounters else counters_of cur) delta)))"

definition incrCounters :: "caps \<Rightarrow> string \<Rightarrow> LimitCounters \<Rightarrow> unit prog" where
  "incrCounters J runId delta =
     (if counter_fields delta = [] then Ret ()
      else if has_incrBy J
        then catchp (bindp (callp (JIncrBy (countersKey runId) (counter_fields delta))) (\<lambda>_. Ret ()))
               (\<lambda>_. incr_fallback runId delta)
      else incr_fallback runId delta)"

definition CHAIN_CAS_ATTEMPTS :: nat where "CHAIN_CAS_ATTEMPTS = 3"

primrec chain_cas :: "nat \<Rightarrow> caps \<Rightarrow> string \<Rightarrow> (LimitChain \<Rightarrow> LimitChain) \<Rightarrow> unit prog" where
  "chain_cas 0 J runId mutate =
     bindp (get (chainKey runId)) (\<lambda>cur. put (chainKey runId) (chain_js (mutate (chain_or_empty cur))))"
| "chain_cas (Suc n) J runId mutate =
     bindp (get (chainKey runId)) (\<lambda>cur.
       let next = chain_js (mutate (chain_or_empty cur)) in
       if cur = JUndef then
         if has_putIfAbsent J
         then bindp (putIfAbsent (chainKey runId) next) (\<lambda>ok. if ok then Ret () else chain_cas n J runId mutate)
         else put (chainKey runId) next
       else if has_putIfMatch J
         then bindp (putIfMatch (chainKey runId) cur next) (\<lambda>ok. if ok then Ret () else chain_cas n J runId mutate)
       else put (chainKey runId) next)"

definition writeChainCas :: "caps \<Rightarrow> string \<Rightarrow> (LimitChain \<Rightarrow> LimitChain) \<Rightarrow> unit prog" where
  "writeChainCas J runId mutate = chain_cas CHAIN_CAS_ATTEMPTS J runId mutate"

type_synonym usage_fn = "js \<Rightarrow> js \<Rightarrow> (int \<times> int \<times> bool \<times> string) option"

definition applyModelStepDelta :: "usage_fn \<Rightarrow> js \<Rightarrow> LimitCounters \<times> string list \<Rightarrow> js \<Rightarrow> LimitCounters \<times> string list" where
  "applyModelStepDelta usage table acc value =
     (let d = fst acc; d1 = d\<lparr>modelStepsSeen := modelStepsSeen d + 1\<rparr> in
      case usage table value of
        None \<Rightarrow> (d1, snd acc)
      | Some (tok, cost, priced, model) \<Rightarrow>
          (d1\<lparr>totalTokens := totalTokens d + tok, costUsd := costUsd d + cost\<rparr>, if priced then snd acc else model # snd acc))"

definition applyToolOutcomeToChain :: "LimitChain \<Rightarrow> string \<Rightarrow> js \<Rightarrow> js \<Rightarrow> js \<Rightarrow> LimitChain" where
  "applyToolOutcomeToChain chain toolCallId toolName hash status =
     (let subs = (if toolCallId \<in> set (subRunIds chain) then subRunIds chain else subRunIds chain @ [toolCallId]);
          same = (lastToolName chain = toolName \<and> lastArgsHash chain = hash) in
      if status = JStr ''succeeded'' then
        if same then chain\<lparr>subRunIds := subs, consecutiveRepeats := consecutiveRepeats chain + 1\<rparr>
        else \<lparr>lastToolName = toolName, lastArgsHash = hash, consecutiveRepeats = 1, reflected = False, subRunIds = subs\<rparr>
      else if status = JStr ''reflected'' then
        if same then chain\<lparr>subRunIds := subs, reflected := True\<rparr> else chain\<lparr>subRunIds := subs\<rparr>
      else \<lparr>lastToolName = JUndef, lastArgsHash = JUndef, consecutiveRepeats = 0, reflected = False, subRunIds = subs\<rparr>)"

definition seed_step ::
  "usage_fn \<Rightarrow> js \<Rightarrow> string \<Rightarrow> (LimitCounters \<times> string list) \<times> LimitChain \<Rightarrow> js \<Rightarrow> (LimitCounters \<times> string list) \<times> LimitChain" where
  "seed_step usage table pre acc e =
     (let v = js_field ''value'' e; k = js_string (js_field ''key'' e); st = js_field ''status'' v in
      if js_field ''kind'' e = JStr ''model'' then (applyModelStepDelta usage table (fst acc) v, snd acc)
      else if js_field ''kind'' e \<noteq> JStr ''tool'' \<or> \<not> prefix pre k \<or> js_field ''mirrorOf'' v \<noteq> JUndef then acc
      else
        (let c = fst (fst acc);
             c1 = (if st = JStr ''succeeded'' \<or> (st = JStr ''failed'' \<and> js_field ''sideEffect'' v = JBool True)
                   then c\<lparr>succeededToolCalls := succeededToolCalls c + 1\<rparr> else c)
         in ((c1, snd (fst acc)),
             applyToolOutcomeToChain (snd acc) (drop (length pre) k) (js_field ''toolName'' v) (js_field ''argsHash'' v) st)))"

definition seedFromHistory :: "usage_fn \<Rightarrow> js \<Rightarrow> string \<Rightarrow> ((LimitCounters \<times> string list) \<times> LimitChain) prog" where
  "seedFromHistory usage table runId =
     bindp (callp (JReadRun runId)) (\<lambda>entries.
       Ret (foldl (seed_step usage table (runId @ '':tool:'')) ((emptyCounters, []), emptyChain) (js_elems entries)))"

text \<open>Whether this call seeded, and the models seen without a price.\<close>

definition ensureSeeded :: "usage_fn \<Rightarrow> caps \<Rightarrow> js \<Rightarrow> string \<Rightarrow> (bool \<times> string list) prog" where
  "ensureSeeded usage J table runId =
     bindp (readChain runId) (\<lambda>c.
       if c \<noteq> JUndef then Ret (False, [])
       else if \<not> has_readRun J then Ret (False, [])
       else bindp (seedFromHistory usage table runId) (\<lambda>seeded.
         bindp (claim J (chainKey runId) (chain_js (snd seeded))) (\<lambda>won.
           if \<not> won then Ret (False, snd (fst seeded))
           else seqp (incrCounters J runId (fst (fst seeded))) (Ret (True, snd (fst seeded))))))"

text \<open>
  Totals of the nested runs, with the set of runs already counted. The model stops with an error when the fuel, a bound on the nesting
  depth, is exhausted.
\<close>

definition add_subtotal :: "int \<times> int \<times> int \<Rightarrow> int \<times> int \<times> int \<Rightarrow> int \<times> int \<times> int" where
  "add_subtotal a b = (fst a + fst b, fst (snd a) + fst (snd b), snd (snd a) + snd (snd b))"

primrec sum_candidates ::
  "caps \<Rightarrow> (string \<Rightarrow> string list \<Rightarrow> string list \<Rightarrow> ((int \<times> int \<times> int) \<times> string list) prog) \<Rightarrow>
   string list \<Rightarrow> (int \<times> int \<times> int) \<times> string list \<Rightarrow> ((int \<times> int \<times> int) \<times> string list) prog" where
  "sum_candidates J deeper [] acc = Ret acc"
| "sum_candidates J deeper (nestedRunId # rest) acc =
     (if nestedRunId \<in> set (snd acc) then sum_candidates J deeper rest acc
      else bindp (readCounters J nestedRunId) (\<lambda>nested.
        let seen = nestedRunId # snd acc in
        case nested of
          None \<Rightarrow> sum_candidates J deeper rest (fst acc, seen)
        | Some c \<Rightarrow>
            (let t = add_subtotal (fst acc) (totalTokens c, costUsd c, succeededToolCalls c) in
             bindp (readChain nestedRunId) (\<lambda>ch.
               if subRunIds (chain_or_empty ch) \<noteq> []
               then bindp (deeper nestedRunId (subRunIds (chain_or_empty ch)) seen) (\<lambda>g.
                      sum_candidates J deeper rest (add_subtotal t (fst g), snd g))
               else sum_candidates J deeper rest (t, seen)))))"

definition nested_candidates :: "string \<Rightarrow> string \<Rightarrow> string list" where
  "nested_candidates parentRunId toolCallId =
     (let a = nestedAgentRunId (Some parentRunId) toolCallId ''agent''; b = ''agent:'' @ toolCallId
      in if a = b then [a] else [a, b])"

primrec sumSubRuns :: "nat \<Rightarrow> caps \<Rightarrow> string \<Rightarrow> string list \<Rightarrow> string list \<Rightarrow> ((int \<times> int \<times> int) \<times> string list) prog" where
  "sumSubRuns 0 J parentRunId ids seen = Raise (Err ''OutOfFuel'' ''sumSubRuns'')"
| "sumSubRuns (Suc n) J parentRunId ids seen =
     sum_candidates J (sumSubRuns n J) (concat (map (nested_candidates parentRunId) ids)) ((0, 0, 0), seen)"

primrec computeModelStepsDelta :: "nat \<Rightarrow> usage_fn \<Rightarrow> js \<Rightarrow> string \<Rightarrow> int \<Rightarrow> LimitCounters \<times> string list \<Rightarrow> (LimitCounters \<times> string list) prog" where
  "computeModelStepsDelta 0 usage table runId seen acc = Raise (Err ''OutOfFuel'' ''computeModelStepsDelta'')"
| "computeModelStepsDelta (Suc n) usage table runId seen acc =
     bindp (get (key_model runId (show_int seen))) (\<lambda>rec.
       if rec = JUndef then Ret acc
       else computeModelStepsDelta n usage table runId (seen + 1) (applyModelStepDelta usage table acc rec))"

definition unenforceableProtections :: "RunLimits \<Rightarrow> string list" where
  "unenforceableProtections limits =
     (if maxCostUsd limits \<noteq> None then [''maxCostUsd''] else [])
     @ (if maxTokens limits \<noteq> None then [''maxTokens''] else [])
     @ (if maxToolCalls limits \<noteq> None then [''maxToolCalls''] else [])
     @ (case loop_maxRepeats limits of Some n \<Rightarrow> if n > 0 then [''loopDetection''] else [] | None \<Rightarrow> [])"

definition reportUnenforceableLimits :: "RunLimits \<Rightarrow> unit prog" where
  "reportUnenforceableLimits limits =
     (if unenforceableProtections limits \<noteq> [] \<and> limits_strict limits
      then Raise (Err ''Error'' ''run limits cannot be enforced'') else Ret ())"

definition PRICING_KEY :: key where "PRICING_KEY = ''__pricing__''"

definition enforceStepLimits :: "nat \<Rightarrow> usage_fn \<Rightarrow> caps \<Rightarrow> string \<Rightarrow> RunLimits \<Rightarrow> unit prog" where
  "enforceStepLimits fuel usage J runId limits =
     (if maxCostUsd limits = None \<and> maxTokens limits = None then Ret ()
      else if \<not> has_readRun J then reportUnenforceableLimits limits
      else bindp (get PRICING_KEY) (\<lambda>table.
        bindp (ensureSeeded usage J table runId) (\<lambda>sd.
        bindp (readCounters J runId) (\<lambda>c0.
        let counters = (case c0 of Some c \<Rightarrow> c | None \<Rightarrow> emptyCounters) in
        bindp (computeModelStepsDelta fuel usage table runId (modelStepsSeen counters) (emptyCounters, snd sd)) (\<lambda>du.
        bindp (if modelStepsSeen (fst du) = 0 then Ret () else incrCounters J runId (fst du)) (\<lambda>_.
        let total = add_counters counters (fst du) in
        bindp (readChain runId) (\<lambda>ch.
        bindp (sumSubRuns fuel J runId (subRunIds (chain_or_empty ch)) [runId]) (\<lambda>sub.
        let tokens = totalTokens total + fst (fst sub); cost = costUsd total + fst (snd (fst sub)) in
        if (case maxTokens limits of Some m \<Rightarrow> tokens > m | None \<Rightarrow> False) then Raise (Err ''RunLimitExceededError'' ''maxTokens'')
        else if maxCostUsd limits \<noteq> None \<and> snd du \<noteq> [] \<and> limits_strict limits then Raise (Err ''Error'' ''no pricing entry'')
        else if (case maxCostUsd limits of Some m \<Rightarrow> cost > m | None \<Rightarrow> False) then Raise (Err ''RunLimitExceededError'' ''maxCostUsd'')
        else Ret ()))))))))"

datatype GateKind = GLoop | GMaxToolCalls | GReflect

record ToolGateBreach =
  gate_kind :: GateKind
  gate_repeats :: "int option"
  gate_value :: int
  gate_limit :: int

definition priorRepeats :: "LimitChain \<Rightarrow> string \<Rightarrow> string \<Rightarrow> int" where
  "priorRepeats chain toolName hash =
     (if lastToolName chain = JStr toolName \<and> lastArgsHash chain = JStr hash then consecutiveRepeats chain else 0)"

definition gate_max_calls :: "nat \<Rightarrow> caps \<Rightarrow> string \<Rightarrow> LimitChain \<Rightarrow> int \<Rightarrow> (ToolGateBreach option) prog" where
  "gate_max_calls fuel J runId chain limit =
     bindp (readCounters J runId) (\<lambda>c0.
     bindp (sumSubRuns fuel J runId (subRunIds chain) [runId]) (\<lambda>sub.
       let n = succeededToolCalls (case c0 of Some c \<Rightarrow> c | None \<Rightarrow> emptyCounters) + snd (snd (fst sub)) in
       Ret (if n \<ge> limit then Some \<lparr>gate_kind = GMaxToolCalls, gate_repeats = None, gate_value = n, gate_limit = limit\<rparr> else None)))"

definition checkToolGate :: "nat \<Rightarrow> usage_fn \<Rightarrow> caps \<Rightarrow> string \<Rightarrow> string \<Rightarrow> string \<Rightarrow> RunLimits \<Rightarrow> (ToolGateBreach option) prog" where
  "checkToolGate fuel usage J runId toolName hash limits =
     (if \<not> has_readRun J then seqp (reportUnenforceableLimits limits) (Ret None)
      else
        let looped = (case loop_maxRepeats limits of Some n \<Rightarrow> n > 0 | None \<Rightarrow> False) in
        if \<not> looped \<and> maxToolCalls limits = None then Ret None
        else bindp (get PRICING_KEY) (\<lambda>table.
          bindp (ensureSeeded usage J table runId) (\<lambda>_.
          bindp (readChain runId) (\<lambda>ch.
          let chain = chain_or_empty ch; prior = priorRepeats chain toolName hash;
              maxRepeats = (case loop_maxRepeats limits of Some n \<Rightarrow> n | None \<Rightarrow> 0) in
          if looped \<and> prior \<ge> maxRepeats then
            Ret (Some \<lparr>gate_kind = (if loop_reflect limits \<and> \<not> reflected chain then GReflect else GLoop),
                       gate_repeats = Some prior, gate_value = prior, gate_limit = maxRepeats\<rparr>)
          else case maxToolCalls limits of
            Some m \<Rightarrow> gate_max_calls fuel J runId chain m
          | None \<Rightarrow> Ret None))))"

definition recordToolOutcome ::
  "usage_fn \<Rightarrow> caps \<Rightarrow> string \<Rightarrow> string \<Rightarrow> string \<Rightarrow> string \<Rightarrow> string \<Rightarrow> bool \<Rightarrow> RunLimits \<Rightarrow> unit prog" where
  "recordToolOutcome usage J runId toolCallId toolName hash status sideEffect limits =
     bindp (readChain runId) (\<lambda>ch.
       let record_it =
         seqp (if status = ''succeeded'' \<or> (status = ''failed'' \<and> sideEffect)
               then incrCounters J runId (emptyCounters\<lparr>succeededToolCalls := 1\<rparr>) else Ret ())
           (writeChainCas J runId (\<lambda>chain. applyToolOutcomeToChain chain toolCallId (JStr toolName) (JStr hash) (JStr status))) in
       if ch = JUndef then
         if \<not> has_readRun J then reportUnenforceableLimits limits
         else bindp (get PRICING_KEY) (\<lambda>table.
           bindp (ensureSeeded usage J table runId) (\<lambda>won. if fst won then Ret () else record_it))
       else record_it)"

section \<open>The repeat chain\<close>

text \<open>The chain after a sequence of outcomes (call id, tool name, hash, status), and its specification on the reversed sequence.\<close>

type_synonym outcome = "string \<times> string \<times> string \<times> string"

definition chain_step :: "LimitChain \<Rightarrow> outcome \<Rightarrow> LimitChain" where
  "chain_step c oc = applyToolOutcomeToChain c (fst oc) (JStr (fst (snd oc))) (JStr (fst (snd (snd oc)))) (JStr (snd (snd (snd oc))))"

definition chain_after :: "outcome list \<Rightarrow> LimitChain" where
  "chain_after os = foldl chain_step emptyChain os"

fun trailing_successes :: "string \<Rightarrow> string \<Rightarrow> outcome list \<Rightarrow> nat" where
  "trailing_successes n h [] = 0"
| "trailing_successes n h ((i, n', h', s) # r) =
     (if s = ''reflected'' then trailing_successes n h r
      else if s = ''succeeded'' \<and> n' = n \<and> h' = h then Suc (trailing_successes n h r) else 0)"

lemma chain_of_js [simp]: "chain_of (chain_js c) = c"
  by (simp add: chain_of_def chain_js_def)

lemma chain_or_empty_js [simp]: "chain_or_empty (chain_js c) = c"
  by (simp add: chain_or_empty_def) (simp add: chain_js_def)

lemma priorRepeats_after: "priorRepeats (chain_after os) n h = int (trailing_successes n h (rev os))"
proof (induction os arbitrary: n h rule: rev_induct)
  case Nil
  then show ?case by (simp add: chain_after_def emptyChain_def priorRepeats_def)
next
  case (snoc oc os)
  obtain i n' h' s where oc: "oc = (i, n', h', s)" by (cases oc) auto
  note IH = snoc [of n h] snoc [of n' h']
  have step: "chain_after (os @ [oc]) = applyToolOutcomeToChain (chain_after os) i (JStr n') (JStr h') (JStr s)"
    by (simp add: chain_after_def chain_step_def oc)
  show ?case
    unfolding step using IH
    by (auto simp: oc applyToolOutcomeToChain_def priorRepeats_def Let_def split: if_splits)
qed

section \<open>Properties\<close>

text \<open>
  C11: the loop detector counts what it says. When the chain a run has journaled comes from a sequence
  of recorded outcomes, \<open>checkToolGate\<close> with \<open>maxRepeats = m\<close> stops the call exactly when the last \<open>m\<close> outcomes were
  successes of this same tool with these same arguments, outcomes of kind \<open>reflected\<close> not counted; it asks
  the model to reconsider first only when configured to and when no such question is already part
  of this chain.
\<close>

theorem loop_gate_fires_exactly:
  assumes "has_readRun J" and "loop_maxRepeats limits = Some m" and "0 < m" and "maxToolCalls limits = None"
    and "mem_get (chainKey runId) (journal w) = chain_js (chain_after os)"
  shows "run env (checkToolGate fuel usage J runId name h limits) w =
    (Inr (if m \<le> int (trailing_successes name h (rev os))
          then Some \<lparr>gate_kind = (if loop_reflect limits \<and> \<not> reflected (chain_after os) then GReflect else GLoop),
                     gate_repeats = Some (int (trailing_successes name h (rev os))),
                     gate_value = int (trailing_successes name h (rev os)), gate_limit = m\<rparr>
          else None), w)"
proof -
  have "chain_js c \<noteq> JUndef" for c by (simp add: chain_js_def)
  then show ?thesis
    using assms by (simp add: checkToolGate_def ensureSeeded_def readChain_def Let_def prog_simps priorRepeats_after)
qed

theorem loop_gate_fires_exactly_witness:
  "let limits = \<lparr>maxCostUsd = None, maxTokens = None, maxToolCalls = None, loop_maxRepeats = Some 2, loop_reflect = False,
                 dup_config = JUndef, approvalScope_attempt = False, taintedSideEffects = None, taintScope_thread = False, limits_strict = False\<rparr>;
       os = [(''c1'', ''mail'', ''h'', ''succeeded''), (''c2'', ''mail'', ''h'', ''succeeded'')];
       w = new_world\<lparr>journal := mem_put 0 (chainKey ''r'') (chain_js (chain_after os)) empty_journal\<rparr>
   in map_option gate_kind (projr (fst (run (\<lambda>_ _ _. Inr JUndef) (checkToolGate 0 (\<lambda>_ _. None) full_caps ''r'' ''mail'' ''h'' limits) w))) = Some GLoop"
  unfolding Let_def
  by (subst loop_gate_fires_exactly [where m = 2 and os = "[(''c1'', ''mail'', ''h'', ''succeeded''), (''c2'', ''mail'', ''h'', ''succeeded'')]"])
     (simp_all add: full_caps_def)

end
