(* ===== verification/RunLock.thy ===== *)
theory RunLock
  imports JournalOps
begin

text \<open>
  The run lock (\<open>packages/durable/src/run-lock.ts\<close>): a lease record under \<open><runId>:lock\<close> with a fencing
  token. The methods of the object \<open>mkLock\<close> returns are the functions \<open>lock_renew\<close> and \<open>lock_release\<close> on a
  \<open>RunLock\<close> record. The protocol part shows what the record can become while any number of workers
  acquire, renew and release; all workers read one clock.
\<close>

section \<open>Definitions\<close>

record RunLock =
  lock_runId :: string
  lock_owner :: string
  lock_token :: string

definition lockKey :: "string \<Rightarrow> key" where
  "lockKey runId = runId @ '':lock''"

definition LockRecord :: "string \<Rightarrow> int \<Rightarrow> string \<Rightarrow> js" where
  "LockRecord owner expires token = JObj [(''owner'', JStr owner), (''expires'', JNum expires), (''token'', JStr token)]"

text \<open>\<open>v >= n\<close>; a comparison with \<open>undefined\<close> is false.\<close>

fun js_ge :: "js \<Rightarrow> int \<Rightarrow> bool" where
  "js_ge (JNum m) n = (n \<le> m)"
| "js_ge v n = False"

definition mkLock :: "string \<Rightarrow> string \<Rightarrow> string \<Rightarrow> RunLock" where
  "mkLock runId owner token = \<lparr>lock_runId = runId, lock_owner = owner, lock_token = token\<rparr>"

definition lock_now :: "caps \<Rightarrow> int prog" where
  "lock_now J = (if has_now J then journal_now else date_now)"

definition acquireRunLock :: "caps \<Rightarrow> string \<Rightarrow> string \<Rightarrow> int \<Rightarrow> int option \<Rightarrow> (RunLock option) prog" where
  "acquireRunLock J runId owner ttlMs now =
     bindp randomUUID (\<lambda>token.
     bindp (case now of Some n \<Rightarrow> Ret n | None \<Rightarrow> lock_now J) (\<lambda>at.
     let key = lockKey runId; rec = LockRecord owner (at + ttlMs) token; lock = mkLock runId owner token in
     bindp (claim J key rec) (\<lambda>won.
       if won then Ret (Some lock)
       else bindp (get key) (\<lambda>cur.
         if js_truthy cur \<and> js_ge (js_field ''expires'' cur) at then Ret None
         else if \<not> js_truthy cur then bindp (claim J key rec) (\<lambda>won2. Ret (if won2 then Some lock else None))
         else if has_putIfMatch J then bindp (putIfMatch key cur rec) (\<lambda>ok. Ret (if ok then Some lock else None))
         else seqp (put key rec) (Ret (Some lock))))))"

definition lock_renew :: "caps \<Rightarrow> RunLock \<Rightarrow> int \<Rightarrow> bool prog" where
  "lock_renew J l ttlMs =
     (let key = lockKey (lock_runId l) in
      bindp (get key) (\<lambda>cur.
        if \<not> js_truthy cur \<or> js_field ''token'' cur \<noteq> JStr (lock_token l) then Ret False
        else bindp (lock_now J) (\<lambda>at.
          let next = LockRecord (lock_owner l) (at + ttlMs) (lock_token l) in
          if has_putIfMatch J then putIfMatch key cur next
          else seqp (put key next) (Ret True))))"

primrec release_attempts :: "caps \<Rightarrow> RunLock \<Rightarrow> nat \<Rightarrow> unit prog" where
  "release_attempts J l 0 = Ret ()"
| "release_attempts J l (Suc n) =
     (let key = lockKey (lock_runId l) in
      bindp (get key) (\<lambda>cur.
        if \<not> js_truthy cur \<or> js_field ''token'' cur \<noteq> JStr (lock_token l) then Ret ()
        else let dead = LockRecord (lock_owner l) 0 (lock_token l) in
          if \<not> has_putIfMatch J then put key dead
          else bindp (putIfMatch key cur dead) (\<lambda>ok. if ok then Ret () else release_attempts J l n)))"

definition lock_release :: "caps \<Rightarrow> RunLock \<Rightarrow> unit prog" where
  "lock_release J l = catchp (release_attempts J l 3) (\<lambda>_. Ret ())"

section \<open>The lease protocol\<close>

text \<open>
  A worker's ghost value: the latest time it has read and the tokens it has drawn. It may create the
  record with a token of its own, and replace a record that carries its own token or that was
  expired at a time it has read.
\<close>

record lease_ghost =
  seen_time :: "int option"
  own_tokens :: "string set"

definition lease_g0 :: lease_ghost where
  "lease_g0 = \<lparr>seen_time = None, own_tokens = {}\<rparr>"

definition lease_allowed :: "key \<Rightarrow> lease_ghost \<Rightarrow> jop \<Rightarrow> bool" where
  "lease_allowed K g c \<longleftrightarrow>
     (case c of
        JPut k v \<Rightarrow> k \<noteq> K
      | JDeletePrefix p \<Rightarrow> \<not> prefix p K
      | JPutIfAbsent k v \<Rightarrow> k = K \<longrightarrow> (\<exists>ow e t. v = LockRecord ow e t \<and> t \<in> own_tokens g)
      | JPutIfMatch k cur v \<Rightarrow> k = K \<longrightarrow>
          (\<exists>ow e t ow' e' t'. v = LockRecord ow e t \<and> t \<in> own_tokens g \<and> cur = LockRecord ow' e' t'
             \<and> (t' = t \<or> (\<exists>n. seen_time g = Some n \<and> e' < n)))
      | _ \<Rightarrow> True)"

definition lease_upd :: "lease_ghost \<Rightarrow> jop \<Rightarrow> err + js \<Rightarrow> lease_ghost" where
  "lease_upd g c r =
     (case r of
        Inr (JNum n) \<Rightarrow> if c = JNow \<or> c = DateNow then g\<lparr>seen_time := Some n\<rparr> else g
      | Inr (JStr u) \<Rightarrow> if c = RandomUUID then g\<lparr>own_tokens := insert u (own_tokens g)\<rparr> else g
      | _ \<Rightarrow> g)"

definition is_lock_record :: "js \<Rightarrow> bool" where
  "is_lock_record v \<longleftrightarrow> (\<exists>ow e t. v = LockRecord ow e t)"

definition lease_inv :: "key \<Rightarrow> world \<Rightarrow> (nat \<Rightarrow> lease_ghost) \<Rightarrow> bool" where
  "lease_inv K w gs \<longleftrightarrow>
     (\<forall>v. map_of (store (journal w)) K = Some v \<longrightarrow> is_lock_record v)
     \<and> (\<forall>i n. seen_time (gs i) = Some n \<longrightarrow> n \<le> clock w)
     \<and> (\<forall>i. own_tokens (gs i) \<subseteq> set (used_uuids w))
     \<and> (\<forall>i j. i \<noteq> j \<longrightarrow> own_tokens (gs i) \<inter> own_tokens (gs j) = {})"

definition lease_resp :: "key \<Rightarrow> lease_ghost \<Rightarrow> jop \<Rightarrow> err + js \<Rightarrow> bool" where
  "lease_resp K g c r \<longleftrightarrow> possible c r \<and> (\<forall>v. c = JGet K \<and> r = Inr v \<longrightarrow> v = JUndef \<or> is_lock_record v)"

lemma LockRecord_inject [simp]: "LockRecord a b c = LockRecord a' b' c' \<longleftrightarrow> a = a' \<and> b = b' \<and> c = c'"
  by (simp add: LockRecord_def)

lemma LockRecord_simps [simp]:
  "js_truthy (LockRecord a b c)" "js_field ''expires'' (LockRecord a b c) = JNum b"
  "js_field ''token'' (LockRecord a b c) = JStr c"
  by (simp_all add: LockRecord_def)

lemma LockRecord_serial:
  "stableStringify (LockRecord a b c) = stableStringify (LockRecord a' b' c') \<longleftrightarrow> LockRecord a b c = LockRecord a' b' c'"
  by (subst stableStringify_eq_iff) (auto simp: LockRecord_def PROTO_def)

lemma lease_journal_frame:
  "journal_op c w = Some (r, w') \<Longrightarrow> clock w' = clock w \<and> used_uuids w' = used_uuids w \<and> called w' = called w"
  by (cases c) (auto split: prod.splits)

text \<open>What a permitted journal call can do to the record.\<close>

lemma lease_op_effect:
  assumes inv: "lease_inv K w gs" and al: "lease_allowed K (gs i) c" and ok: "journal_op c w = Some (r, w')"
  shows "map_of (store (journal w')) K = map_of (store (journal w)) K
    \<or> (\<exists>ow e t. map_of (store (journal w')) K = Some (LockRecord ow e t) \<and> t \<in> own_tokens (gs i)
        \<and> (\<forall>ow' e' t'. map_of (store (journal w)) K = Some (LockRecord ow' e' t') \<longrightarrow> t' = t \<or> e' < clock w))"
proof (cases "(\<exists>v. c = JPutIfAbsent K v) \<or> (\<exists>x v. c = JPutIfMatch K x v)")
  case False
  then show ?thesis using al ok
    by (cases c) (auto simp: lease_allowed_def mem_put_def mem_putIfAbsent_def mem_putIfMatch_def mem_incrBy_def Let_def
        map_of_deletePrefix mem_deletePrefix_def map_of_filter_key [of "\<lambda>k. \<not> prefix _ k"] split: prod.splits if_splits)
next
  case True
  then consider (ab) v where "c = JPutIfAbsent K v" | (ma) x v where "c = JPutIfMatch K x v" by blast
  then show ?thesis
  proof cases
    case (ab v)
    with al obtain ow e t where "v = LockRecord ow e t" "t \<in> own_tokens (gs i)" by (auto simp: lease_allowed_def)
    with ab ok show ?thesis
      by (auto simp: mem_putIfAbsent_cases split: prod.splits if_splits)
  next
    case (ma x v)
    with al obtain ow e t ow' e' t' where v: "v = LockRecord ow e t" "t \<in> own_tokens (gs i)" "x = LockRecord ow' e' t'"
      and just: "t' = t \<or> (\<exists>n. seen_time (gs i) = Some n \<and> e' < n)" by (auto simp: lease_allowed_def)
    have late: "t' = t \<or> e' < clock w"
      using just inv unfolding lease_inv_def by (metis order_less_le_trans)
    show ?thesis
    proof (cases "js_has (store (journal w)) K \<and> stableStringify (mem_get K (journal w)) = stableStringify x")
      case True
      then obtain cur where cur: "map_of (store (journal w)) K = Some cur" "stableStringify cur = stableStringify x"
        by (auto simp: mem_get_def)
      with inv obtain a b d where "cur = LockRecord a b d" by (auto simp: lease_inv_def is_lock_record_def)
      with cur v(3) have "map_of (store (journal w)) K = Some (LockRecord ow' e' t')" by (simp add: LockRecord_serial)
      moreover have "map_of (store (journal w')) K = Some v"
        using ok ma True by (auto simp: mem_putIfMatch_cases split: prod.splits)
      ultimately show ?thesis using v late by auto
    next
      case False
      then show ?thesis using ok ma by (auto simp: mem_putIfMatch_def split: prod.splits if_splits)
    qed
  qed
qed

lemma lease_inv_world:
  assumes "lease_inv K w gs" and "lease_allowed K (gs i) c" and "journal_op c w = Some (r, w')"
  shows "lease_inv K w' gs"
proof -
  have "is_lock_record v" if "map_of (store (journal w')) K = Some v" for v
    using lease_op_effect [OF assms] assms(1) that by (auto simp: lease_inv_def is_lock_record_def)
  then show ?thesis using assms(1) lease_journal_frame [OF assms(3)] by (simp add: lease_inv_def)
qed

lemma lease_upd_seen:
  assumes "lease_inv K w gs" and "n \<le> clock w"
  shows "lease_inv K w (gs(i := (gs i)\<lparr>seen_time := Some n\<rparr>))"
  using assms by (auto simp: lease_inv_def)

lemma lease_upd_token:
  assumes "lease_inv K w gs" and "u \<notin> set (used_uuids w)"
  shows "lease_inv K (w\<lparr>used_uuids := u # used_uuids w\<rparr>) (gs(i := (gs i)\<lparr>own_tokens := insert u (own_tokens (gs i))\<rparr>))"
proof -
  have "u \<notin> own_tokens (gs j)" for j using assms unfolding lease_inv_def by blast
  with assms(1) show ?thesis by (auto simp: lease_inv_def)
qed

lemma lease_upd_journal:
  "journal_op c w = Some (r, w') \<Longrightarrow> lease_upd g c (Inr r) = (if c = JNow then g\<lparr>seen_time := Some (clock w)\<rparr> else g)"
  by (cases c) (auto simp: lease_upd_def split: js.splits)

lemma lease_upd_fail [simp]: "lease_upd g c (Inl e) = g"
  by (simp add: lease_upd_def)

lemma lease_inv_answer:
  assumes inv: "lease_inv K w gs" and al: "lease_allowed K (gs i) c" and "answer c w r w'"
  shows "lease_inv K w' (gs(i := lease_upd (gs i) c r))"
  using assms(3)
proof cases
  case (ans_ok r0)
  have w': "lease_inv K w' gs" "clock w' = clock w"
    using lease_inv_world [OF inv al ans_ok(2)] lease_journal_frame [OF ans_ok(2)] by auto
  then show ?thesis
    using lease_upd_seen [OF w'(1), of "clock w" i] ans_ok by (simp add: lease_upd_journal [OF ans_ok(2)])
next
  case (ans_lost r0 e)
  then show ?thesis using lease_inv_world [OF inv al] by simp
next
  case ans_date
  then show ?thesis using lease_upd_seen [OF inv, of "clock w" i] by (simp add: lease_upd_def)
next
  case (ans_uuid u)
  then show ?thesis using lease_upd_token [OF inv ans_uuid(4)] by (simp add: lease_upd_def)
next
  case (ans_ext f a)
  have "lease_upd (gs i) (Ext f a) r = gs i" by (simp add: lease_upd_def split: sum.splits js.splits)
  with ans_ext inv show ?thesis by (simp add: lease_inv_def)
qed (use inv in simp)

lemma lease_inv_responses:
  assumes "lease_inv K w gs" and "answer c w r w'"
  shows "lease_resp K g c r"
proof -
  have "v = JUndef \<or> is_lock_record v" if "c = JGet K" "r = Inr v" for v
    using assms that by (auto simp: answer_JGet mem_get_def lease_inv_def split: option.splits)
  then show ?thesis using assms(2) by (auto simp: lease_resp_def possible_def)
qed

lemma lease_inv_time: "lease_inv K w gs \<Longrightarrow> clock w \<le> t \<Longrightarrow> lease_inv K (w\<lparr>clock := t\<rparr>) gs"
  unfolding lease_inv_def by (auto intro: order_trans)

interpretation lease: protocol "lease_allowed K" lease_upd lease_g0 "lease_inv K" "lease_resp K" for K
  by unfold_locales (fact lease_inv_answer, fact lease_inv_time, fact lease_inv_responses)

lemma lease_inv_start: "map_of (store (journal w)) K = None \<Longrightarrow> lease_inv K w (\<lambda>_. lease_g0)"
  by (simp add: lease_inv_def lease_g0_def)

subsection \<open>The code follows the protocol\<close>

text \<open>A worker's use of the lock: acquire it, then any sequence of renewals and releases.\<close>

datatype lock_call = Renew int | Release

fun lock_method :: "caps \<Rightarrow> RunLock \<Rightarrow> lock_call \<Rightarrow> unit prog" where
  "lock_method J l (Renew ttlMs) = bindp (lock_renew J l ttlMs) (\<lambda>_. Ret ())"
| "lock_method J l Release = lock_release J l"

definition lock_session :: "caps \<Rightarrow> string \<Rightarrow> string \<Rightarrow> int \<Rightarrow> lock_call list \<Rightarrow> (RunLock option) prog" where
  "lock_session J runId owner ttlMs ms =
     bindp (acquireRunLock J runId owner ttlMs None) (\<lambda>lo.
       case lo of None \<Rightarrow> Ret None | Some l \<Rightarrow> seqp (forp ms (lock_method J l)) (Ret (Some l)))"

lemma wp_lock_now:
  assumes "\<And>n. Q (g\<lparr>seen_time := Some n\<rparr>) (Inr n)" and "\<And>e. Q g (Inl e)"
  shows "wp (lease_resp K) (lease_allowed K) lease_upd (lock_now J) g Q"
  using assms
  by (auto simp: lock_now_def journal_now_def date_now_def wp_bindp wp_callp lease_allowed_def lease_resp_def lease_upd_def
      split: sum.splits dest!: possible_nowD possible_dateD)

lemma wp_lease_get:
  assumes "Q g (Inr JUndef)" and "\<And>ow e t. Q g (Inr (LockRecord ow e t))" and "\<And>e. Q g (Inl e)"
  shows "wp (lease_resp K) (lease_allowed K) lease_upd (get K) g Q"
proof -
  have "lease_upd g (JGet K) r = g" for r by (auto simp: lease_upd_def split: sum.splits js.splits)
  moreover have "Q g r" if "lease_resp K g (JGet K) r" for r
    using that assms by (cases r) (auto simp: lease_resp_def is_lock_record_def)
  ultimately show ?thesis by (simp add: get_def wp_callp lease_allowed_def)
qed

lemma wp_lease_putIfMatch:
  assumes "lease_allowed K g (JPutIfMatch K x v)" and "\<And>b. Q g (Inr b)" and "\<And>e. Q g (Inl e)"
  shows "wp (lease_resp K) (lease_allowed K) lease_upd (putIfMatch K x v) g Q"
  using assms
  by (auto simp: putIfMatch_def wp_bindp wp_callp lease_resp_def lease_upd_def split: sum.splits dest!: possible_putIfMatchD)

lemma wp_lease_claim:
  assumes "has_putIfAbsent J" and "lease_allowed K g (JPutIfAbsent K v)" and "\<And>b. Q g (Inr b)" and "\<And>e. Q g (Inl e)"
  shows "wp (lease_resp K) (lease_allowed K) lease_upd (claim J K v) g Q"
  using assms
  by (auto simp: claim_def putIfAbsent_def wp_bindp wp_callp lease_resp_def lease_upd_def possible_putIfAbsent split: sum.splits)

lemma wp_lease_uuid:
  assumes "\<And>u. Q (g\<lparr>own_tokens := insert u (own_tokens g)\<rparr>) (Inr u)"
  shows "wp (lease_resp K) (lease_allowed K) lease_upd randomUUID g Q"
  using assms
  by (auto simp: randomUUID_def wp_bindp wp_callp lease_resp_def lease_allowed_def lease_upd_def split: sum.splits
      dest!: possible_uuidD)

lemma wp_acquire:
  assumes J: "has_putIfAbsent J" "has_putIfMatch J"
  shows "wp (lease_resp (lockKey r)) (lease_allowed (lockKey r)) lease_upd (acquireRunLock J r ow ttl None) g
           (\<lambda>g' res. \<forall>l. res = Inr (Some l) \<longrightarrow> lock_runId l = r \<and> lock_token l \<in> own_tokens g')"
  unfolding acquireRunLock_def Let_def wp_bindp
  by (rule wp_lease_uuid)
     (auto simp: wp_bindp wp_seqp J mkLock_def lease_allowed_def
       intro!: wp_lock_now wp_lease_claim [OF J(1)] wp_lease_get wp_lease_putIfMatch)

lemma wp_renew:
  assumes J: "has_putIfMatch J" and l: "lock_runId l = r" "lock_token l \<in> own_tokens g"
    and Q: "\<And>g' res. lock_token l \<in> own_tokens g' \<Longrightarrow> Q g' res"
  shows "wp (lease_resp (lockKey r)) (lease_allowed (lockKey r)) lease_upd (lock_renew J l ttl) g Q"
  unfolding lock_renew_def Let_def wp_bindp l(1)
  by (rule wp_lease_get)
     (auto simp: wp_bindp J l Q lease_allowed_def intro!: wp_lock_now wp_lease_putIfMatch)

lemma wp_release_attempts:
  assumes J: "has_putIfMatch J" and l: "lock_runId l = r" "lock_token l \<in> own_tokens g"
    and Q: "\<And>res. Q g res"
  shows "wp (lease_resp (lockKey r)) (lease_allowed (lockKey r)) lease_upd (release_attempts J l n) g Q"
proof (induction n)
  case (Suc n)
  show ?case
    unfolding release_attempts.simps Let_def wp_bindp l(1)
    by (rule wp_lease_get)
       (auto simp: wp_bindp J l Q Suc lease_allowed_def intro!: wp_lease_putIfMatch)
qed (simp add: Q)

lemma wp_lock_methods:
  assumes J: "has_putIfMatch J" and l: "lock_runId l = r" "lock_token l \<in> own_tokens g"
    and Q: "\<And>g' res. lock_token l \<in> own_tokens g' \<Longrightarrow> Q g' res"
  shows "wp (lease_resp (lockKey r)) (lease_allowed (lockKey r)) lease_upd (forp ms (lock_method J l)) g Q"
  using l(2)
proof (induction ms arbitrary: g)
  case (Cons m ms)
  show ?case
  proof (cases m)
    case (Renew ttl)
    then show ?thesis
      using Cons Q by (auto simp: wp_seqp wp_bindp intro!: wp_renew [OF J l(1)] split: sum.splits)
  next
    case Release
    then show ?thesis
      using Cons Q by (auto simp: wp_seqp wp_catchp lock_release_def intro!: wp_release_attempts [OF J l(1)] split: sum.splits)
  qed
qed (simp add: Q)

lemma wp_lock_session:
  assumes "has_putIfAbsent J" "has_putIfMatch J"
  shows "wp (lease_resp (lockKey r)) (lease_allowed (lockKey r)) lease_upd (lock_session J r ow ttl ms) lease_g0 (\<lambda>_ _. True)"
  unfolding lock_session_def wp_bindp
  by (rule wp_mono [OF wp_acquire [OF assms]])
     (auto simp: wp_seqp intro!: wp_lock_methods [OF assms(2)] split: sum.splits option.splits)

section \<open>Properties\<close>



text \<open>
  a run lock passes on. When no other worker interferes, acquiring a free or expired lock succeeds with a fresh token
  and writes the lease; a live lock is refused and left alone; renewing with the current token
  extends the lease, renewing with another token answers false and changes nothing; after a
  release the next acquire succeeds.
\<close>

theorem lock_lifecycle:
  assumes "has_putIfAbsent J" and "has_putIfMatch J" and "\<not> has_now J"
    and "map_of (store (journal w)) (lockKey r) = Some (LockRecord ow e t)"
    and "run env (acquireRunLock J r me ttl None) w = (res, w')"
  shows "(clock w \<le> e \<longrightarrow> res = Inr None \<and> journal w' = journal w)
    \<and> (e < clock w \<longrightarrow> (\<exists>u. res = Inr (Some (mkLock r me u)) \<and> u \<notin> set (used_uuids w)
          \<and> map_of (store (journal w')) (lockKey r) = Some (LockRecord me (clock w + ttl) u)))
    \<and> fst (run env (lock_renew J (mkLock r ow t2) ttl) w) = Inr (t2 = t)
    \<and> (t2 \<noteq> t \<longrightarrow> snd (run env (lock_renew J (mkLock r ow t2) ttl) w) = w)
    \<and> map_of (store (journal (snd (run env (lock_release J (mkLock r ow t)) w)))) (lockKey r) = Some (LockRecord ow 0 t)"
proof -
  have get: "mem_get (lockKey r) (journal w) = LockRecord ow e t" using assms(4) by (simp add: mem_get_def)
  have has: "\<exists>y. map_of (store (journal w)) (lockKey r) = Some y" using assms(4) by blast
  show ?thesis
    using assms(5) get has assms(1-4) fresh_uuid_notin [of "used_uuids w"]
    by (auto simp: acquireRunLock_def lock_renew_def lock_release_def numeral_3_eq_3 lock_now_def claim_def Let_def prog_simps
        mem_putIfAbsent_def mem_putIfMatch_def mkLock_def domIff split: if_splits)
qed

theorem lock_lifecycle_witness:
  "let w = new_world\<lparr>clock := 5, journal := mem_put 0 (lockKey ''r'') (LockRecord ''a'' 3 ''t'') empty_journal\<rparr> in
   \<exists>u. fst (run (\<lambda>_ _ _. Inr JUndef) (acquireRunLock full_caps ''r'' ''b'' 10 None) w) = Inr (Some (mkLock ''r'' ''b'' u))"
proof -
  let ?w = "new_world\<lparr>clock := 5, journal := mem_put 0 (lockKey ''r'') (LockRecord ''a'' 3 ''t'') empty_journal\<rparr>"
  have "map_of (store (journal ?w)) (lockKey ''r'') = Some (LockRecord ''a'' 3 ''t'')"
    by (simp add: mem_put_def)
  then show ?thesis
    using lock_lifecycle [of full_caps ?w "''r''" "''a''" 3 "''t''" "\<lambda>_ _ _. Inr JUndef" "''b''" 10
        "fst (run (\<lambda>_ _ _. Inr JUndef) (acquireRunLock full_caps ''r'' ''b'' 10 None) ?w)"
        "snd (run (\<lambda>_ _ _. Inr JUndef) (acquireRunLock full_caps ''r'' ''b'' 10 None) ?w)" "''t''"]
    by (auto simp: full_caps_def)
qed

end
