(* ===== verification/DurableTool.thy ===== *)
theory DurableTool
  imports Limits RunLock
begin

text \<open>
  The durable wrapper around a tool call (\<open>packages/durable/src/durable-tool.ts\<close>): the key of the
  call, replay of a recorded result, the approval, confirmation, policy, duplicate, compensation, taint and limit
  gates, the claim loop, and the execution itself with its terminal record.

  The model is for tools without \<open>semanticIdentity\<close>; with none, the semantic gate and the
  cross-channel identity of the code do nothing. The tool's own functions (\<open>execute\<close>,
  \<open>recover\<close>, \<open>lookup\<close>), the guard and the tool-result processors are outside code, called through
  \<^const>\<open>ext\<close>; a timeout of the tool is one of the errors \<open>execute\<close> may answer. Message texts are
  shortened, console output and the in-memory replay log are left out. \<open>execute\<close> is
  divided into the definitions below in the order of the source; a gate answers \<open>Some\<close> output when the call ends
  there. The claim loop runs on fuel.
\<close>

section \<open>Tools, contexts and calls\<close>

datatype window = WRun | WCrossRun | WThread

record AnyTool =
  t_execute :: bool
  t_window :: "window option"
  t_idempotency_args :: bool
  t_idempotencyKey :: "(js \<Rightarrow> err + js) option"
  t_idempotent :: "bool option"
  t_sideEffect :: "bool option"
  t_untrusted :: bool
  t_confirm :: "((js \<Rightarrow> string) option) option"
  t_effectClass :: string
  t_timeoutMs :: "int option"
  t_claimTtlMs :: "int option"
  t_maxRetries :: "int option"
  t_recover :: bool
  t_lookup :: bool
  t_compensate :: bool

record DurableCtx =
  c_caps :: caps
  c_runId :: string
  c_threadId :: "string option"
  c_identity :: Caller
  c_channel :: string
  c_guard :: bool
  c_approvals :: "((string \<times> bool) list) option"
  c_strictReplay :: bool
  c_replayCache :: "js js_map option"
  c_limits :: "RunLimits option"
  c_blockedAsSentinel :: bool
  c_noApprovals :: bool
  c_toolPolicy :: "string option"
  c_toolTimeoutMs :: "int option"
  c_claimTtlMs :: "int option"
  c_processors :: nat
  c_orgScope :: string
  c_sha256 :: "string \<Rightarrow> string"
  c_usage :: usage_fn
  c_fuel :: nat

definition CLAIM_TTL_MS :: int where "CLAIM_TTL_MS = 30000"
definition DEFAULT_MAX_RETRIES :: int where "DEFAULT_MAX_RETRIES = 3"
definition POLL_MIN_MS :: int where "POLL_MIN_MS = 15"
definition POLL_MAX_MS :: int where "POLL_MAX_MS = 200"

definition tool_window :: "AnyTool \<Rightarrow> window" where
  "tool_window tool = (case t_window tool of Some w \<Rightarrow> w | None \<Rightarrow> WRun)"

text \<open>\<open>mode === 'args'\<close>\<close>

definition args_mode :: "AnyTool \<Rightarrow> bool" where
  "args_mode tool \<longleftrightarrow> tool_window tool \<noteq> WRun \<or> t_idempotency_args tool \<or> t_idempotencyKey tool \<noteq> None"

definition side_effect :: "AnyTool \<Rightarrow> bool" where
  "side_effect tool = (case t_sideEffect tool of Some b \<Rightarrow> b | None \<Rightarrow> t_idempotent tool \<noteq> Some True)"

definition tool_hash :: "DurableCtx \<Rightarrow> AnyTool \<Rightarrow> js \<Rightarrow> err + string" where
  "tool_hash ctx tool input =
     (case t_idempotencyKey tool of
        Some f \<Rightarrow> (case f input of Inl e \<Rightarrow> Inl e | Inr v \<Rightarrow> argsHash (c_sha256 ctx) v)
      | None \<Rightarrow> argsHash (c_sha256 ctx) input)"

definition thread_given :: "DurableCtx \<Rightarrow> bool" where
  "thread_given ctx \<longleftrightarrow> (case c_threadId ctx of None \<Rightarrow> False | Some t \<Rightarrow> t \<noteq> [])"

definition eff_window :: "DurableCtx \<Rightarrow> AnyTool \<Rightarrow> window" where
  "eff_window ctx tool = (if tool_window tool = WThread \<and> \<not> thread_given ctx then WRun else tool_window tool)"

definition thread_of :: "DurableCtx \<Rightarrow> string" where
  "thread_of ctx = (case c_threadId ctx of Some t \<Rightarrow> t | None \<Rightarrow> [])"

definition tool_key :: "DurableCtx \<Rightarrow> AnyTool \<Rightarrow> string \<Rightarrow> string \<Rightarrow> string \<Rightarrow> err + key" where
  "tool_key ctx tool toolName toolCallId hash =
     (if \<not> args_mode tool then Inr (key_tool (c_runId ctx) toolCallId)
      else case eff_window ctx tool of
        WCrossRun \<Rightarrow> key_toolCrossRun toolName hash
      | WThread \<Rightarrow> key_toolThread (thread_of ctx) toolName hash
      | WRun \<Rightarrow> key_toolByArgs (c_runId ctx) toolName hash)"

definition idempotency_key :: "DurableCtx \<Rightarrow> AnyTool \<Rightarrow> string \<Rightarrow> string \<Rightarrow> string \<Rightarrow> string" where
  "idempotency_key ctx tool toolName toolCallId hash =
     (let orgPart = (if c_orgScope ctx \<noteq> [] then ''org:'' @ c_orgScope ctx @ '':'' else []) in
      if \<not> args_mode tool then orgPart @ c_runId ctx @ '':'' @ toolCallId
      else case eff_window ctx tool of
        WCrossRun \<Rightarrow> orgPart @ toolName @ '':'' @ hash
      | WThread \<Rightarrow> orgPart @ ''thr:'' @ thread_of ctx @ '':'' @ toolName @ '':'' @ hash
      | WRun \<Rightarrow> orgPart @ c_runId ctx @ '':'' @ toolName @ '':'' @ hash)"

text \<open>One call: what \<open>execute\<close> computes before it first awaits.\<close>

record tcall =
  k_ctx :: DurableCtx
  k_tool :: AnyTool
  k_name :: string
  k_input :: js
  k_id :: string
  k_hash :: string
  k_key :: key
  k_idem :: string
  k_ownerKey :: "key option"

definition prepare_call :: "DurableCtx \<Rightarrow> AnyTool \<Rightarrow> string \<Rightarrow> js \<Rightarrow> string \<Rightarrow> err + tcall" where
  "prepare_call ctx tool toolName input toolCallId =
     (case tool_hash ctx tool input of
        Inl e \<Rightarrow> Inl e
      | Inr hash \<Rightarrow>
          (case tool_key ctx tool toolName toolCallId hash of
             Inl e \<Rightarrow> Inl e
           | Inr key \<Rightarrow>
               (let mk = (\<lambda>ok. \<lparr>k_ctx = ctx, k_tool = tool, k_name = toolName, k_input = input, k_id = toolCallId, k_hash = hash,
                     k_key = key, k_idem = idempotency_key ctx tool toolName toolCallId hash, k_ownerKey = ok\<rparr>) in
                if eff_window ctx tool = WCrossRun \<and> args_mode tool
                then map_sum id (\<lambda>ok. mk (Some ok)) (key_toolCrossRunOwner toolName hash)
                else Inr (mk None))))"

abbreviation k_caps :: "tcall \<Rightarrow> caps" where "k_caps c \<equiv> c_caps (k_ctx c)"
abbreviation k_run :: "tcall \<Rightarrow> string" where "k_run c \<equiv> c_runId (k_ctx c)"

section \<open>Records\<close>

definition status_of :: "js \<Rightarrow> js" where "status_of r = js_field ''status'' r"

definition has_status :: "string list \<Rightarrow> js \<Rightarrow> bool" where
  "has_status ss r \<longleftrightarrow> js_truthy r \<and> status_of r \<in> JStr ` set ss"

definition stamped :: "js_record \<Rightarrow> js" where "stamped r = JObj (stampFormat r)"

definition running_record :: "int \<Rightarrow> int \<Rightarrow> js_record" where
  "running_record startedAt attempts = [(''status'', JStr ''running''), (''startedAt'', JNum startedAt), (''attempts'', JNum attempts)]"

definition terminal_record :: "string \<Rightarrow> js \<Rightarrow> js_record" where
  "terminal_record status output = [(''status'', JStr status), (''output'', output)]"

definition succeeded_record :: "tcall \<Rightarrow> js \<Rightarrow> js_record" where
  "succeeded_record c output =
     [(''status'', JStr ''succeeded''), (''output'', output), (''argsHash'', JStr (k_hash c)), (''toolName'', JStr (k_name c))]
     @ (if t_compensate (k_tool c) then [(''input'', k_input c)] else [])"

definition reflected_record :: "tcall \<Rightarrow> js \<Rightarrow> js_record" where
  "reflected_record c output =
     [(''status'', JStr ''reflected''), (''output'', output), (''argsHash'', JStr (k_hash c)), (''toolName'', JStr (k_name c))]"

definition failed_record :: "err \<Rightarrow> int \<Rightarrow> bool \<Rightarrow> js_record" where
  "failed_record e attempts sideEffect =
     [(''status'', JStr ''failed''), (''error'', JStr (err_msg e)), (''attempts'', JNum attempts), (''sideEffect'', JBool sideEffect)]"

definition attempts_of :: "js \<Rightarrow> int" where
  "attempts_of r = (let a = js_field ''attempts'' r in if a = JUndef \<or> a = JNull then 1 else js_int a)"

definition fields_of :: "js \<Rightarrow> js_record" where
  "fields_of v = (case v of JObj kvs \<Rightarrow> kvs | _ \<Rightarrow> [])"

definition blockedOrThrow :: "tcall \<Rightarrow> string \<Rightarrow> js prog" where
  "blockedOrThrow c code =
     (if \<not> c_blockedAsSentinel (k_ctx c) then Raise (Err code (k_name c))
      else Ret (JObj [(''__gnl_blocked'', JObj [(''toolCallId'', JStr (k_id c)), (''toolName'', JStr (k_name c)), (''code'', JStr code)])]))"

definition dup_marker :: "string \<Rightarrow> int \<Rightarrow> js_record" where
  "dup_marker firstToolCallId at = [(''firstToolCallId'', JStr firstToolCallId), (''at'', JNum at)]"

text \<open>\<open>now - cur.at > ttl\<close>; a missing time compares false.\<close>

definition older_than :: "int \<Rightarrow> js \<Rightarrow> int \<Rightarrow> bool" where
  "older_than now at ttl = (case at of JNum t \<Rightarrow> now - t > ttl | _ \<Rightarrow> False)"

definition claimDupMarker :: "caps \<Rightarrow> key \<Rightarrow> js \<Rightarrow> int \<Rightarrow> int option \<Rightarrow> bool prog" where
  "claimDupMarker J dupKey next staleTtlMs windowTtlMs =
     bindp (get dupKey) (\<lambda>raw.
       if raw = JUndef then claim J dupKey next
       else bindp (lock_now J) (\<lambda>now.
         let inFlight = (js_field ''inFlight'' raw = JBool True); at = js_field ''at'' raw;
             windowExpired = (case windowTtlMs of Some w \<Rightarrow> \<not> inFlight \<and> older_than now at w | None \<Rightarrow> False);
             takeable = (js_field ''released'' raw = JBool True \<or> windowExpired \<or> (inFlight \<and> older_than now at staleTtlMs)) in
         if \<not> takeable then Ret False
         else if has_putIfMatch J then putIfMatch dupKey raw next
         else seqp (put dupKey next) (Ret True)))"

definition dupMarkerKey :: "string \<Rightarrow> string \<Rightarrow> string \<Rightarrow> key" where
  "dupMarkerKey runId toolName hash = key_proc runId (''dup-'' @ toolName @ ''-'' @ hash)"

definition threadDupMarkerKey :: "string \<Rightarrow> string \<Rightarrow> string \<Rightarrow> err + key" where
  "threadDupMarkerKey threadId toolName hash =
     (case assertThreadId threadId of Some e \<Rightarrow> Inl e | None \<Rightarrow> Inr (''xthr:'' @ threadId @ '':dup-'' @ toolName @ ''-'' @ hash))"

record dup_cfg =
  dup_action :: string
  dup_thread :: bool
  dup_ttlMs :: "int option"

definition dup_spec :: "js \<Rightarrow> dup_cfg" where
  "dup_spec spec = \<lparr>dup_action = js_string (js_field ''action'' spec), dup_thread = (js_field ''scope'' spec = JStr ''thread''),
     dup_ttlMs = (case js_field ''ttlMs'' spec of JNum n \<Rightarrow> Some n | _ \<Rightarrow> None)\<rparr>"

definition dupConfigOf :: "js \<Rightarrow> string \<Rightarrow> dup_cfg" where
  "dupConfigOf raw effectClass =
     (case raw of
        JObj _ \<Rightarrow>
          if js_has_field ''byClass'' raw then
            (let own = (if effectClass \<noteq> [] then js_field effectClass (js_field ''byClass'' raw) else JUndef);
                 dflt = js_field ''default'' raw
             in dup_spec (if js_truthy own then own else if js_truthy dflt then dflt else JObj [(''action'', JStr ''warn'')]))
          else dup_spec raw
      | JStr a \<Rightarrow> \<lparr>dup_action = a, dup_thread = False, dup_ttlMs = None\<rparr>
      | _ \<Rightarrow> \<lparr>dup_action = ''warn'', dup_thread = False, dup_ttlMs = None\<rparr>)"

definition mirrorUnderRun :: "tcall \<Rightarrow> js_record \<Rightarrow> unit prog" where
  "mirrorUnderRun c record =
     (if prefix (k_run c @ '':'') (k_key c) then Ret ()
      else if c_noApprovals (k_ctx c) then Ret ()
      else catchp (put (key_tool (k_run c) (k_id c)) (stamped (js_set ''mirrorOf'' (JStr (k_key c)) record))) (\<lambda>_. Ret ()))"

text \<open>The marker a success leaves for the duplicate guard.\<close>

definition write_dup_success :: "tcall \<Rightarrow> key \<Rightarrow> unit prog" where
  "write_dup_success c dupKey =
     bindp (lock_now (k_caps c)) (\<lambda>at.
       let success = JObj (dup_marker (k_id c) at) in
       bindp (claim (k_caps c) dupKey success) (\<lambda>won.
         if won then Ret ()
         else bindp (get dupKey) (\<lambda>raw.
           if js_truthy raw \<and> (js_field ''released'' raw = JBool True
                \<or> (js_field ''inFlight'' raw = JBool True \<and> js_field ''firstToolCallId'' raw = JStr (k_id c)))
           then (if has_putIfMatch (k_caps c) then bindp (putIfMatch dupKey raw success) (\<lambda>_. Ret ()) else put dupKey success)
           else Ret ())))"

definition writeToolTerminal :: "tcall \<Rightarrow> js_record \<Rightarrow> key option \<Rightarrow> unit prog" where
  "writeToolTerminal c record dupKey =
     (let status = js_string (record_field ''status'' record);
          named = (if js_truthy (record_field ''toolName'' record) then record else js_set ''toolName'' (JStr (k_name c)) record);
          full = (if status \<in> {''succeeded'', ''denied'', ''reflected''}
                  then js_set ''resolvedToolCallIds'' (JArr [JStr (k_id c)]) named else named) in
      seqp (put (k_key c) (stamped full))
      (seqp (mirrorUnderRun c full)
      (seqp (case dupKey of Some dk \<Rightarrow> if status = ''succeeded'' then write_dup_success c dk else Ret () | None \<Rightarrow> Ret ())
        (case c_limits (k_ctx c) of
           Some limits \<Rightarrow> recordToolOutcome (c_usage (k_ctx c)) (k_caps c) (k_run c) (k_id c) (k_name c) (k_hash c) status
             (status = ''failed'' \<and> record_field ''sideEffect'' record = JBool True) limits
         | None \<Rightarrow> Ret ()))))"

definition trackResolvedToolCallId :: "tcall \<Rightarrow> js \<Rightarrow> js prog" where
  "trackResolvedToolCallId c record =
     (if \<not> has_status [''succeeded'', ''denied'', ''reflected''] record then Ret record
      else
        let ids = js_elems (js_field ''resolvedToolCallIds'' record) in
        if JStr (k_id c) \<in> set ids then Ret record
        else let updated = js_set ''resolvedToolCallIds'' (JArr (ids @ [JStr (k_id c)])) (fields_of record) in
          seqp (put (k_key c) (stamped updated)) (Ret (JObj updated)))"

definition suspend_of :: "js \<Rightarrow> js" where
  "suspend_of record = js_field ''__gnl_suspend'' (js_field ''output'' record)"

definition consumeExistingRecord :: "tcall \<Rightarrow> js \<Rightarrow> js prog" where
  "consumeExistingRecord c record =
     bindp (trackResolvedToolCallId c record) (\<lambda>latest.
       if status_of latest = JStr ''suspended'' then
         let sus = suspend_of latest;
             output = (if js_truthy sus \<and> js_field ''toolCallId'' sus \<noteq> JStr (k_id c)
                       then JObj (js_set ''__gnl_suspend'' (JObj (js_set ''toolCallId'' (JStr (k_id c)) (fields_of sus)))
                                    (fields_of (js_field ''output'' latest)))
                       else js_field ''output'' latest) in
         seqp (mirrorUnderRun c (js_set ''output'' output (fields_of latest))) (Ret output)
       else seqp (mirrorUnderRun c (fields_of latest)) (Ret (js_field ''output'' latest)))"

definition lookup_approval :: "DurableCtx \<Rightarrow> js \<Rightarrow> bool option" where
  "lookup_approval ctx i =
     (case c_approvals ctx of None \<Rightarrow> None | Some a \<Rightarrow> (case i of JStr s \<Rightarrow> map_of a s | _ \<Rightarrow> None))"

definition nestedApprovalsFor :: "js \<Rightarrow> DurableCtx \<Rightarrow> js" where
  "nestedApprovalsFor record ctx =
     (if c_approvals ctx = None then JUndef
      else
        let sus = (if status_of record = JStr ''suspended'' then suspend_of record else JUndef) in
        if js_field ''kind'' sus \<noteq> JStr ''nested'' then JObj []
        else JObj (foldl (\<lambda>m i. case lookup_approval ctx (js_field ''toolCallId'' i) of
                            Some b \<Rightarrow> js_set (js_string (js_field ''toolCallId'' i)) (JBool b) m | None \<Rightarrow> m) []
               (js_elems (js_field ''interrupts'' (js_field ''nested'' sus)))))"

section \<open>The phases of execute\<close>

definition assertCrossRunOwner :: "tcall \<Rightarrow> unit prog" where
  "assertCrossRunOwner c =
     (case k_ownerKey c of
        None \<Rightarrow> Ret ()
      | Some ok \<Rightarrow> bindp (get ok) (\<lambda>rec.
          if decideRunAccess (Owned (fieldsOwner rec) KOther True JUndef) (c_identity (k_ctx c)) = Allow then Ret ()
          else Raise (Err ''IdempotencyOwnerMismatchError'' (k_name c))))"

text \<open>A gate that ends the call with an output, or lets it go on.\<close>

definition or_else :: "('a option) prog \<Rightarrow> 'a prog \<Rightarrow> 'a prog" where
  "or_else gate rest = bindp gate (\<lambda>r. case r of Some x \<Rightarrow> Ret x | None \<Rightarrow> rest)"

definition ending :: "'a prog \<Rightarrow> ('a option) prog" where
  "ending p = bindp p (\<lambda>x. Ret (Some x))"

definition replay_gate :: "tcall \<Rightarrow> js \<Rightarrow> (js option) prog" where
  "replay_gate c record =
     (if has_status [''succeeded'', ''denied'', ''reflected''] record then
        if status_of record = JStr ''succeeded'' \<and> js_field ''argsHash'' record \<noteq> JUndef
           \<and> js_field ''argsHash'' record \<noteq> JStr (k_hash c) \<and> c_strictReplay (k_ctx c)
        then Raise (Err ''DivergenceError'' (k_name c))
        else ending (consumeExistingRecord c record)
      else Ret None)"

definition taint_thread :: "tcall \<Rightarrow> string option" where
  "taint_thread c =
     (case c_limits (k_ctx c) of Some l \<Rightarrow> if taintScope_thread l then c_threadId (k_ctx c) else None | None \<Rightarrow> None)"

definition mark_untrusted :: "tcall \<Rightarrow> unit prog" where
  "mark_untrusted c =
     (if t_untrusted (k_tool c)
      then markRunTainted (k_caps c) (k_run c)
             [(''toolCallId'', JStr (k_id c)), (''toolName'', JStr (k_name c)), (''source'', JStr ''tool'')] (taint_thread c)
      else Ret ())"

definition is_proxy_suspend :: "js \<Rightarrow> bool" where
  "is_proxy_suspend record \<longleftrightarrow> status_of record = JStr ''suspended'' \<and> js_field ''kind'' (suspend_of record) = JStr ''nested''"

definition approved_for :: "tcall \<Rightarrow> js \<Rightarrow> bool option" where
  "approved_for c record = (if is_proxy_suspend record then None else lookup_approval (k_ctx c) (JStr (k_id c)))"

definition nested_answered :: "tcall \<Rightarrow> js \<Rightarrow> bool" where
  "nested_answered c record \<longleftrightarrow>
     js_field ''kind'' (suspend_of record) = JStr ''nested''
     \<and> list_ex (\<lambda>i. lookup_approval (k_ctx c) (js_field ''toolCallId'' i) \<noteq> None)
         (js_elems (js_field ''interrupts'' (js_field ''nested'' (suspend_of record))))"

definition denied_output :: "string \<Rightarrow> js" where
  "denied_output reason = JObj [(''__denied'', JBool True), (''reason'', JStr reason)]"

definition suspend_output :: "tcall \<Rightarrow> string \<Rightarrow> string \<Rightarrow> js" where
  "suspend_output c reason kind = JObj [(''__gnl_suspend'', JObj [(''toolCallId'', JStr (k_id c)), (''toolName'', JStr (k_name c)),
     (''args'', k_input c), (''reason'', JStr reason), (''kind'', JStr kind)])]"

definition finish_with :: "tcall \<Rightarrow> js_record \<Rightarrow> js \<Rightarrow> (js option) prog" where
  "finish_with c record output = seqp (writeToolTerminal c record None) (Ret (Some output))"

definition override_kind :: "js \<Rightarrow> js" where
  "override_kind sus =
     (if js_truthy (js_field ''kind'' sus) then js_field ''kind'' sus
      else let r0 = js_string (js_field ''reason'' sus) in
        JStr (if prefix ''Duplicate side effect'' r0 then ''duplicate''
              else if prefix ''Semantically similar'' r0 then ''semantic''
              else if sublist ''explicit confirmation'' r0 then ''confirm'' else ''other''))"

definition write_override :: "tcall \<Rightarrow> js \<Rightarrow> unit prog" where
  "write_override c record =
     catchp (bindp (lock_now (k_caps c)) (\<lambda>at.
         put (key_proc (k_run c) (''override-'' @ k_id c))
           (JObj ([(''at'', JNum at), (''toolCallId'', JStr (k_id c)), (''toolName'', JStr (k_name c)),
                   (''reason'', js_field ''reason'' (suspend_of record)), (''kind'', override_kind (suspend_of record))]
                  @ (if c_channel (k_ctx c) \<noteq> [] then [(''channel'', JStr (c_channel (k_ctx c)))] else [])))))
       (\<lambda>_. Ret ())"

definition semTombKey :: "string \<Rightarrow> string \<Rightarrow> string \<Rightarrow> string \<Rightarrow> err + key" where
  "semTombKey threadId toolName priorHash newHash =
     (case assertThreadId threadId of
        Some e \<Rightarrow> Inl e
      | None \<Rightarrow> Inr (''xthr:'' @ threadId @ '':semtomb-'' @ toolName @ ''-'' @ priorHash @ ''-'' @ newHash))"

definition write_sem_tomb :: "tcall \<Rightarrow> js \<Rightarrow> unit prog" where
  "write_sem_tomb c record =
     (let prior = js_field ''priorHash'' (js_field ''semPair'' (suspend_of record)) in
      if js_truthy prior \<and> thread_given (k_ctx c) then
        catchp (bindp (liftp (semTombKey (thread_of (k_ctx c)) (k_name c) (js_string prior) (k_hash c))) (\<lambda>tomb.
            bindp (lock_now (k_caps c)) (\<lambda>at. put tomb (JObj [(''at'', JNum at), (''by'', JStr (k_id c))]))))
          (\<lambda>_. Ret ())
      else Ret ())"

definition suspended_arm :: "tcall \<Rightarrow> js \<Rightarrow> (js option) prog" where
  "suspended_arm c record =
     (if approved_for c record = Some False then
        let out = denied_output (if js_truthy (js_field ''reason'' (suspend_of record)) then ''A human REFUSED this call'' else ''Approval denied.'')
        in finish_with c (terminal_record ''denied'' out) out
      else if approved_for c record \<noteq> Some True \<and> \<not> nested_answered c record then ending (consumeExistingRecord c record)
      else if \<not> is_proxy_suspend record then seqp (write_override c record) (seqp (write_sem_tomb c record) (Ret None))
      else Ret None)"

definition prior_completed :: "tcall \<Rightarrow> bool prog" where
  "prior_completed c =
     (if \<not> thread_given (k_ctx c) then Ret False
      else catchp (bindp (liftp (threadDupMarkerKey (thread_of (k_ctx c)) (k_name c) (k_hash c))) (\<lambda>dk.
             bindp (get dk) (\<lambda>prior.
               Ret (js_truthy prior \<and> js_field ''inFlight'' prior \<noteq> JBool True \<and> js_field ''released'' prior \<noteq> JBool True))))
           (\<lambda>_. Ret False))"

definition incident :: "tcall \<Rightarrow> string \<Rightarrow> string \<Rightarrow> string \<Rightarrow> unit prog" where
  "incident c source action message =
     recordIncident (k_run c) \<lparr>inc_source = source, inc_action = action, inc_toolName = k_name c, inc_toolCallId = k_id c,
       inc_message = message, inc_detail = JObj [(''toolName'', JStr (k_name c)), (''argsHash'', JStr (k_hash c)), (''toolCallId'', JStr (k_id c))]\<rparr>"

definition confirm_arm :: "tcall \<Rightarrow> js \<Rightarrow> (js option) prog" where
  "confirm_arm c record =
     (if approved_for c record = Some False then
        let out = denied_output ''Confirmation denied.'' in finish_with c (terminal_record ''denied'' out) out
      else bindp (prior_completed c) (\<lambda>repeated.
        let base = (case t_confirm (k_tool c) of Some (Some f) \<Rightarrow> f (k_input c) | _ \<Rightarrow> ''requires explicit confirmation before it runs.'');
            reason = (if repeated then base @ '' Identical work was ALREADY COMPLETED earlier'' else base);
            out = suspend_output c reason ''confirm'' in
        seqp (if repeated then incident c ''duplicate-guard'' ''suspend'' reason else Ret ())
          (finish_with c (terminal_record ''suspended'' out) out)))"

definition guard_arm :: "tcall \<Rightarrow> js \<Rightarrow> (js option) prog" where
  "guard_arm c record =
     bindp (readRunTaint (k_run c)) (\<lambda>tainted.
     bindp (ext ''guard'' (JObj [(''toolName'', JStr (k_name c)), (''args'', k_input c), (''toolCallId'', JStr (k_id c)),
              (''runId'', JStr (k_run c)), (''tainted'', tainted)])) (\<lambda>decision.
     bindp (propp ''action'' decision) (\<lambda>action.
       let because = (\<lambda>d. let r = js_field ''reason'' decision in if r = JUndef \<or> r = JNull then d else js_string r) in
       if action = JStr ''deny'' then
         let out = denied_output (because ''Denied by policy.'') in finish_with c (terminal_record ''denied'' out) out
       else if action = JStr ''require-approval'' then
         if approved_for c record = Some False then
           let out = denied_output (because ''Approval denied.'') in finish_with c (terminal_record ''denied'' out) out
         else if approved_for c record \<noteq> Some True then
           let out = suspend_output c (because []) ''guard'' in finish_with c (terminal_record ''suspended'' out) out
         else Ret None
       else Ret None)))"

definition policy_gate :: "tcall \<Rightarrow> js \<Rightarrow> (js option) prog" where
  "policy_gate c record =
     (if has_status [''suspended''] record then suspended_arm c record
      else if record = JUndef \<and> t_confirm (k_tool c) \<noteq> None \<and> approved_for c record \<noteq> Some True then confirm_arm c record
      else if c_guard (k_ctx c) then guard_arm c record
      else Ret None)"

subsection \<open>The duplicate guard\<close>

definition dup_cfg_of :: "tcall \<Rightarrow> dup_cfg" where
  "dup_cfg_of c = dupConfigOf (case c_limits (k_ctx c) of Some l \<Rightarrow> dup_config l | None \<Rightarrow> JUndef) (t_effectClass (k_tool c))"

text \<open>The key of the duplicate marker, when the guard is on for this call; building it may throw.\<close>

definition dup_key_of :: "tcall \<Rightarrow> err + key option" where
  "dup_key_of c =
     (if \<not> args_mode (k_tool c) \<and> side_effect (k_tool c) \<and> dup_action (dup_cfg_of c) \<noteq> ''off'' then
        if dup_thread (dup_cfg_of c) \<and> thread_given (k_ctx c)
        then map_sum id Some (threadDupMarkerKey (thread_of (k_ctx c)) (k_name c) (k_hash c))
        else Inr (Some (dupMarkerKey (k_run c) (k_name c) (k_hash c)))
      else Inr None)"

definition limit_output :: "tcall \<Rightarrow> string \<Rightarrow> js" where
  "limit_output c kind = JObj [(''__gnl_limit_exceeded'', JObj [(''toolCallId'', JStr (k_id c)), (''toolName'', JStr (k_name c)), (''kind'', JStr kind)])]"

definition reflect_output :: "tcall \<Rightarrow> string \<Rightarrow> js" where
  "reflect_output c warning = JObj [(''__gnl_reflected'', JBool True), (''warning'', JStr warning)]"

definition dup_nudge :: "tcall \<Rightarrow> key \<Rightarrow> js \<Rightarrow> bool prog" where
  "dup_nudge c dupKey marker =
     (if dup_action (dup_cfg_of c) = ''reflect'' \<and> \<not> js_truthy (js_field ''nudged'' marker) then
        bindp date_now (\<lambda>at.
        bindp (claim (k_caps c) (key_proc (k_run c) (''dupnudge-'' @ k_name c @ ''-'' @ k_hash c))
                 (JObj [(''at'', JNum at), (''toolCallId'', JStr (k_id c))])) (\<lambda>won.
          seqp (put dupKey (JObj (js_set ''nudged'' (JBool True) (fields_of marker)))) (Ret won)))
      else Ret False)"

definition dup_hit :: "tcall \<Rightarrow> key \<Rightarrow> js \<Rightarrow> (js option) prog" where
  "dup_hit c dupKey marker =
     bindp (dup_nudge c dupKey marker) (\<lambda>nudgeWon.
       let action = dup_action (dup_cfg_of c) in
       if action = ''block'' \<or> (action = ''reflect'' \<and> (js_truthy (js_field ''nudged'' marker) \<or> \<not> nudgeWon)) then
         seqp (incident c ''duplicate-guard'' ''block'' ''duplicate blocked'') (Ret (Some (limit_output c ''duplicateSideEffect'')))
       else if action = ''skip'' then
         let out = JObj [(''__gnl_skipped'', JBool True), (''notice'', JStr ''NOT executed: the identical action already completed'')] in
         seqp (incident c ''duplicate-guard'' ''skip'' ''duplicate skipped'') (finish_with c (terminal_record ''denied'' out) out)
       else if action = ''suspend'' then
         bindp (lock_now (k_caps c)) (\<lambda>nowS.
           let at = js_int (js_field ''at'' marker);
               out = JObj [(''__gnl_suspend'', JObj [(''toolCallId'', JStr (k_id c)), (''toolName'', JStr (k_name c)), (''args'', k_input c),
                 (''reason'', JStr ''Duplicate side effect''), (''kind'', JStr ''duplicate''),
                 (''prior'', JObj [(''toolCallId'', js_field ''firstToolCallId'' marker), (''at'', js_field ''at'' marker), (''ageMs'', JNum (max 0 (nowS - at)))])])] in
           seqp (incident c ''duplicate-guard'' ''suspend'' ''Duplicate side effect'') (finish_with c (terminal_record ''suspended'' out) out))
       else if action = ''reflect'' then
         let out = reflect_output c ''already succeeded with identical arguments'' in
         seqp (incident c ''duplicate-guard'' ''reflect'' ''already succeeded'') (finish_with c (reflected_record c out) out)
       else seqp (incident c ''duplicate-guard'' ''warn'' ''about to EXECUTE AGAIN'') (Ret None))"

definition dup_gate :: "tcall \<Rightarrow> bool option \<Rightarrow> key option \<Rightarrow> (js option) prog" where
  "dup_gate c approved dupKey =
     (case dupKey of
        None \<Rightarrow> Ret None
      | Some dk \<Rightarrow>
          if approved = Some True then Ret None
          else bindp (get dk) (\<lambda>marker.
            bindp (case dup_ttlMs (dup_cfg_of c) of
                     Some ttl \<Rightarrow> if js_truthy marker then bindp (lock_now (k_caps c)) (\<lambda>now.
                         Ret (if older_than now (js_field ''at'' marker) ttl then JUndef else marker)) else Ret marker
                   | None \<Rightarrow> Ret marker)
              (\<lambda>m. if js_truthy m \<and> \<not> js_truthy (js_field ''released'' m) \<and> \<not> js_truthy (js_field ''inFlight'' m)
                   then dup_hit c dk m else Ret None)))"

subsection \<open>Compensation, taint and limit gates\<close>

definition tombstoneKey :: "string \<Rightarrow> key" where "tombstoneKey runId = key_proc runId ''__gnl_compensated''"

definition runCompensated :: "string \<Rightarrow> bool prog" where
  "runCompensated runId = bindp (get (tombstoneKey runId)) (\<lambda>v. Ret (v \<noteq> JUndef))"

definition compensated_gate :: "tcall \<Rightarrow> (js option) prog" where
  "compensated_gate c =
     (if \<not> side_effect (k_tool c) then Ret None
      else bindp (runCompensated (k_run c)) (\<lambda>dead. if dead then ending (blockedOrThrow c ''CompensatedRunError'') else Ret None))"

definition taint_action :: "tcall \<Rightarrow> string" where
  "taint_action c = (case c_limits (k_ctx c) of Some l \<Rightarrow> (case taintedSideEffects l of Some a \<Rightarrow> a | None \<Rightarrow> ''warn'') | None \<Rightarrow> ''warn'')"

definition taint_hit :: "tcall \<Rightarrow> (js option) prog" where
  "taint_hit c =
     (if taint_action c = ''block'' then
        seqp (incident c ''taint-guard'' ''block'' ''untrusted external content'') (Ret (Some (limit_output c ''taintedSideEffect'')))
      else if taint_action c = ''suspend'' then
        let out = suspend_output c ''Tainted context'' ''taint'' in
        seqp (incident c ''taint-guard'' ''suspend'' ''Tainted context'') (finish_with c (terminal_record ''suspended'' out) out)
      else if taint_action c = ''reflect'' then
        bindp date_now (\<lambda>at.
        bindp (claim (k_caps c) (key_proc (k_run c) (''taintnudge-'' @ k_name c @ ''-'' @ k_hash c))
                 (JObj [(''at'', JNum at), (''toolCallId'', JStr (k_id c))])) (\<lambda>won.
          if won then
            let out = reflect_output c ''Untrusted external content'' in
            seqp (incident c ''taint-guard'' ''reflect'' ''Untrusted external content'') (finish_with c (reflected_record c out) out)
          else seqp (incident c ''taint-guard'' ''warn'' ''EXECUTED in a tainted context after reconsidering'') (Ret None)))
      else seqp (incident c ''taint-guard'' ''warn'' ''about to execute AFTER untrusted external content'') (Ret None))"

definition taint_gate :: "tcall \<Rightarrow> bool option \<Rightarrow> (js option) prog" where
  "taint_gate c approved =
     (if side_effect (k_tool c) \<and> approved \<noteq> Some True \<and> taint_action c \<noteq> ''off'' then
        bindp (readRunTaint (k_run c)) (\<lambda>taint. if js_truthy taint then taint_hit c else Ret None)
      else Ret None)"

definition limit_gate :: "tcall \<Rightarrow> (js option) prog" where
  "limit_gate c =
     (case c_limits (k_ctx c) of
        None \<Rightarrow> Ret None
      | Some limits \<Rightarrow>
          bindp (checkToolGate (c_fuel (k_ctx c)) (c_usage (k_ctx c)) (k_caps c) (k_run c) (k_name c) (k_hash c) limits) (\<lambda>gate.
            case gate of
              None \<Rightarrow> Ret None
            | Some g \<Rightarrow>
                if gate_kind g = GReflect then
                  let out = reflect_output c ''already ran with identical arguments'' in
                  seqp (incident c ''loop-detection'' ''reflect'' ''already ran'') (finish_with c (reflected_record c out) out)
                else seqp (incident c (if gate_kind g = GLoop then ''loop-detection'' else ''max-tool-calls'') ''block'' ''limit'')
                       (Ret (Some (limit_output c (if gate_kind g = GLoop then ''loop'' else ''maxToolCalls''))))))"

subsection \<open>The claim loop\<close>

definition claim_ttl :: "tcall \<Rightarrow> int" where
  "claim_ttl c =
     (let orElse = (\<lambda>a b. case a of Some (x :: int) \<Rightarrow> x | None \<Rightarrow> b) in
      orElse (t_claimTtlMs (k_tool c)) (orElse (c_claimTtlMs (k_ctx c))
        (max CLAIM_TTL_MS (orElse (t_timeoutMs (k_tool c)) (orElse (c_toolTimeoutMs (k_ctx c)) 0)))))"

definition read_record :: "tcall \<Rightarrow> js prog" where
  "read_record c = bindp (get (k_key c)) (\<lambda>raw. liftp (upgrade_current raw))"

definition settled :: "js \<Rightarrow> bool" where
  "settled = has_status [''succeeded'', ''denied'', ''reflected'', ''suspended'']"

text \<open>
  What one pass through the loop body does: return an output, break with the record as it then stands, or
  continue, with \<open>recoverUnavailable\<close>, \<open>pollInterval\<close> and \<open>record\<close> for the next pass.
\<close>

datatype claim_step = Returns js | Claimed js | Again bool int js

definition returning :: "js prog \<Rightarrow> claim_step prog" where
  "returning p = bindp p (\<lambda>out. Ret (Returns out))"

text \<open>What follows a read that lost the race, in three places of the loop.\<close>

definition after_loss :: "tcall \<Rightarrow> bool \<Rightarrow> int \<Rightarrow> js \<Rightarrow> claim_step prog" where
  "after_loss c recUn poll record =
     (if settled record then returning (consumeExistingRecord c record)
      else if \<not> args_mode (k_tool c) then returning (blockedOrThrow c ''RunBusyError'')
      else Ret (Again recUn poll record))"

definition claim_fresh :: "tcall \<Rightarrow> bool \<Rightarrow> int \<Rightarrow> int \<Rightarrow> claim_step prog" where
  "claim_fresh c recUn poll nowTs =
     bindp (claim (k_caps c) (k_key c) (stamped (running_record nowTs 1))) (\<lambda>won.
       if won then
         seqp (case k_ownerKey c of
                 Some ok \<Rightarrow> seqp (claim (k_caps c) ok (JObj (ownerFields (c_identity (k_ctx c))))) (Ret ())
               | None \<Rightarrow> Ret ())
           (Ret (Claimed JUndef))
       else bindp (read_record c) (\<lambda>record.
         seqp (if js_truthy record then assertCrossRunOwner c else Ret ()) (after_loss c recUn poll record)))"

definition claim_wait :: "tcall \<Rightarrow> bool \<Rightarrow> int \<Rightarrow> int \<Rightarrow> claim_step prog" where
  "claim_wait c recUn poll remaining =
     (if \<not> args_mode (k_tool c) then returning (blockedOrThrow c ''RunBusyError'')
      else seqp (catchp (ext ''sleep'' (JNum (max 5 (min poll remaining)))) (\<lambda>_. Ret JUndef))
        (bindp (read_record c) (after_loss c recUn (min (poll * 2) POLL_MAX_MS))))"

definition answered :: "js \<Rightarrow> bool" where
  "answered probe \<longleftrightarrow> typeof_object probe \<and> (js_field ''done'' probe = JBool False \<or> js_field ''done'' probe = JBool True)"

text \<open>The output when the provider reports the work done, and the new \<open>recoverUnavailable\<close>.\<close>

definition recover_arm :: "tcall \<Rightarrow> bool option \<Rightarrow> key option \<Rightarrow> bool \<Rightarrow> js \<Rightarrow> (js option \<times> bool) prog" where
  "recover_arm c approved dupKey recUn record =
     (if side_effect (k_tool c) \<and> has_status [''running'', ''failed''] record \<and> approved \<noteq> Some True \<and> \<not> recUn \<and> t_recover (k_tool c) then
        catchp (bindp (ext ''recover'' (JObj [(''input'', k_input c), (''idempotencyKey'', JStr (k_idem c)), (''toolCallId'', JStr (k_id c))])) (\<lambda>probe.
            if \<not> answered probe then Raise (Err ''TypeError'' (k_name c))
            else if js_field ''done'' probe = JBool True then
              let output = js_field ''output'' probe in
              seqp (writeToolTerminal c (succeeded_record c output) dupKey) (seqp (mark_untrusted c) (Ret (Some output, recUn)))
            else Ret (None, recUn)))
          (\<lambda>_. Ret (None, True))
      else Ret (None, recUn))"

definition max_retries :: "tcall \<Rightarrow> int" where
  "max_retries c = (case t_maxRetries (k_tool c) of Some n \<Rightarrow> n | None \<Rightarrow> DEFAULT_MAX_RETRIES)"

definition retry_arm :: "tcall \<Rightarrow> bool option \<Rightarrow> bool \<Rightarrow> js \<Rightarrow> (js option) prog" where
  "retry_arm c approved recovered record =
     (if \<not> has_status [''failed'', ''running''] record then Ret None
      else if side_effect (k_tool c) \<and> approved \<noteq> Some True \<and> \<not> recovered then ending (blockedOrThrow c ''SideEffectRetryBlockedError'')
      else if attempts_of record \<ge> max_retries c then ending (blockedOrThrow c ''RetryLimitExceededError'')
      else Ret None)"

definition takeover :: "tcall \<Rightarrow> bool \<Rightarrow> int \<Rightarrow> js \<Rightarrow> claim_step prog" where
  "takeover c recUn poll record =
     bindp (get (k_key c)) (\<lambda>rawBefore.
     bindp (liftp (upgrade_current rawBefore)) (\<lambda>before.
       if has_status [''succeeded'', ''denied'', ''reflected''] before then returning (consumeExistingRecord c before)
       else
         let open = has_status [''failed'', ''running''] before;
             record' = (if open then before else record);
             priorAttempts = (if open then attempts_of before else 0) in
         bindp (lock_now (k_caps c)) (\<lambda>nowTakeover.
         let next = stamped (running_record nowTakeover (priorAttempts + 1)) in
         bindp (if has_putIfMatch (k_caps c) then putIfMatch (k_key c) rawBefore next else seqp (put (k_key c) next) (Ret True)) (\<lambda>took.
           if took then Ret (Claimed record')
           else bindp (read_record c) (after_loss c recUn poll)))))"

definition claim_pass :: "tcall \<Rightarrow> bool option \<Rightarrow> key option \<Rightarrow> bool \<Rightarrow> int \<Rightarrow> js \<Rightarrow> claim_step prog" where
  "claim_pass c approved dupKey recUn poll record =
     bindp (lock_now (k_caps c)) (\<lambda>nowTs.
       if record = JUndef then claim_fresh c recUn poll nowTs
       else bindp (propp ''status'' record) (\<lambda>status.
         let startedAt = js_field ''startedAt'' record; live = (case startedAt of JNum t \<Rightarrow> nowTs - t \<le> claim_ttl c | _ \<Rightarrow> False) in
         if status = JStr ''running'' \<and> live then claim_wait c recUn poll (claim_ttl c - (nowTs - js_int startedAt))
         else bindp (recover_arm c approved dupKey recUn record) (\<lambda>(found, recUn'). case found of
             Some output \<Rightarrow> Ret (Returns output)
           | None \<Rightarrow> bindp (retry_arm c approved (\<not> recUn' \<and> t_recover (k_tool c)) record) (\<lambda>stop. case stop of
               Some output \<Rightarrow> Ret (Returns output)
             | None \<Rightarrow> takeover c recUn' poll record))))"

text \<open>\<open>Inl\<close>: the call returned from inside the loop; \<open>Inr\<close>: the loop was left with the claim held.\<close>

primrec claim_loop :: "nat \<Rightarrow> tcall \<Rightarrow> bool option \<Rightarrow> key option \<Rightarrow> bool \<Rightarrow> int \<Rightarrow> js \<Rightarrow> (js + js) prog" where
  "claim_loop 0 c approved dupKey recUn poll record = Raise (Err ''OutOfFuel'' ''claimLoop'')"
| "claim_loop (Suc n) c approved dupKey recUn poll record =
     bindp (claim_pass c approved dupKey recUn poll record) (\<lambda>step. case step of
         Returns out \<Rightarrow> Ret (Inl out)
       | Claimed r \<Rightarrow> Ret (Inr r)
       | Again recUn' poll' r \<Rightarrow> claim_loop n c approved dupKey recUn' poll' r)"

subsection \<open>Execution\<close>

definition claim_dup :: "tcall \<Rightarrow> bool option \<Rightarrow> key option \<Rightarrow> bool prog" where
  "claim_dup c approved dupKey =
     (case dupKey of
        Some dk \<Rightarrow> if approved = Some True then Ret False
          else bindp (lock_now (k_caps c)) (\<lambda>at.
            claimDupMarker (k_caps c) dk (JObj (dup_marker (k_id c) at @ [(''inFlight'', JBool True)])) (claim_ttl c) (dup_ttlMs (dup_cfg_of c)))
      | None \<Rightarrow> Ret False)"

definition dup_refusal :: "tcall \<Rightarrow> bool option \<Rightarrow> key option \<Rightarrow> bool \<Rightarrow> (js option) prog" where
  "dup_refusal c approved dupKey claimedDup =
     (if dupKey \<noteq> None \<and> approved \<noteq> Some True \<and> \<not> claimedDup \<and> dup_action (dup_cfg_of c) \<noteq> ''warn'' then
        seqp (incident c ''duplicate-guard'' ''block'' ''already executing'') (Ret (Some (limit_output c ''duplicateSideEffect'')))
      else Ret None)"

definition spend_approval :: "tcall \<Rightarrow> bool option \<Rightarrow> unit prog" where
  "spend_approval c approved =
     (if (case c_limits (k_ctx c) of Some l \<Rightarrow> approvalScope_attempt l | None \<Rightarrow> False) \<and> approved = Some True \<and> side_effect (k_tool c) then
        bindp date_now (\<lambda>at. put (key_approval (k_run c) (k_id c)) (JObj [(''__gnl_approval_spent'', JBool True), (''at'', JNum at)]))
      else Ret ())"

definition lookup_ok :: "js \<Rightarrow> bool" where
  "lookup_ok found \<longleftrightarrow> js_truthy found \<and> typeof_object found
     \<and> (if js_field ''exists'' found = JBool True then js_has_field ''output'' found else js_field ''exists'' found = JBool False)"

definition finish_dup :: "tcall \<Rightarrow> key option \<Rightarrow> js \<Rightarrow> (js option) prog" where
  "finish_dup c dupKey output = seqp (writeToolTerminal c (succeeded_record c output) dupKey) (Ret (Some output))"

definition lookup_arm :: "tcall \<Rightarrow> key option \<Rightarrow> js \<Rightarrow> (js option) prog" where
  "lookup_arm c dupKey record =
     (if t_lookup (k_tool c) \<and> side_effect (k_tool c) \<and> (record = JUndef \<or> status_of record = JStr ''suspended'') then
        catchp (bindp (ext ''lookup'' (JObj [(''input'', k_input c), (''idempotencyKey'', JStr (k_idem c)), (''toolCallId'', JStr (k_id c))])) (\<lambda>found.
            if \<not> lookup_ok found then Raise (Err ''TypeError'' ''lookup'')
            else if js_field ''exists'' found = JBool True then
              finish_dup c dupKey (js_field ''output'' found)
            else Ret None))
          (\<lambda>_. Ret None)
      else Ret None)"

primrec process_results :: "tcall \<Rightarrow> nat \<Rightarrow> js \<Rightarrow> js prog" where
  "process_results c 0 output = Ret output"
| "process_results c (Suc n) output =
     bindp (ext ''processToolResult'' (JObj [(''toolName'', JStr (k_name c)), (''toolCallId'', JStr (k_id c)), (''input'', k_input c), (''output'', output)]))
       (\<lambda>res. bindp (propp ''output'' res) (process_results c n))"

definition exec_args :: "tcall \<Rightarrow> js \<Rightarrow> js" where
  "exec_args c record = JObj [(''input'', k_input c), (''toolCallId'', JStr (k_id c)), (''idempotencyKey'', JStr (k_idem c)),
     (''parentRunId'', JStr (k_run c)), (''gnlApprovals'', nestedApprovalsFor record (k_ctx c))]"

definition run_original :: "tcall \<Rightarrow> key option \<Rightarrow> js \<Rightarrow> js prog" where
  "run_original c dupKey record =
     bindp (ext ''execute'' (exec_args c record)) (\<lambda>out.
     bindp (process_results c (c_processors (k_ctx c)) out) (\<lambda>output.
       seqp (if js_truthy (js_field ''__gnl_suspend'' output) then writeToolTerminal c (terminal_record ''suspended'' output) None
             else writeToolTerminal c (succeeded_record c output) dupKey)
         (Ret output)))"

definition record_failure :: "tcall \<Rightarrow> key option \<Rightarrow> bool \<Rightarrow> js \<Rightarrow> err \<Rightarrow> js prog" where
  "record_failure c dupKey claimedDup record e =
     (let prevAttempts = (if has_status [''failed'', ''running''] record then attempts_of record else 0) in
      seqp (writeToolTerminal c (failed_record e (prevAttempts + 1) (side_effect (k_tool c))) None)
      (seqp (case dupKey of
               Some dk \<Rightarrow> if claimedDup then bindp (lock_now (k_caps c)) (\<lambda>at. put dk (JObj (dup_marker (k_id c) at @ [(''released'', JBool True)]))) else Ret ()
             | None \<Rightarrow> Ret ())
        (Raise e)))"

definition execute_phase :: "tcall \<Rightarrow> bool option \<Rightarrow> key option \<Rightarrow> js \<Rightarrow> js prog" where
  "execute_phase c approved dupKey record =
     bindp (claim_dup c approved dupKey) (\<lambda>claimedDup.
       or_else (dup_refusal c approved dupKey claimedDup)
         (seqp (spend_approval c approved)
           (or_else (lookup_arm c dupKey record)
             (catchp (run_original c dupKey record) (record_failure c dupKey claimedDup record)))))"

definition gates :: "tcall \<Rightarrow> bool option \<Rightarrow> key option \<Rightarrow> js prog \<Rightarrow> js prog" where
  "gates c approved dupKey rest =
     or_else (dup_gate c approved dupKey)
       (or_else (compensated_gate c)
         (or_else (taint_gate c approved)
           (or_else (limit_gate c) rest)))"

definition durable_call :: "tcall \<Rightarrow> js prog" where
  "durable_call c =
     bindp (ctxGet (c_replayCache (k_ctx c)) (k_key c)) (\<lambda>(record, _).
       seqp (if js_truthy record then assertCrossRunOwner c else Ret ())
         (or_else (replay_gate c record)
           (seqp (mark_untrusted c)
             (let approved = approved_for c record in
              or_else (policy_gate c record)
                (bindp (liftp (dup_key_of c)) (\<lambda>dupKey.
                  gates c approved dupKey
                    (bindp (claim_loop (c_fuel (k_ctx c)) c approved dupKey False POLL_MIN_MS record) (\<lambda>r. case r of
                        Inl output \<Rightarrow> Ret output
                      | Inr held \<Rightarrow> execute_phase c approved dupKey held))))))))"

text \<open>\<open>durableTool(tool, ctx, toolName).execute(input, {toolCallId})\<close>\<close>

definition durableTool :: "AnyTool \<Rightarrow> DurableCtx \<Rightarrow> string \<Rightarrow> js \<Rightarrow> string \<Rightarrow> js prog" where
  "durableTool tool ctx toolName input toolCallId =
     bindp (liftp (prepare_call ctx tool toolName input toolCallId)) durable_call"

subsection \<open>Wrapping a tool set\<close>

definition undeclared :: "AnyTool \<Rightarrow> bool" where
  "undeclared t \<longleftrightarrow> t_execute t \<and> t_idempotent t = None \<and> t_sideEffect t = None \<and> \<not> t_recover t"

definition unanswered :: "AnyTool \<Rightarrow> bool" where
  "unanswered t \<longleftrightarrow> t_execute t \<and> (t_sideEffect t = Some True \<or> t_idempotent t = Some False) \<and> \<not> t_recover t \<and> t_idempotencyKey t = None"

text \<open>The wrapped set: \<open>None\<close> for a tool without \<open>execute\<close>, which is handed back as it is.\<close>

definition durableTools ::
  "(string \<times> AnyTool) list \<Rightarrow> DurableCtx \<Rightarrow> err + (string \<times> (js \<Rightarrow> string \<Rightarrow> js prog) option) list" where
  "durableTools tools ctx =
     (let strict = (c_toolPolicy ctx \<in> {Some ''strict'', Some ''strict-critical''});
          missing = map fst (filter (\<lambda>p. undeclared (snd p)) tools);
          open_window = map fst (filter (\<lambda>p. unanswered (snd p)) tools) in
      if strict \<and> missing \<noteq> [] then Inl (Err ''Error'' ''these tools do not declare their side-effect intent'')
      else if c_toolPolicy ctx = Some ''strict-critical'' \<and> open_window \<noteq> [] then Inl (Err ''Error'' ''these side-effect tools have no crash-window answer'')
      else Inr (map (\<lambda>(name, t). (name, if t_execute t then Some (durableTool t ctx name) else None)) tools))"

end
