(* ===== verification/Ticket.thy ===== *)
theory Ticket
  imports Protocol
begin

text \<open>
  One execution per record. Workers compete for a record at key \<open>K\<close>: the one that creates it with \<open>putIfAbsent\<close> holds the right to call the
  outside function \<open>fn\<close>, once; every other write of the key leaves a record of the same sort in place, so nobody creates it again. The predicate
  \<open>good\<close> says what such a record is. The durable tools and the side-effect steps of workflows use it.
\<close>

text \<open>Calls that neither write \<open>K\<close> nor execute; \<open>E\<close> picks the executions that count.\<close>

fun ticket_quiet :: "string \<Rightarrow> key \<Rightarrow> (js \<Rightarrow> bool) \<Rightarrow> jop \<Rightarrow> bool" where
  "ticket_quiet fn K E (JPut k v) = (k \<noteq> K)"
| "ticket_quiet fn K E (JPutIfAbsent k v) = (k \<noteq> K)"
| "ticket_quiet fn K E (JPutIfMatch k e v) = (k \<noteq> K)"
| "ticket_quiet fn K E (JDeletePrefix p) = (\<not> prefix p K)"
| "ticket_quiet fn K E (Ext f a) = (\<not> (f = fn \<and> E a))"
| "ticket_quiet fn K E _ = True"

definition ticket_tame :: "(js \<Rightarrow> bool) \<Rightarrow> string \<Rightarrow> key \<Rightarrow> (js \<Rightarrow> bool) \<Rightarrow> jop \<Rightarrow> bool" where
  "ticket_tame good fn K E c \<longleftrightarrow> ticket_quiet fn K E c \<or> (\<exists>v. c = JPut K v \<and> good v) \<or> (\<exists>e v. c = JPutIfMatch K e v \<and> good v)"

datatype holder = Outside | Holding | Done

definition ticket_allowed :: "(js \<Rightarrow> bool) \<Rightarrow> string \<Rightarrow> key \<Rightarrow> (js \<Rightarrow> bool) \<Rightarrow> holder \<Rightarrow> jop \<Rightarrow> bool" where
  "ticket_allowed good fn K E g c \<longleftrightarrow> ticket_tame good fn K E c \<or> (\<exists>v. c = JPutIfAbsent K v \<and> good v)
     \<or> (\<exists>a. c = Ext fn a \<and> g = Holding)"

definition ticket_upd :: "string \<Rightarrow> key \<Rightarrow> (js \<Rightarrow> bool) \<Rightarrow> holder \<Rightarrow> jop \<Rightarrow> err + js \<Rightarrow> holder" where
  "ticket_upd fn K E g c r =
     (case c of
        JPutIfAbsent k v \<Rightarrow> if k = K \<and> r = Inr (JBool True) then Holding else g
      | Ext f a \<Rightarrow> if f = fn \<and> E a then Done else g
      | _ \<Rightarrow> g)"

definition ticket_uses :: "string \<Rightarrow> (js \<Rightarrow> bool) \<Rightarrow> world \<Rightarrow> nat" where
  "ticket_uses fn E w = length (filter (\<lambda>(f, a). f = fn \<and> E a) (called w))"

definition ticket_inv :: "(js \<Rightarrow> bool) \<Rightarrow> string \<Rightarrow> key \<Rightarrow> (js \<Rightarrow> bool) \<Rightarrow> world \<Rightarrow> (nat \<Rightarrow> holder) \<Rightarrow> bool" where
  "ticket_inv good fn K E w gs \<longleftrightarrow>
     (\<forall>v. map_of (store (journal w)) K = Some v \<longrightarrow> good v)
     \<and> (map_of (store (journal w)) K = None \<longrightarrow> (\<forall>i. gs i = Outside))
     \<and> (\<forall>i j. gs i \<noteq> Outside \<and> gs j \<noteq> Outside \<longrightarrow> i = j)
     \<and> (\<forall>i. gs i = Holding \<longrightarrow> ticket_uses fn E w = 0)
     \<and> ((\<forall>i. gs i = Outside) \<longrightarrow> ticket_uses fn E w = 0)
     \<and> ticket_uses fn E w \<le> 1"

definition ticket_resp :: "(js \<Rightarrow> bool) \<Rightarrow> key \<Rightarrow> holder \<Rightarrow> jop \<Rightarrow> err + js \<Rightarrow> bool" where
  "ticket_resp good K g c r \<longleftrightarrow> possible c r \<and> (\<forall>v. c = JGet K \<and> r = Inr v \<longrightarrow> v = JUndef \<or> good v)"

lemma ticket_upd_tame [simp]: "ticket_tame good fn K E c \<Longrightarrow> ticket_upd fn K E g c r = g"
  by (cases c) (auto simp: ticket_upd_def ticket_tame_def)

lemma ticket_upd_fail: "\<forall>f a. c \<noteq> Ext f a \<Longrightarrow> ticket_upd fn K E g c (Inl e) = g"
  by (cases c) (auto simp: ticket_upd_def)

lemma journal_op_called: "journal_op c w = Some (r, w') \<Longrightarrow> called w' = called w"
  by (cases c) (auto split: prod.splits)

lemma ticket_tame_store:
  assumes "ticket_tame good fn K E c" and "journal_op c w = Some (r, w')"
  shows "map_of (store (journal w')) K = map_of (store (journal w)) K
    \<or> (\<exists>v. map_of (store (journal w')) K = Some v \<and> good v)"
  using assms
  by (cases c) (auto simp: ticket_tame_def mem_put_def mem_putIfAbsent_def mem_putIfMatch_def mem_incrBy_def Let_def domIff
      map_of_deletePrefix mem_deletePrefix_def map_of_filter_key [of "\<lambda>k. \<not> prefix _ k"] split: prod.splits if_splits)

lemma ticket_inv_store:
  assumes "ticket_inv good fn K E w gs" and "called w' = called w"
    and "map_of (store (journal w')) K = map_of (store (journal w)) K
       \<or> (\<exists>v. map_of (store (journal w')) K = Some v \<and> good v)"
  shows "ticket_inv good fn K E w' gs"
  using assms by (auto simp: ticket_inv_def ticket_uses_def)

lemma ticket_inv_create:
  assumes "ticket_inv good fn K E w gs" and "good v" and "journal_op (JPutIfAbsent K v) w = Some (r, w')"
  shows "ticket_inv good fn K E w' gs" and "ticket_inv good fn K E w' (gs(i := ticket_upd fn K E (gs i) (JPutIfAbsent K v) (Inr r)))"
proof -
  have k: "if map_of (store (journal w)) K = None then r = JBool True \<and> map_of (store (journal w')) K = Some v
           else r = JBool False \<and> w' = w"
    using assms(3) by (auto simp: mem_putIfAbsent_def domIff mem_put_def split: if_splits)
  have "called w' = called w" using journal_op_called [OF assms(3)] .
  then show keep: "ticket_inv good fn K E w' gs"
    using k assms(1,2) by (intro ticket_inv_store [OF assms(1)]) (auto split: if_splits)
  show "ticket_inv good fn K E w' (gs(i := ticket_upd fn K E (gs i) (JPutIfAbsent K v) (Inr r)))"
  proof (cases "map_of (store (journal w)) K = None")
    case True
    with assms(1) have "gs j = Outside" for j by (simp add: ticket_inv_def)
    with True k keep show ?thesis by (auto simp: ticket_inv_def ticket_upd_def)
  next
    case False
    with k keep show ?thesis by (simp add: ticket_upd_def)
  qed
qed

lemma ticket_inv_holding:
  assumes "ticket_inv good fn K E w gs" and "gs i = Holding"
  shows "map_of (store (journal w)) K \<noteq> None" and "ticket_uses fn E w = 0" and "j \<noteq> i \<Longrightarrow> gs j = Outside"
proof -
  show "map_of (store (journal w)) K \<noteq> None" "ticket_uses fn E w = 0"
    using assms by (auto simp: ticket_inv_def)
  show "j \<noteq> i \<Longrightarrow> gs j = Outside"
    using assms unfolding ticket_inv_def by (metis holder.distinct(1))
qed

lemma ticket_inv_execute:
  assumes "ticket_inv good fn K E w gs" and "gs i = Holding \<or> \<not> (f = fn \<and> E a)"
  shows "ticket_inv good fn K E (w\<lparr>called := called w @ [(f, a)]\<rparr>) (gs(i := ticket_upd fn K E (gs i) (Ext f a) r))"
proof (cases "f = fn \<and> E a")
  case True
  with assms have h: "gs i = Holding" by blast
  from True have upd: "ticket_upd fn K E (gs i) (Ext f a) r = Done" by (simp add: ticket_upd_def)
  have one: "ticket_uses fn E (w\<lparr>called := called w @ [(f, a)]\<rparr>) = 1"
    using ticket_inv_holding(2) [OF assms(1) h] True by (simp add: ticket_uses_def)
  have others: "(gs(i := Done)) j \<noteq> Outside \<longleftrightarrow> j = i" and spent: "(gs(i := Done)) j \<noteq> Holding" for j
    using ticket_inv_holding(3) [OF assms(1) h, of j] by auto
  show ?thesis
    unfolding upd ticket_inv_def one
    using others spent ticket_inv_holding(1) [OF assms(1) h] assms(1) by (simp add: ticket_inv_def)
next
  case False
  then have same: "ticket_upd fn K E (gs i) (Ext f a) r = gs i" "ticket_uses fn E (w\<lparr>called := called w @ [(f, a)]\<rparr>) = ticket_uses fn E w"
    by (auto simp: ticket_upd_def ticket_uses_def)
  show ?thesis using assms(1) unfolding ticket_inv_def same by simp
qed

lemma ticket_inv_answer:
  assumes inv: "ticket_inv good fn K E w gs" and al: "ticket_allowed good fn K E (gs i) c" and ans: "answer c w r w'"
  shows "ticket_inv good fn K E w' (gs(i := ticket_upd fn K E (gs i) c r))"
proof (cases "\<exists>f a. c = Ext f a")
  case True
  then obtain f a where c: "c = Ext f a" by blast
  with al have "gs i = Holding \<or> \<not> (f = fn \<and> E a)" by (auto simp: ticket_allowed_def ticket_tame_def)
  from ticket_inv_execute [OF inv this] c ans show ?thesis by (simp add: answer_Ext)
next
  case False
  have both: "ticket_inv good fn K E w0 gs \<and> ticket_inv good fn K E w0 (gs(i := ticket_upd fn K E (gs i) c (Inr r0)))"
    if "journal_op c w = Some (r0, w0)" for r0 w0
  proof (cases "ticket_tame good fn K E c")
    case True
    with ticket_inv_store [OF inv journal_op_called [OF that] ticket_tame_store [OF True that]] show ?thesis by simp
  next
    case False
    with al \<open>\<not> (\<exists>f a. c = Ext f a)\<close> obtain v where "c = JPutIfAbsent K v" "good v" by (auto simp: ticket_allowed_def)
    with ticket_inv_create [OF inv this(2)] that show ?thesis by blast
  qed
  from ans show ?thesis
  proof cases
    case (ans_ok r0)
    with both show ?thesis by blast
  next
    case (ans_down r0 w0 e)
    with inv False show ?thesis by (simp add: ticket_upd_fail)
  next
    case (ans_lost r0 e)
    with both False show ?thesis by (simp add: ticket_upd_fail)
  qed (use inv False in \<open>simp_all add: ticket_inv_def ticket_uses_def ticket_upd_def\<close>)
qed

lemma ticket_inv_responses: "ticket_inv good fn K E w gs \<Longrightarrow> answer c w r w' \<Longrightarrow> ticket_resp good K (gs i) c r"
  by (auto simp: ticket_resp_def possible_def answer_JGet mem_get_def ticket_inv_def split: option.splits)

interpretation ticket: protocol "ticket_allowed good fn K E" "ticket_upd fn K E" Outside "ticket_inv good fn K E" "ticket_resp good K" for good fn K E
  by unfold_locales (fact ticket_inv_answer, simp add: ticket_inv_def ticket_uses_def, fact ticket_inv_responses)

text \<open>What the clients use: a quiet program needs no ticket, and programs that keep to the protocol execute once.\<close>

abbreviation ticket_wp ::
  "(js \<Rightarrow> bool) \<Rightarrow> string \<Rightarrow> key \<Rightarrow> (js \<Rightarrow> bool) \<Rightarrow> 'a prog \<Rightarrow> holder \<Rightarrow> (holder \<Rightarrow> err + 'a \<Rightarrow> bool) \<Rightarrow> bool" where
  "ticket_wp good fn K E \<equiv> wp (ticket_resp good K) (ticket_allowed good fn K E) (ticket_upd fn K E)"

lemma ticket_quiet_wp: "calls_in (ticket_quiet fn K E) p \<Longrightarrow> (\<And>r. Q g r) \<Longrightarrow> ticket_wp good fn K E p g Q"
  by (rule wp_calls_in [where P = "ticket_quiet fn K E"]) (auto simp: ticket_allowed_def ticket_tame_def intro!: ticket_upd_tame [of good])

lemma ticket_once:
  assumes "map_of (store (journal w)) K = None" and "ticket_uses fn E w = 0"
    and "\<And>p. p \<in> S \<Longrightarrow> ticket_wp good fn K E p Outside (\<lambda>_ _. True)" and "reachable S w c"
  shows "ticket_uses fn E (cworld c) \<le> 1"
proof -
  have "ticket_inv good fn K E w (\<lambda>_. Outside)" using assms(1,2) by (simp add: ticket_inv_def)
  then obtain gs where "ticket_inv good fn K E (cworld c) gs" using ticket.reachable_inv [OF assms(4) _ assms(3)] by blast
  then show ?thesis by (simp add: ticket_inv_def)
qed

end
