(* ===== verification/ExactlyOnce.thy ===== *)
theory ExactlyOnce
  imports DurableTool Ticket
begin

text \<open>
  What the durable wrapper promises of a side effect under concurrency. The record of a call is watched as
  a protocol: a worker that created it holds the right to execute, once; every other write of the key leaves a
  tool record in place, so nobody creates it again.
\<close>

section \<open>The protocol\<close>

definition TOOL_STATUSES :: "string list" where
  "TOOL_STATUSES = [''running'', ''succeeded'', ''failed'', ''denied'', ''reflected'', ''suspended'']"

text \<open>A record in the current format with one of the statuses of \<open>ToolJournalRecord\<close>.\<close>

definition tool_record :: "js \<Rightarrow> bool" where
  "tool_record v = (case v of JObj kvs \<Rightarrow> record_field ''_v'' kvs = JNum 2 \<and> has_status TOOL_STATUSES v | _ \<Rightarrow> False)"

abbreviation quiet :: "key \<Rightarrow> (js \<Rightarrow> bool) \<Rightarrow> jop \<Rightarrow> bool" where
  "quiet \<equiv> ticket_quiet ''execute''"

abbreviation tame :: "key \<Rightarrow> (js \<Rightarrow> bool) \<Rightarrow> jop \<Rightarrow> bool" where
  "tame \<equiv> ticket_tame tool_record ''execute''"

abbreviation exec_allowed :: "key \<Rightarrow> (js \<Rightarrow> bool) \<Rightarrow> holder \<Rightarrow> jop \<Rightarrow> bool" where
  "exec_allowed \<equiv> ticket_allowed tool_record ''execute''"

abbreviation exec_upd :: "key \<Rightarrow> (js \<Rightarrow> bool) \<Rightarrow> holder \<Rightarrow> jop \<Rightarrow> err + js \<Rightarrow> holder" where
  "exec_upd \<equiv> ticket_upd ''execute''"

abbreviation exec_inv :: "key \<Rightarrow> (js \<Rightarrow> bool) \<Rightarrow> world \<Rightarrow> (nat \<Rightarrow> holder) \<Rightarrow> bool" where
  "exec_inv \<equiv> ticket_inv tool_record ''execute''"

abbreviation exec_resp :: "key \<Rightarrow> holder \<Rightarrow> jop \<Rightarrow> err + js \<Rightarrow> bool" where
  "exec_resp \<equiv> ticket_resp tool_record"

abbreviation executions :: "(js \<Rightarrow> bool) \<Rightarrow> world \<Rightarrow> nat" where
  "executions \<equiv> ticket_uses ''execute''"

lemmas tame_def = ticket_tame_def [of tool_record "''execute''"]
lemmas tame_store = ticket_tame_store [of tool_record "''execute''"]
lemmas exec_allowed_def = ticket_allowed_def [of tool_record "''execute''"]
lemmas exec_upd_def = ticket_upd_def [of "''execute''"]
lemmas exec_inv_def = ticket_inv_def [of tool_record "''execute''"]
lemmas exec_resp_def = ticket_resp_def [of tool_record]
lemmas executions_def = ticket_uses_def [of "''execute''"]
lemmas exec_upd_tame [simp] = ticket_upd_tame [of tool_record "''execute''"]
lemmas exec_upd_fail = ticket_upd_fail [of _ "''execute''"]
lemmas exec_inv_answer = ticket_inv_answer [of tool_record "''execute''"]

section \<open>Calls of the phases\<close>

text \<open>The keys a call writes beside its own record.\<close>

definition side_key :: "tcall \<Rightarrow> key \<Rightarrow> bool" where
  "side_key c k \<longleftrightarrow>
     (\<exists>n. k = key_proc (k_run c) n \<and> n \<noteq> ''__gnl_compensated'') \<or> prefix (k_run c @ '':incident:'') k \<or> prefix (k_run c @ '':approval:'') k
     \<or> prefix ''thread:'' k \<or> dup_key_of c = Inr (Some k)
     \<or> (\<exists>p. semTombKey (thread_of (k_ctx c)) (k_name c) p (k_hash c) = Inr k)
     \<or> k_ownerKey c = Some k
     \<or> (\<not> prefix (k_run c @ '':'') (k_key c) \<and> k = key_tool (k_run c) (k_id c))"

definition apart :: "key \<Rightarrow> tcall \<Rightarrow> bool" where
  "apart K c \<longleftrightarrow> (\<forall>k. side_key c k \<longrightarrow> k \<noteq> K)"

declare calls_in_bindp [intro!] calls_in_catchp [intro!] calls_in_seqp [intro!]

lemma apartD: "apart K c \<Longrightarrow> side_key c k \<Longrightarrow> k \<noteq> K"
  by (simp add: apart_def)

lemma tame_quiet [simp]:
  "tame K E (JGet k)" "tame K E JNow" "tame K E DateNow" "tame K E (JReadRun r)" "tame K E (JIncrBy k fs)" "tame K E (JGetCounters k)"
  "f \<noteq> ''execute'' \<Longrightarrow> tame K E (Ext f a)"
  by (simp_all add: tame_def)

lemma tame_side:
  assumes "k \<noteq> K"
  shows "tame K E (JPut k v)" and "tame K E (JPutIfAbsent k v)" and "tame K E (JPutIfMatch k e v)"
  using assms by (simp_all add: tame_def)

lemma tame_record:
  assumes "tool_record v"
  shows "tame K E (JPut K v)" and "tame K E (JPutIfMatch K e v)"
  using assms by (simp_all add: tame_def)

lemma calls_in_lock_now [simp]: "calls_in (tame K E) (lock_now J)"
  by (auto simp: lock_now_def)

lemma calls_in_date_now [simp]: "calls_in (tame K E) date_now"
  by auto

lemma calls_in_put [simp]: "calls_in (tame K E) (put k v) \<longleftrightarrow> k \<noteq> K \<or> tool_record v"
  by (auto simp: put_def callp_def tame_def)

lemma calls_in_putIfMatch [simp]: "calls_in (tame K E) (putIfMatch k e v) \<longleftrightarrow> k \<noteq> K \<or> tool_record v"
  by (auto simp: putIfMatch_def callp_def tame_def)

lemma calls_in_putIfAbsent [intro!]: "k \<noteq> K \<Longrightarrow> calls_in (tame K E) (putIfAbsent k v)"
  by (auto intro: tame_side)

lemma calls_in_claim [intro!]: "k \<noteq> K \<Longrightarrow> calls_in (tame K E) (claim J k v)"
  by (auto simp: claim_def)

lemma calls_in_claimTaint [intro!]: "k \<noteq> K \<Longrightarrow> calls_in (tame K E) (claimTaint J k v)"
proof -
  assume k: "k \<noteq> K"
  have "calls_in (tame K E) (claim_attempts n J k v)" for n
    by (induction n) (use k in auto)
  then show ?thesis by (simp add: claimTaint_def)
qed

subsection \<open>Limits\<close>

lemma calls_in_chain_cas [intro!]: "chainKey r \<noteq> K \<Longrightarrow> calls_in (tame K E) (chain_cas n J r f)"
  by (induction n) (auto simp: Let_def)

lemma calls_in_incrCounters [intro!]: "countersKey r \<noteq> K \<Longrightarrow> calls_in (tame K E) (incrCounters J r d)"
  by (auto simp: incrCounters_def incr_fallback_def)

lemma calls_in_readChain [simp]: "calls_in (tame K E) (readChain r)"
  by (auto simp: readChain_def)

lemma calls_in_readCounters [simp]: "calls_in (tame K E) (readCounters J r)"
  by (auto simp: readCounters_def)

lemma calls_in_sum_candidates:
  "(\<And>r ids seen. calls_in (tame K E) (deeper r ids seen)) \<Longrightarrow> calls_in (tame K E) (sum_candidates J deeper rs acc)"
  by (induction rs arbitrary: acc) (auto simp: Let_def add_subtotal_def split: option.splits)

lemma calls_in_report [simp]: "calls_in P (reportUnenforceableLimits limits)"
  by (simp add: reportUnenforceableLimits_def)

lemma calls_in_sumSubRuns [simp]: "calls_in (tame K E) (sumSubRuns n J r ids seen)"
  by (induction n arbitrary: r ids seen) (auto intro!: calls_in_sum_candidates)

lemma calls_in_ensureSeeded [intro!]:
  "chainKey r \<noteq> K \<Longrightarrow> countersKey r \<noteq> K \<Longrightarrow> calls_in (tame K E) (ensureSeeded usage J table r)"
  by (auto simp: ensureSeeded_def seedFromHistory_def)

lemma calls_in_checkToolGate [intro!]:
  "chainKey r \<noteq> K \<Longrightarrow> countersKey r \<noteq> K \<Longrightarrow> calls_in (tame K E) (checkToolGate n usage J r name h limits)"
  by (auto simp: checkToolGate_def reportUnenforceableLimits_def gate_max_calls_def Let_def split: option.splits)

lemma calls_in_recordToolOutcome [intro!]:
  "chainKey r \<noteq> K \<Longrightarrow> countersKey r \<noteq> K \<Longrightarrow> calls_in (tame K E) (recordToolOutcome usage J r i name h st se limits)"
  by (auto simp: recordToolOutcome_def writeChainCas_def Let_def intro!: calls_in_chain_cas)

subsection \<open>The durable wrapper\<close>

lemma side_proc: "n \<noteq> ''__gnl_compensated'' \<Longrightarrow> side_key c (key_proc (k_run c) n)"
  by (auto simp: side_key_def)

lemma taint_proc_keys: "taintKey r = key_proc r ''__gnl_taint''" "directTaintKey r = key_proc r ''__gnl_taint_direct''"
  by (simp_all add: taintKey_def directTaintKey_def key_proc_def)

lemma side_keys:
  "side_key c (key_proc (k_run c) (''override-'' @ n))" "side_key c (key_proc (k_run c) (''dupnudge-'' @ n))"
  "side_key c (key_proc (k_run c) (''taintnudge-'' @ n))" "side_key c (chainKey (k_run c))" "side_key c (countersKey (k_run c))"
  "side_key c (taintKey (k_run c))" "side_key c (directTaintKey (k_run c))" "side_key c (threadTaintKey t)"
  "side_key c (incidentKey (k_run c) i)" "side_key c (key_approval (k_run c) n)"
  by (auto simp: taint_proc_keys chainKey_def countersKey_def LIMITS_CHAIN_NAME_def LIMITS_COUNTERS_NAME_def intro!: side_proc)
     (auto simp: side_key_def threadTaintKey_def incidentKey_def key_approval_def)

lemma side_not_apart: "side_key c k \<Longrightarrow> \<not> apart k c"
  by (auto simp: apart_def)

lemmas side_not_apart_simps [simp] = side_keys [THEN side_not_apart, simplified]
lemmas apart_simps [simp] = side_keys [THEN apartD [rotated], simplified]

lemma stamped_record [simp]: "tool_record (stamped r) \<longleftrightarrow> record_field ''status'' r \<in> JStr ` set TOOL_STATUSES"
  by (auto simp: tool_record_def stamped_def stampFormat_def has_status_def status_of_def JOURNAL_FORMAT_VERSION_def record_field_def)

lemma tool_statuses [simp]: "JStr st \<in> JStr ` set TOOL_STATUSES \<longleftrightarrow> st \<in> set TOOL_STATUSES"
  by auto

lemma tool_status_members [simp]:
  "''running'' \<in> set TOOL_STATUSES" "''succeeded'' \<in> set TOOL_STATUSES" "''failed'' \<in> set TOOL_STATUSES"
  "''denied'' \<in> set TOOL_STATUSES" "''reflected'' \<in> set TOOL_STATUSES" "''suspended'' \<in> set TOOL_STATUSES"
  by (simp_all add: TOOL_STATUSES_def)

lemma record_field_set [simp]: "record_field f (js_set k v r) = (if f = k then v else record_field f r)"
  by (simp add: record_field_def)

lemma record_field_of: "has_status ss r \<Longrightarrow> record_field f (fields_of r) = js_field f r"
  by (cases r) (auto simp: has_status_def fields_of_def record_field_def status_of_def)

lemma record_statuses [simp]:
  "record_field ''status'' (terminal_record st out) = JStr st"
  "record_field ''status'' (succeeded_record c out) = JStr ''succeeded''"
  "record_field ''status'' (reflected_record c out) = JStr ''reflected''"
  "record_field ''status'' (failed_record e n b) = JStr ''failed''"
  "record_field ''status'' (running_record t n) = JStr ''running''"
  by (simp_all add: record_field_def terminal_record_def succeeded_record_def reflected_record_def failed_record_def running_record_def)

lemma apart_owner: "apart K c \<Longrightarrow> k_ownerKey c \<noteq> Some K"
  unfolding apart_def side_key_def by blast

lemma calls_in_incident [intro!]: "apart K c \<Longrightarrow> calls_in (tame K E) (incident c a b m)"
  by (auto simp: incident_def recordIncident_def )

lemma calls_in_markRunTainted [intro!]: "apart K c \<Longrightarrow> calls_in (tame K E) (markRunTainted J (k_run c) t thr)"
  by (auto simp: markRunTainted_def Let_def  split: option.splits)

lemma calls_in_mark_untrusted [intro!]: "apart K c \<Longrightarrow> calls_in (tame K E) (mark_untrusted c)"
  by (auto simp: mark_untrusted_def)

lemma calls_in_mirror [intro!]: "apart K c \<Longrightarrow> calls_in (tame K E) (mirrorUnderRun c r)"
proof -
  assume "apart K c"
  then have "key_tool (k_run c) (k_id c) \<noteq> K" if "\<not> prefix (k_run c @ '':'') (k_key c)"
    using that by (simp add: apart_def side_key_def)
  then show ?thesis by (auto simp: mirrorUnderRun_def)
qed

lemma calls_in_write_dup_success [intro!]: "dk \<noteq> K \<Longrightarrow> calls_in (tame K E) (write_dup_success c dk)"
  by (auto simp: write_dup_success_def Let_def)

text \<open>The duplicate marker a phase is given.\<close>

definition dup_ok :: "key \<Rightarrow> key option \<Rightarrow> bool" where
  "dup_ok K dupKey \<longleftrightarrow> dupKey \<noteq> Some K"

lemma calls_in_writeToolTerminal [intro!]:
  assumes "apart K c" and "record_field ''status'' r \<in> JStr ` set TOOL_STATUSES" and "dup_ok K dupKey"
  shows "calls_in (tame K E) (writeToolTerminal c r dupKey)"
  unfolding writeToolTerminal_def Let_def
proof (intro calls_in_seqp)
  show "calls_in (tame K E) (case dupKey of Some dk \<Rightarrow>
      if js_string (record_field ''status'' r) = ''succeeded'' then write_dup_success c dk else Ret () | None \<Rightarrow> Ret ())"
    using assms by (auto simp: dup_ok_def split: option.split)
qed (use assms in \<open>auto split: option.split\<close>)

lemma calls_in_finish_with [intro!]:
  "apart K c \<Longrightarrow> record_field ''status'' r \<in> JStr ` set TOOL_STATUSES \<Longrightarrow> calls_in (tame K E) (finish_with c r out)"
  by (auto simp: finish_with_def dup_ok_def)

lemma calls_in_consume [intro!]: "apart K c \<Longrightarrow> calls_in (tame K E) (consumeExistingRecord c r)"
proof -
  assume a: "apart K c"
  have "calls_in (tame K E) (trackResolvedToolCallId c r)"
    by (auto simp: trackResolvedToolCallId_def Let_def record_field_of) (auto simp: has_status_def status_of_def)
  with a show ?thesis by (auto simp: consumeExistingRecord_def Let_def)
qed

lemma calls_in_or_else [intro!]: "calls_in P g \<Longrightarrow> calls_in P rest \<Longrightarrow> calls_in P (or_else g rest)"
  by (auto simp: or_else_def split: option.splits)

lemma calls_in_ending [intro!]: "calls_in P p \<Longrightarrow> calls_in P (ending p)"
  by (auto simp: ending_def)

lemma calls_in_blockedOrThrow [simp]: "calls_in P (blockedOrThrow c code)"
  by (simp add: blockedOrThrow_def)

lemma calls_in_assertCrossRunOwner [simp]: "calls_in (tame K E) (assertCrossRunOwner c)"
  by (auto simp: assertCrossRunOwner_def split: option.splits)

lemma calls_in_replay_gate [intro!]: "apart K c \<Longrightarrow> calls_in (tame K E) (replay_gate c r)"
  by (auto simp: replay_gate_def)

lemma calls_in_write_sem_tomb [intro!]: "apart K c \<Longrightarrow> calls_in (tame K E) (write_sem_tomb c r)"
proof -
  assume "apart K c"
  then have tomb: "semTombKey (thread_of (k_ctx c)) (k_name c) p (k_hash c) \<noteq> Inr K" for p
    by (auto simp: apart_def side_key_def)
  have "calls_in (tame K E) (bindp (liftp (semTombKey (thread_of (k_ctx c)) (k_name c) p (k_hash c))) (\<lambda>tomb.
      bindp (lock_now (k_caps c)) (\<lambda>at. put tomb (v at))))" for p v
    using tomb [of p] by (cases "semTombKey (thread_of (k_ctx c)) (k_name c) p (k_hash c)") auto
  then show ?thesis
    unfolding write_sem_tomb_def Let_def by (simp add: calls_in_catchp)
qed

lemma calls_in_suspended_arm: "apart K c \<Longrightarrow> calls_in (tame K E) (suspended_arm c r)"
  by (auto simp: suspended_arm_def write_override_def Let_def)

lemma calls_in_prior_completed [simp]: "calls_in (tame K E) (prior_completed c)"
  by (auto simp: prior_completed_def)

lemma calls_in_confirm_arm: "apart K c \<Longrightarrow> calls_in (tame K E) (confirm_arm c r)"
  by (auto simp: confirm_arm_def Let_def)

lemma calls_in_guard_arm: "apart K c \<Longrightarrow> calls_in (tame K E) (guard_arm c r)"
  by (auto simp: guard_arm_def readRunTaint_def Let_def)

lemma calls_in_policy_gate [intro!]: "apart K c \<Longrightarrow> calls_in (tame K E) (policy_gate c r)"
  by (auto simp: policy_gate_def intro!: calls_in_suspended_arm calls_in_confirm_arm calls_in_guard_arm)

lemma calls_in_dup_hit [intro!]: "apart K c \<Longrightarrow> dk \<noteq> K \<Longrightarrow> calls_in (tame K E) (dup_hit c dk m)"
  by (auto simp: dup_hit_def dup_nudge_def Let_def)

lemma calls_in_dup_gate [intro!]: "apart K c \<Longrightarrow> dup_ok K dupKey \<Longrightarrow> calls_in (tame K E) (dup_gate c approved dupKey)"
  by (auto simp: dup_gate_def dup_ok_def split: option.split)

lemma calls_in_compensated_gate [simp]: "calls_in (tame K E) (compensated_gate c)"
  by (auto simp: compensated_gate_def runCompensated_def)

lemma calls_in_taint_gate [intro!]: "apart K c \<Longrightarrow> calls_in (tame K E) (taint_gate c approved)"
  by (auto simp: taint_gate_def taint_hit_def readRunTaint_def Let_def)

lemma calls_in_limit_gate [intro!]: "apart K c \<Longrightarrow> calls_in (tame K E) (limit_gate c)"
  by (auto simp: limit_gate_def Let_def split: option.split)

subsection \<open>The claim loop and the execution\<close>

text \<open>A tool whose failed or crashed call is not run again by itself, under a context that carries no human answer.\<close>

definition guarded :: "tcall \<Rightarrow> bool" where
  "guarded c \<longleftrightarrow> side_effect (k_tool c) \<and> \<not> t_recover (k_tool c) \<and> c_approvals (k_ctx c) = None \<and> has_putIfAbsent (k_caps c)"

abbreviation exec_wp :: "key \<Rightarrow> (js \<Rightarrow> bool) \<Rightarrow> 'a prog \<Rightarrow> holder \<Rightarrow> (holder \<Rightarrow> err + 'a \<Rightarrow> bool) \<Rightarrow> bool" where
  "exec_wp K E \<equiv> wp (exec_resp K) (exec_allowed K E) (exec_upd K E)"

lemma wp_tame: "calls_in (tame K E) p \<Longrightarrow> (\<And>r. Q g r) \<Longrightarrow> exec_wp K E p g Q"
  by (rule wp_calls_in [where P = "tame K E"]) (auto simp: exec_allowed_def)

text \<open>What a reader of the key finds.\<close>

definition seen_record :: "js \<Rightarrow> bool" where
  "seen_record r \<longleftrightarrow> r = JUndef \<or> has_status TOOL_STATUSES r"

lemma upgrade_tool_record:
  assumes "tool_record v" and "upgrade_current v = Inr r"
  shows "has_status TOOL_STATUSES r"
proof -
  from assms(1) obtain kvs where v: "v = JObj kvs" "record_field ''_v'' kvs = JNum 2" "has_status TOOL_STATUSES v"
    by (auto simp: tool_record_def split: js.splits)
  then have "upgrade_current v = Inr (JObj (js_delete ''_v'' kvs))"
    using upgrade_builtin [of 0 kvs] by (simp add: upgrade_current_def JOURNAL_FORMAT_VERSION_def version_of_def)
  with assms(2) v(1,3) show ?thesis by (auto simp: has_status_def status_of_def)
qed

lemma upgrade_undef [simp]: "upgrade_current JUndef = Inr JUndef"
  by (simp add: upgrade_current_def upgradeFormat_def)

lemma wp_read:
  assumes "\<And>r. (\<forall>v. r = Inr v \<longrightarrow> v = JUndef \<or> tool_record v) \<Longrightarrow> Q g r"
  shows "exec_wp K E (get K) g Q"
  using assms by (auto simp: get_def wp_callp exec_allowed_def tame_def exec_upd_def exec_resp_def)

lemma wp_read_record:
  assumes "\<And>e. Q g (Inl e)" and "\<And>r. seen_record r \<Longrightarrow> Q g (Inr r)"
  shows "exec_wp (k_key c) E (read_record c) g Q"
  unfolding read_record_def wp_bindp
proof (rule wp_read)
  fix r :: "err + js"
  assume r: "\<forall>v. r = Inr v \<longrightarrow> v = JUndef \<or> tool_record v"
  show "case r of Inl e \<Rightarrow> Q g (Inl e) | Inr x \<Rightarrow> exec_wp (k_key c) E (liftp (upgrade_current x)) g Q"
  proof (cases r)
    case (Inr v)
    have "Q g (upgrade_current v)"
      using r Inr assms upgrade_tool_record [of v]
      by (cases "upgrade_current v") (auto simp: seen_record_def)
    with Inr show ?thesis by (simp add: wp_liftp)
  qed (simp add: assms)
qed

definition pass_post :: "holder \<Rightarrow> err + claim_step \<Rightarrow> bool" where
  "pass_post g r = (case r of
       Inr (Claimed rec) \<Rightarrow> g = Holding
     | Inr (Again recUn poll rec) \<Rightarrow> g = Outside \<and> (rec = JUndef \<or> has_status [''running'', ''failed''] rec)
     | _ \<Rightarrow> True)"

lemma pass_post_simps [simp]:
  "pass_post g (Inl e)" "pass_post g (Inr (Returns out))" "pass_post g (Inr (Claimed rec)) \<longleftrightarrow> g = Holding"
  "pass_post g (Inr (Again recUn poll rec)) \<longleftrightarrow> g = Outside \<and> (rec = JUndef \<or> has_status [''running'', ''failed''] rec)"
  by (simp_all add: pass_post_def)

lemma wp_returning:
  assumes "calls_in (tame K E) p"
  shows "exec_wp K E (returning p) g pass_post"
  unfolding returning_def wp_bindp by (rule wp_tame [OF assms]) (simp split: sum.split)

lemma wp_after_loss:
  assumes "apart (k_key c) c" and "seen_record rec"
  shows "exec_wp (k_key c) E (after_loss c recUn poll rec) Outside pass_post"
proof -
  have "rec = JUndef \<or> has_status [''running'', ''failed''] rec" if "\<not> settled rec"
    using assms(2) that by (auto simp: seen_record_def settled_def has_status_def TOOL_STATUSES_def)
  then show ?thesis
    using assms(1) by (auto simp: after_loss_def intro!: wp_returning)
qed

lemma wp_read_again:
  assumes "apart (k_key c) c"
  shows "exec_wp (k_key c) E (bindp (read_record c) (after_loss c recUn poll)) Outside pass_post"
  unfolding wp_bindp by (rule wp_read_record) (simp_all add: wp_after_loss [OF assms])

lemma wp_claim_record:
  assumes "has_putIfAbsent J" and "tool_record v" and "Q Holding (Inr True)" and "Q g (Inr False)" and "\<And>e. Q g (Inl e)"
  shows "exec_wp K E (claim J K v) g Q"
  using assms
  by (auto simp: claim_def putIfAbsent_def wp_bindp wp_callp exec_allowed_def exec_upd_def exec_resp_def possible_putIfAbsent
      split: sum.splits)

lemma wp_bind_claim:
  assumes "has_putIfAbsent J" and "tool_record v" and "exec_wp K E (f True) Holding Q" and "exec_wp K E (f False) g Q" and "\<And>e. Q g (Inl e)"
  shows "exec_wp K E (bindp (claim J K v) f) g Q"
  unfolding wp_bindp by (rule wp_claim_record) (simp_all add: assms)

lemma wp_bind_read:
  assumes "\<And>e. Q g (Inl e)" and "\<And>r. seen_record r \<Longrightarrow> exec_wp (k_key c) E (f r) g Q"
  shows "exec_wp (k_key c) E (bindp (read_record c) f) g Q"
  unfolding wp_bindp by (rule wp_read_record) (simp_all add: assms)

lemma wp_bind_tame:
  assumes "calls_in (tame K E) p" and "\<And>x. exec_wp K E (f x) g Q" and "\<And>e. Q g (Inl e)"
  shows "exec_wp K E (bindp p f) g Q"
  unfolding wp_bindp by (rule wp_tame [OF assms(1)]) (simp add: assms split: sum.split)

lemma wp_seq_tame:
  assumes "calls_in (tame K E) p" and "exec_wp K E q g Q" and "\<And>e. Q g (Inl e)"
  shows "exec_wp K E (seqp p q) g Q"
  unfolding seqp_def by (rule wp_bind_tame) (simp_all add: assms)

lemma wp_claim_fresh:
  assumes "apart (k_key c) c" and "has_putIfAbsent (k_caps c)"
  shows "exec_wp (k_key c) E (claim_fresh c recUn poll t) Outside pass_post"
  unfolding claim_fresh_def
proof (rule wp_bind_claim [OF assms(2)], goal_cases)
  case 2
  have "calls_in (tame (k_key c) E) (case k_ownerKey c of
      Some ok \<Rightarrow> seqp (claim (k_caps c) ok (JObj (ownerFields (c_identity (k_ctx c))))) (Ret ()) | None \<Rightarrow> Ret ())"
    using apart_owner [OF assms(1)] by (cases "k_ownerKey c") auto
  then show ?case by (simp add: wp_seq_tame)
next
  case 3
  have "exec_wp (k_key c) E (seqp (if js_truthy rec then assertCrossRunOwner c else Ret ()) (after_loss c recUn poll rec)) Outside pass_post"
    if "seen_record rec" for rec
    by (rule wp_seq_tame) (simp_all add: wp_after_loss [OF assms(1) that])
  then show ?case by (simp add: wp_bind_read)
qed simp_all

lemma wp_claim_wait:
  assumes "apart (k_key c) c"
  shows "exec_wp (k_key c) E (claim_wait c recUn poll rest) Outside pass_post"
proof -
  have "exec_wp (k_key c) E (seqp (catchp (ext ''sleep'' a) (\<lambda>_. Ret JUndef))
      (bindp (read_record c) (after_loss c recUn p))) Outside pass_post" for a p
    by (rule wp_seq_tame) (auto simp: wp_read_again [OF assms])
  then show ?thesis by (simp add: claim_wait_def wp_returning)
qed

lemma wp_claim_pass:
  assumes "apart (k_key c) c" and "guarded c" and "approved \<noteq> Some True" and "rec = JUndef \<or> has_status [''running'', ''failed''] rec"
  shows "exec_wp (k_key c) E (claim_pass c approved dupKey recUn poll rec) Outside pass_post"
proof -
  have g: "side_effect (k_tool c)" "\<not> t_recover (k_tool c)" "has_putIfAbsent (k_caps c)"
    using assms(2) by (simp_all add: guarded_def)
  have stop: "exec_wp (k_key c) E (bindp (retry_arm c approved False rec) (\<lambda>stop. case stop of
      Some output \<Rightarrow> Ret (Returns output) | None \<Rightarrow> takeover c recUn poll rec)) Outside pass_post"
    if "has_status [''running'', ''failed''] rec"
    using that g assms(3) by (simp add: retry_arm_def has_status_def insert_commute ending_def blockedOrThrow_def)
  have rest: "exec_wp (k_key c) E (if rec = JUndef then claim_fresh c recUn poll nowTs
       else bindp (propp ''status'' rec) (\<lambda>status.
         let startedAt = js_field ''startedAt'' rec; live = (case startedAt of JNum t \<Rightarrow> nowTs - t \<le> claim_ttl c | _ \<Rightarrow> False) in
         if status = JStr ''running'' \<and> live then claim_wait c recUn poll (claim_ttl c - (nowTs - js_int startedAt))
         else bindp (recover_arm c approved dupKey recUn rec) (\<lambda>(found, recUn'). case found of
             Some output \<Rightarrow> Ret (Returns output)
           | None \<Rightarrow> bindp (retry_arm c approved (\<not> recUn' \<and> t_recover (k_tool c)) rec) (\<lambda>stop. case stop of
               Some output \<Rightarrow> Ret (Returns output)
             | None \<Rightarrow> takeover c recUn' poll rec)))) Outside pass_post" for nowTs
    using assms(4) g(2) wp_claim_fresh [OF assms(1) g(3)] wp_claim_wait [OF assms(1)] stop
    by (auto simp: wp_bindp [of _ _ _ "propp _ _"] wp_propp recover_arm_def Let_def)
  show ?thesis
    unfolding claim_pass_def by (rule wp_bind_tame) (simp_all only: rest calls_in_lock_now pass_post_simps)
qed

definition loop_post :: "holder \<Rightarrow> err + (js + js) \<Rightarrow> bool" where
  "loop_post g r \<longleftrightarrow> (\<forall>held. r = Inr (Inr held) \<longrightarrow> g = Holding)"

lemma loop_post_simps [simp]: "loop_post g (Inl e)" "loop_post g (Inr (Inl out))" "loop_post g (Inr (Inr held)) \<longleftrightarrow> g = Holding"
  by (simp_all add: loop_post_def)

lemma wp_claim_loop:
  assumes "apart (k_key c) c" and "guarded c" and "approved \<noteq> Some True" and "rec = JUndef \<or> has_status [''running'', ''failed''] rec"
  shows "exec_wp (k_key c) E (claim_loop n c approved dupKey recUn poll rec) Outside loop_post"
  using assms(4)
proof (induction n arbitrary: recUn poll rec)
  case (Suc n)
  show ?case
    unfolding claim_loop.simps wp_bindp
    by (rule wp_mono [OF wp_claim_pass [OF assms(1-3) Suc.prems]])
       (auto simp: Suc.IH split: sum.split claim_step.split)
qed simp

lemma calls_in_claim_dup: "dup_ok K dupKey \<Longrightarrow> calls_in (tame K E) (claim_dup c approved dupKey)"
  by (auto simp: claim_dup_def claimDupMarker_def dup_ok_def Let_def split: option.split)

lemma calls_in_dup_refusal: "apart K c \<Longrightarrow> calls_in (tame K E) (dup_refusal c approved dupKey b)"
  by (auto simp: dup_refusal_def)

lemma calls_in_spend: "apart K c \<Longrightarrow> calls_in (tame K E) (spend_approval c approved)"
  by (auto simp: spend_approval_def)

lemma calls_in_lookup_arm: "apart K c \<Longrightarrow> dup_ok K dupKey \<Longrightarrow> calls_in (tame K E) (lookup_arm c dupKey rec)"
  by (auto simp: lookup_arm_def finish_dup_def)

lemma calls_in_process_results [simp]: "calls_in (tame K E) (process_results c n out)"
  by (induction n arbitrary: out) auto

lemma calls_in_record_failure: "apart K c \<Longrightarrow> dup_ok K dupKey \<Longrightarrow> calls_in (tame K E) (record_failure c dupKey b rec e)"
  by (auto simp: record_failure_def Let_def dup_ok_def split: option.split)

lemma wp_tame_any: "calls_in (tame K E) p \<Longrightarrow> exec_wp K E p g (\<lambda>_ _. True)"
  by (simp add: wp_tame)

lemma wp_run_original:
  assumes "apart (k_key c) c" and "dup_ok (k_key c) dupKey"
  shows "exec_wp (k_key c) E (catchp (run_original c dupKey rec) (record_failure c dupKey b rec)) Holding (\<lambda>_ _. True)"
proof -
  have rest: "calls_in (tame (k_key c) E) (bindp (process_results c (c_processors (k_ctx c)) out) (\<lambda>output.
       seqp (if js_truthy (js_field ''__gnl_suspend'' output) then writeToolTerminal c (terminal_record ''suspended'' output) None
             else writeToolTerminal c (succeeded_record c output) dupKey) (Ret output)))" for out
    using assms by (auto simp: dup_ok_def)
  have after: "exec_wp (k_key c) E (catchp (bindp (liftp r) (\<lambda>out. bindp (process_results c (c_processors (k_ctx c)) out) (\<lambda>output.
       seqp (if js_truthy (js_field ''__gnl_suspend'' output) then writeToolTerminal c (terminal_record ''suspended'' output) None
             else writeToolTerminal c (succeeded_record c output) dupKey) (Ret output)))) (record_failure c dupKey b rec)) g (\<lambda>_ _. True)" for r g
    by (intro wp_tame_any calls_in_catchp calls_in_bindp rest calls_in_liftp calls_in_record_failure assms)
  show ?thesis
    unfolding run_original_def Prog.ext_def callp_def bindp.simps catchp.simps wp.simps
    using after by (simp only: exec_allowed_def) blast
qed

lemma wp_or_else_tame:
  assumes "calls_in (tame K E) gate" and "exec_wp K E rest g (\<lambda>_ _. True)"
  shows "exec_wp K E (or_else gate rest) g (\<lambda>_ _. True)"
  unfolding or_else_def by (rule wp_bind_tame [OF assms(1)]) (auto simp: assms(2) split: option.split)

lemma wp_execute_phase:
  assumes "apart (k_key c) c" and "dup_ok (k_key c) dupKey"
  shows "exec_wp (k_key c) E (execute_phase c approved dupKey rec) Holding (\<lambda>_ _. True)"
  unfolding execute_phase_def
  by (intro wp_bind_tame wp_or_else_tame wp_seq_tame calls_in_claim_dup calls_in_dup_refusal calls_in_spend calls_in_lookup_arm
      wp_run_original assms TrueI)

subsection \<open>One call\<close>

lemma or_else_ending [simp]: "or_else (ending p) rest = p"
  by (simp add: or_else_def ending_def)

lemma or_else_Raise [simp]: "or_else (Raise e) rest = Raise e"
  by (simp add: or_else_def)

lemma or_else_None [simp]: "or_else (Ret None) rest = rest"
  by (simp add: or_else_def)

lemma no_answers:
  assumes "c_approvals (k_ctx c) = None"
  shows "approved_for c rec = None" and "\<not> nested_answered c rec"
  using assms by (simp_all add: approved_for_def lookup_approval_def nested_answered_def list_ex_iff)

lemma dup_ok_key: "apart (k_key c) c \<Longrightarrow> dup_key_of c = Inr dupKey \<Longrightarrow> dup_ok (k_key c) dupKey"
  unfolding apart_def side_key_def dup_ok_def by blast

lemma wp_claim_execute:
  assumes "apart (k_key c) c" and "guarded c" and "dup_ok (k_key c) dupKey" and "rec = JUndef \<or> has_status [''running'', ''failed''] rec"
  shows "exec_wp (k_key c) E (bindp (claim_loop n c None dupKey False poll rec) (\<lambda>r. case r of
      Inl output \<Rightarrow> Ret output | Inr held \<Rightarrow> execute_phase c None dupKey held)) Outside (\<lambda>_ _. True)"
  unfolding wp_bindp
  by (rule wp_mono [OF wp_claim_loop [OF assms(1,2) _ assms(4)]])
     (auto simp: wp_execute_phase [OF assms(1,3)] split: sum.split)

lemma wp_after_read:
  assumes "apart (k_key c) c" and "guarded c" and "seen_record rec"
  shows "exec_wp (k_key c) E (or_else (replay_gate c rec) (seqp (mark_untrusted c)
      (or_else (policy_gate c rec) (bindp (liftp (dup_key_of c)) (\<lambda>dupKey.
         gates c None dupKey (bindp (claim_loop n c None dupKey False POLL_MIN_MS rec) (\<lambda>r. case r of
            Inl output \<Rightarrow> Ret output | Inr held \<Rightarrow> execute_phase c None dupKey held))))))) Outside (\<lambda>_ _. True)"
proof -
  have none: "c_approvals (k_ctx c) = None" using assms(2) by (simp add: guarded_def)
  consider (over) "has_status [''succeeded'', ''denied'', ''reflected''] rec" | (susp) "has_status [''suspended''] rec"
    | (opn) "rec = JUndef \<or> has_status [''running'', ''failed''] rec"
    using assms(3) by (auto simp: seen_record_def has_status_def TOOL_STATUSES_def)
  then show ?thesis
  proof cases
    case over
    then show ?thesis using assms(1) by (auto simp: replay_gate_def intro!: wp_tame_any)
  next
    case susp
    then have "policy_gate c rec = ending (consumeExistingRecord c rec)"
      using no_answers [OF none, of rec] by (simp add: policy_gate_def suspended_arm_def)
    then have "or_else (policy_gate c rec) p = consumeExistingRecord c rec" for p by simp
    then show ?thesis
      using assms(1) by (simp only:) (intro wp_or_else_tame wp_seq_tame wp_tame_any, auto)
  next
    case opn
    have "exec_wp (k_key c) E (gates c None dupKey (bindp (claim_loop n c None dupKey False POLL_MIN_MS rec) (\<lambda>r. case r of
            Inl output \<Rightarrow> Ret output | Inr held \<Rightarrow> execute_phase c None dupKey held))) Outside (\<lambda>_ _. True)"
      if "dup_key_of c = Inr dupKey" for dupKey
      using dup_ok_key [OF assms(1) that] assms(1,2) opn unfolding gates_def
      by (intro wp_or_else_tame wp_claim_execute) auto
    then show ?thesis
      using assms(1) by (intro wp_or_else_tame wp_seq_tame) (auto simp: wp_bindp wp_liftp split: sum.split)
  qed
qed

definition cache_ok :: "js js_map option \<Rightarrow> key \<Rightarrow> bool" where
  "cache_ok cache K = (case cache of Some m \<Rightarrow> (case map_of m K of Some v \<Rightarrow> tool_record v | None \<Rightarrow> True) | None \<Rightarrow> True)"

lemma seen_upgraded:
  assumes "v = JUndef \<or> tool_record v" and "(if b then upgrade_current v else Inr v) = Inr r"
  shows "seen_record r"
  using assms upgrade_tool_record [of v r]
  by (auto simp: seen_record_def tool_record_def split: if_splits js.splits)

lemma wp_ctxGet:
  assumes "cache_ok cache K" and "\<And>rec rest. seen_record rec \<Longrightarrow> exec_wp K E (f (rec, rest)) g (\<lambda>_ _. True)"
  shows "exec_wp K E (bindp (ctxGet cache K) f) g (\<lambda>_ _. True)"
proof -
  have found: "exec_wp K E (bindp (liftp (if b then upgrade_current v else Inr v)) (\<lambda>v'. f (v', rest))) g (\<lambda>_ _. True)"
    if "v = JUndef \<or> tool_record v" for v b rest
    using assms(2) seen_upgraded [OF that, of b] by (auto simp: wp_bindp wp_liftp split: sum.split)
  have "exec_wp K E (bindp (get K) (\<lambda>v. bindp (liftp (if v \<noteq> JUndef \<and> isVersionedKey K then upgrade_current v else Inr v))
      (\<lambda>v'. f (v', cache)))) g (\<lambda>_ _. True)"
    unfolding wp_bindp [of _ _ _ "get K"] by (rule wp_read) (simp only: found TrueI split: sum.split, blast intro: found)
  moreover have "tool_record v \<Longrightarrow> exec_wp K E (bindp (liftp (upgrade_current v)) (\<lambda>v'. f (v', rest))) g (\<lambda>_ _. True)"
    "tool_record v \<Longrightarrow> exec_wp K E (f (v, rest)) g (\<lambda>_ _. True)" for v rest
    using found [of v True] found [of v False] by simp_all
  ultimately show ?thesis
    using assms(1) by (auto simp: ctxGet_def cache_ok_def split: option.splits)
qed

lemma wp_durable_call:
  assumes "apart (k_key c) c" and "guarded c" and "cache_ok (c_replayCache (k_ctx c)) (k_key c)"
  shows "exec_wp (k_key c) E (durable_call c) Outside (\<lambda>_ _. True)"
proof -
  have none: "approved_for c rec = None" for rec
    using assms(2) by (simp add: guarded_def no_answers)
  show ?thesis
    unfolding durable_call_def
  proof (rule wp_ctxGet [OF assms(3)])
    fix rec :: js and rest :: "js js_map option"
    assume seen: "seen_record rec"
    show "exec_wp (k_key c) E (case (rec, rest) of (record, _) \<Rightarrow>
       seqp (if js_truthy record then assertCrossRunOwner c else Ret ())
         (or_else (replay_gate c record)
           (seqp (mark_untrusted c)
             (let approved = approved_for c record in
              or_else (policy_gate c record)
                (bindp (liftp (dup_key_of c)) (\<lambda>dupKey.
                  gates c approved dupKey
                    (bindp (claim_loop (c_fuel (k_ctx c)) c approved dupKey False POLL_MIN_MS record) (\<lambda>r. case r of
                        Inl output \<Rightarrow> Ret output
                      | Inr held \<Rightarrow> execute_phase c approved dupKey held)))))))) Outside (\<lambda>_ _. True)"
      unfolding prod.case Let_def none
      by (rule wp_seq_tame [OF _ wp_after_read [OF assms(1,2) seen]]) simp_all
  qed
qed

subsection \<open>The keys of one call\<close>

definition first_segment :: "string \<Rightarrow> string" where
  "first_segment s = takeWhile (\<lambda>c. c \<noteq> CHR '':'') s"

text \<open>A run id outside the namespaces the package keeps for threads and cross-run records.\<close>

definition plain_run :: "string \<Rightarrow> bool" where
  "plain_run runId \<longleftrightarrow> first_segment runId \<notin> {''thread'', ''xthr'', ''xrun''}"

lemma first_segment_colon [simp]: "first_segment (r @ CHR '':'' # s) = first_segment r"
  by (induction r) (auto simp: first_segment_def)

lemma first_segment_prefix: "prefix (r @ CHR '':'' # s) k \<Longrightarrow> first_segment k = first_segment r"
  by (auto simp: prefix_def)

lemma first_segment_xthr [simp]: "first_segment (CHR ''x'' # CHR ''t'' # CHR ''h'' # CHR ''r'' # CHR '':'' # s) = ''xthr''"
  and first_segment_xrun [simp]: "first_segment (CHR ''x'' # CHR ''r'' # CHR ''u'' # CHR ''n'' # CHR '':'' # s) = ''xrun''"
  by (simp_all add: first_segment_def)

lemma prefix_same_run: "prefix (r @ p) (r @ s) \<longleftrightarrow> prefix p s"
  by (simp add: prefix_def)

lemma prepared_key:
  assumes "prepare_call ctx tool name input i = Inr c"
  shows "k_ctx c = ctx" and "k_tool c = tool" and "k_name c = name" and "k_id c = i"
    and "(\<exists>x. k_key c = c_runId ctx @ '':tool:'' @ x \<and> k_ownerKey c = None)
      \<or> (\<exists>x. k_key c = ''xrun:args-'' @ x \<and> args_mode tool \<and> (\<exists>y. k_ownerKey c = Some (''xrun:owner-'' @ y)))
      \<or> (\<exists>x. k_key c = ''xthr:'' @ thread_of ctx @ '':args-'' @ x \<and> args_mode tool \<and> k_ownerKey c = None)"
  using assms
  by (auto simp: prepare_call_def Let_def tool_key_def key_tool_def key_toolByArgs_def key_toolCrossRun_def
      key_toolCrossRunOwner_def key_toolThread_def split: sum.splits if_splits window.splits option.splits)

lemma dup_key_shape:
  assumes "dup_key_of c = Inr (Some k)"
  shows "\<not> args_mode (k_tool c) \<and> ((\<exists>n. k = key_proc (k_run c) (''dup-'' @ n)) \<or> first_segment k = ''xthr'')"
  using assms
  by (auto simp: dup_key_of_def dupMarkerKey_def key_proc_def threadDupMarkerKey_def split: if_splits sum.splits option.splits)

lemma tomb_key_shape: "semTombKey thr name p h = Inr k \<Longrightarrow> prefix (''xthr:'' @ thr @ '':semtomb-'') k"
  by (auto simp: semTombKey_def split: option.splits)

lemma side_key_shape:
  assumes "side_key c k"
  shows "(\<exists>s\<in>{'':proc:'', '':incident:'', '':approval:''}. prefix (k_run c @ s) k) \<and> k \<noteq> tombstoneKey (k_run c) \<or> first_segment k = ''thread''
    \<or> (first_segment k = ''xthr'' \<and> \<not> args_mode (k_tool c)) \<or> prefix (''xthr:'' @ thread_of (k_ctx c) @ '':semtomb-'') k
    \<or> k_ownerKey c = Some k \<or> (\<not> prefix (k_run c @ '':'') (k_key c) \<and> prefix (k_run c @ '':tool:'') k)"
proof -
  have "prefix ''thread:'' s \<Longrightarrow> first_segment s = ''thread''" for s
    by (auto simp: prefix_def first_segment_def)
  then show ?thesis
    using assms dup_key_shape [of c k] tomb_key_shape [of _ _ _ _ k] unfolding side_key_def
    by (elim disjE exE conjE) (auto simp: key_tool_def key_proc_def tombstoneKey_def prefix_same_run)
qed

lemma prefix_xthr: "prefix (CHR ''x'' # CHR ''t'' # CHR ''h'' # CHR ''r'' # CHR '':'' # s) k \<Longrightarrow> first_segment k = ''xthr''"
  by (auto simp: prefix_def)

lemma prepared_apart:
  assumes "prepare_call ctx tool name input i = Inr c" and "plain_run (c_runId ctx)"
  shows "apart (k_key c) c"
  unfolding apart_def
proof (intro allI impI notI)
  fix k
  assume "side_key c k" and k: "k = k_key c"
  note side = side_key_shape [OF this(1)] and c = prepared_key [OF assms(1)]
  have run: "first_segment (c_runId ctx) \<notin> {''thread'', ''xthr'', ''xrun''}" using assms(2) by (simp add: plain_run_def)
  have other: "first_segment k = first_segment (c_runId ctx)" if "prefix (c_runId ctx @ CHR '':'' # s) k" for s
    using first_segment_prefix [OF that] .
  from c(5) show False
  proof (elim disjE exE conjE)
    fix x assume x: "k_key c = c_runId ctx @ '':tool:'' @ x" "k_ownerKey c = None"
    then have "first_segment k = first_segment (c_runId ctx)" using k by simp
    then show False using side x k run c(1) by (auto simp: prefix_same_run dest: prefix_xthr)
  next
    fix x y assume x: "k_key c = ''xrun:args-'' @ x" "k_ownerKey c = Some (''xrun:owner-'' @ y)"
    then have "first_segment k = ''xrun''" using k by simp
    then show False using side x k run c(1) other by (auto dest: prefix_xthr)
  next
    fix x assume x: "k_key c = ''xthr:'' @ thread_of ctx @ '':args-'' @ x" "args_mode tool" "k_ownerKey c = None"
    then have "first_segment k = ''xthr''" using k by simp
    then show False using side x k run c(1,2) other by (auto simp: prefix_same_run)
  qed
qed

section \<open>Properties\<close>

text \<open>A call of a guarded tool that keeps its record under \<open>K\<close>.\<close>

definition guarded_call :: "key \<Rightarrow> js prog \<Rightarrow> bool" where
  "guarded_call K p \<longleftrightarrow> (\<exists>tool ctx name input i c. p = durableTool tool ctx name input i \<and> prepare_call ctx tool name input i = Inr c
     \<and> k_key c = K \<and> guarded c \<and> plain_run (c_runId ctx) \<and> cache_ok (c_replayCache ctx) K)"

lemma wp_guarded_call: "guarded_call K p \<Longrightarrow> exec_wp K E p Outside (\<lambda>_ _. True)"
  unfolding guarded_call_def durableTool_def
  using prepared_key(1) prepared_apart wp_durable_call by fastforce

lemma exec_inv_start: "map_of (store (journal w)) K = None \<Longrightarrow> executions E w = 0 \<Longrightarrow> exec_inv K E w (\<lambda>_. Outside)"
  by (simp add: exec_inv_def)

text \<open>A payment tool as the witnesses call it, and an outside world that answers every call with a receipt.\<close>

definition charge_tool :: AnyTool where
  "charge_tool = \<lparr>t_execute = True, t_window = None, t_idempotency_args = False, t_idempotencyKey = None, t_idempotent = None,
     t_sideEffect = Some True, t_untrusted = False, t_confirm = None, t_effectClass = [], t_timeoutMs = None, t_claimTtlMs = None,
     t_maxRetries = None, t_recover = False, t_lookup = False, t_compensate = False\<rparr>"

definition plain_ctx :: DurableCtx where
  "plain_ctx = \<lparr>c_caps = full_caps, c_runId = ''r1'', c_threadId = None, c_identity = UnknownCaller, c_channel = [], c_guard = False,
     c_approvals = None, c_strictReplay = False, c_replayCache = None, c_limits = None, c_blockedAsSentinel = False, c_noApprovals = False,
     c_toolPolicy = None, c_toolTimeoutMs = None, c_claimTtlMs = None, c_processors = 0, c_orgScope = [], c_sha256 = (\<lambda>_. ''h''),
     c_usage = (\<lambda>_ _. None), c_fuel = 3\<rparr>"

definition receipt_env :: env where
  "receipt_env = (\<lambda>_ _ _. Inr (JStr ''receipt''))"

definition charge_call :: "js prog" where
  "charge_call = durableTool charge_tool plain_ctx ''charge'' JNull ''c1''"

lemma charge_hash [simp]: "argsHash (\<lambda>_. ''h'') JNull = Inr ''h''"
  by code_simp

definition charge_tcall :: tcall where
  "charge_tcall = \<lparr>k_ctx = plain_ctx, k_tool = charge_tool, k_name = ''charge'', k_input = JNull, k_id = ''c1'', k_hash = ''h'',
     k_key = ''r1:tool:c1'', k_idem = ''r1:c1'', k_ownerKey = None\<rparr>"

lemma charge_prepared: "prepare_call plain_ctx charge_tool ''charge'' JNull ''c1'' = Inr charge_tcall"
  by (simp add: prepare_call_def tool_hash_def tool_key_def key_tool_def charge_tool_def plain_ctx_def args_mode_def tool_window_def
      eff_window_def charge_tcall_def idempotency_key_def)

lemma charge_guarded: "guarded_call ''r1:tool:c1'' charge_call"
  unfolding guarded_call_def charge_call_def
  by (intro exI conjI, rule refl, rule charge_prepared)
     (simp_all add: charge_tcall_def guarded_def charge_tool_def plain_ctx_def side_effect_def full_caps_def plain_run_def first_segment_def cache_ok_def)

lemma charge_runs:
  "fst (run receipt_env charge_call new_world) = Inr (JStr ''receipt'')"
  "executions (\<lambda>_. True) (snd (run receipt_env charge_call new_world)) = 1"
  by code_simp+

text \<open>
  C1: a side effect runs at most once. Take any number of calls of side-effect tools that keep their record
  under one key (the same call resumed by several workers, the same arguments within a run, a thread or across
  runs), for tools without a \<open>recover\<close> hook and contexts without human approvals, over a journal with
  \<open>putIfAbsent\<close>, next to any other programs that neither write or delete that key nor make the
  counted executions. In every interleaving, with workers dying anywhere and journal calls failing before or
  after they took effect, the tool's \<open>execute\<close> is called at most once.
\<close>

theorem side_effect_at_most_once:
  assumes "map_of (store (journal w)) K = None" and "executions E w = 0"
    and "\<And>p. p \<in> S \<Longrightarrow> guarded_call K p \<or> calls_in (quiet K E) p"
    and "reachable S w c"
  shows "executions E (cworld c) \<le> 1"
proof -
  have "exec_wp K E p Outside (\<lambda>_ _. True)" if "p \<in> S" for p
    using assms(3) [OF that] wp_guarded_call [of K p E] calls_in_mono [of "quiet K E" p "tame K E"]
    by (auto intro: wp_tame_any simp: tame_def)
  then obtain gs where "exec_inv K E (cworld c) gs"
    using ticket.reachable_inv [OF assms(4) exec_inv_start [OF assms(1,2)]] by blast
  then show ?thesis by (simp add: exec_inv_def)
qed

theorem side_effect_at_most_once_witness:
  "\<exists>c. reachable {charge_call} new_world c \<and> threads c 0 = Some (Ret (JStr ''receipt'')) \<and> executions (\<lambda>_. True) (cworld c) = 1"
proof -
  obtain w' where w': "run receipt_env charge_call new_world = (Inr (JStr ''receipt''), w')" "executions (\<lambda>_. True) w' = 1"
    using charge_runs by (metis prod.collapse)
  from run_solo [OF singletonI w'(1)] have r: "reachable {charge_call} new_world (solo w' (Ret (JStr ''receipt'')))"
    by (simp add: finished_def)
  have "executions (\<lambda>_. True) (cworld (solo w' (Ret (JStr ''receipt'')))) \<le> 1"
    by (rule side_effect_at_most_once [OF _ _ _ r, of "''r1:tool:c1''"])
       (auto simp: charge_guarded new_world_def empty_journal_def executions_def)
  with r w'(2) show ?thesis by (auto simp: solo_def)
qed

subsection \<open>A recorded call\<close>

text \<open>The protocol once the record exists: nobody can come to hold the right to execute.\<close>

definition recorded_inv :: "key \<Rightarrow> (js \<Rightarrow> bool) \<Rightarrow> nat \<Rightarrow> world \<Rightarrow> (nat \<Rightarrow> holder) \<Rightarrow> bool" where
  "recorded_inv K E n w gs \<longleftrightarrow>
     (\<exists>v. map_of (store (journal w)) K = Some v \<and> tool_record v) \<and> (\<forall>i. gs i = Outside) \<and> executions E w = n"

lemma recorded_inv_answer:
  assumes inv: "recorded_inv K E n w gs" and al: "exec_allowed K E (gs i) c" and ans: "answer c w r w'"
  shows "recorded_inv K E n w' (gs(i := exec_upd K E (gs i) c r))"
proof (cases "tame K E c")
  case True
  from ans show ?thesis
  proof cases
    case (ans_ok r0)
    with inv True tame_store [OF True ans_ok(2)] journal_op_called [OF ans_ok(2)] show ?thesis
      by (auto simp: recorded_inv_def executions_def)
  next
    case (ans_lost r0 e)
    with inv True tame_store [OF True ans_lost(2)] journal_op_called [OF ans_lost(2)] show ?thesis
      by (auto simp: recorded_inv_def executions_def)
  qed (use inv True in \<open>auto simp: recorded_inv_def executions_def tame_def\<close>)
next
  case False
  with al inv obtain v where c: "c = JPutIfAbsent K v" by (auto simp: exec_allowed_def recorded_inv_def)
  with ans inv have "w' = w \<and> r \<noteq> Inr (JBool True)"
    by (auto simp: answer_JPutIfAbsent mem_putIfAbsent_def recorded_inv_def domIff split: if_splits)
  with inv c show ?thesis by (auto simp: recorded_inv_def exec_upd_def)
qed

lemma recorded_inv_responses: "recorded_inv K E n w gs \<Longrightarrow> answer c w r w' \<Longrightarrow> exec_resp K (gs i) c r"
  by (auto simp: exec_resp_def possible_def answer_JGet mem_get_def recorded_inv_def)

interpretation recorded: protocol "exec_allowed K E" "exec_upd K E" Outside "recorded_inv K E n" "exec_resp K" for K E n
  by unfold_locales (fact recorded_inv_answer, simp add: recorded_inv_def executions_def, fact recorded_inv_responses)

text \<open>
  C2: once a call is on record it is never executed again. Whatever the record says (succeeded, failed,
  refused, suspended, or still running because its worker died), no resume and no concurrent or repeated call under
  the same key executes the tool, as long as no human approves and the tool has no \<open>recover\<close>
  hook; the record itself stays a tool record.
\<close>

theorem recorded_call_never_reexecuted:
  assumes "map_of (store (journal w)) K = Some v" and "tool_record v"
    and "\<And>p. p \<in> S \<Longrightarrow> guarded_call K p \<or> calls_in (quiet K E) p"
    and "reachable S w c"
  shows "executions E (cworld c) = executions E w \<and> (\<exists>v'. map_of (store (journal (cworld c))) K = Some v' \<and> tool_record v')"
proof -
  have "exec_wp K E p Outside (\<lambda>_ _. True)" if "p \<in> S" for p
    using assms(3) [OF that] wp_guarded_call [of K p E] calls_in_mono [of "quiet K E" p "tame K E"]
    by (auto intro: wp_tame_any simp: tame_def)
  moreover have "recorded_inv K E (executions E w) w (\<lambda>_. Outside)" using assms(1,2) by (simp add: recorded_inv_def)
  ultimately obtain gs where "recorded_inv K E (executions E w) (cworld c) gs"
    using recorded.reachable_inv [OF assms(4)] by blast
  then show ?thesis by (simp add: recorded_inv_def)
qed

definition crashed_world :: world where
  "crashed_world = new_world\<lparr>journal := mem_put 0 ''r1:tool:c1'' (stamped (running_record 0 1)) empty_journal, clock := 100000\<rparr>"

lemma crashed_runs:
  "fst (run receipt_env charge_call crashed_world) = Inl (Err ''SideEffectRetryBlockedError'' ''charge'')"
  by code_simp

theorem recorded_call_never_reexecuted_witness:
  "\<exists>c. reachable {charge_call} crashed_world c \<and> threads c 0 = Some (Raise (Err ''SideEffectRetryBlockedError'' ''charge''))
     \<and> executions (\<lambda>_. True) (cworld c) = 0"
proof -
  obtain w' where w': "run receipt_env charge_call crashed_world = (Inl (Err ''SideEffectRetryBlockedError'' ''charge''), w')"
    using crashed_runs by (metis prod.collapse)
  from run_solo [OF singletonI w'] have r: "reachable {charge_call} crashed_world (solo w' (Raise (Err ''SideEffectRetryBlockedError'' ''charge'')))"
    by (simp add: finished_def)
  have "executions (\<lambda>_. True) (cworld (solo w' (Raise (Err ''SideEffectRetryBlockedError'' ''charge'') :: js prog))) = executions (\<lambda>_. True) crashed_world"
    using recorded_call_never_reexecuted [where E = "\<lambda>_. True", OF _ _ _ r, of "''r1:tool:c1''" "stamped (running_record 0 1)"]
    by (auto simp: charge_guarded crashed_world_def mem_put_def empty_journal_def)
  with r show ?thesis by (auto simp: solo_def executions_def crashed_world_def new_world_def)
qed

subsection \<open>Replay and the passes of the claim loop\<close>

lemma upgrade_stamped: "map_of r ''_v'' = None \<Longrightarrow> \<exists>r'. upgrade_current (stamped r) = Inr (JObj r') \<and> map_of r' = map_of r"
  using upgrade_builtin [of 0 "stampFormat r"]
  by (auto simp: upgrade_current_def stamped_def stampFormat_def JOURNAL_FORMAT_VERSION_def version_of_def record_field_def fun_eq_iff split: option.splits)

lemma run_mirror: "\<exists>w'. run env (mirrorUnderRun c r) w = (Inr (), w') \<and> called w' = called w"
  by (auto simp: mirrorUnderRun_def prog_simps)

lemma run_track:
  assumes "has_status [''succeeded'', ''denied'', ''reflected''] (JObj kvs)"
  shows "\<exists>r2 w2. run env (trackResolvedToolCallId c (JObj kvs)) w = (Inr (JObj r2), w2) \<and> called w2 = called w
    \<and> js_field ''output'' (JObj r2) = js_field ''output'' (JObj kvs) \<and> status_of (JObj r2) = status_of (JObj kvs)"
  using assms
  by (cases "JStr (k_id c) \<in> set (js_elems (js_field ''resolvedToolCallIds'' (JObj kvs)))")
     (simp_all add: trackResolvedToolCallId_def run_seqp run_put fields_of_def status_of_def Let_def)

lemma run_consume:
  assumes "has_status [''succeeded'', ''denied'', ''reflected''] r"
  shows "\<exists>w'. run env (consumeExistingRecord c r) w = (Inr (js_field ''output'' r), w') \<and> called w' = called w"
proof -
  from assms obtain kvs where r: "r = JObj kvs" by (cases r) (auto simp: has_status_def status_of_def)
  have ns: "status_of r \<noteq> JStr ''suspended''" using assms by (auto simp: has_status_def)
  obtain r2 w2 where t: "run env (trackResolvedToolCallId c r) w = (Inr (JObj r2), w2)" "called w2 = called w"
    "js_field ''output'' (JObj r2) = js_field ''output'' r" "status_of (JObj r2) = status_of r"
    using run_track [OF assms [unfolded r], of env c w] by (auto simp: r)
  obtain w3 where m: "run env (mirrorUnderRun c (fields_of (JObj r2))) w2 = (Inr (), w3)" "called w3 = called w2"
    using run_mirror by blast
  from t m ns show ?thesis
    by (auto simp: consumeExistingRecord_def prog_simps)
qed

text \<open>
  C9: replay. A call whose record says it succeeded with the same arguments, or was denied or
  reflected, returns the recorded output and calls no outside code: not the tool, not the guard, not a processor.
  This holds for every context and tool; a cross-run record answers only a caller its owner record admits.
\<close>

theorem replay_returns_recorded_output:
  assumes "prepare_call ctx tool name input i = Inr c" and "c_replayCache ctx = None"
    and "map_of (store (journal w)) (k_key c) = Some (stamped r)" and "map_of r ''_v'' = None"
    and "has_status [''succeeded'', ''denied'', ''reflected''] (JObj r)"
    and "record_field ''argsHash'' r \<in> {JUndef, JStr (k_hash c)}"
    and "\<And>ok. k_ownerKey c = Some ok \<Longrightarrow> decideRunAccess (Owned (fieldsOwner (mem_get ok (journal w))) KOther True JUndef) (c_identity ctx) = Allow"
  shows "fst (run env (durableTool tool ctx name input i) w) = Inr (record_field ''output'' r)
    \<and> called (snd (run env (durableTool tool ctx name input i) w)) = called w"
proof -
  obtain r' where r': "upgrade_current (stamped r) = Inr (JObj r')" "map_of r' = map_of r" using upgrade_stamped [OF assms(4)] by blast
  define rec where "rec = (if isVersionedKey (k_key c) then JObj r' else stamped r)"
  have field: "js_field f rec = record_field f r" if "f \<noteq> ''_v''" for f
    using r'(2) that by (simp add: rec_def stamped_def stampFormat_def record_field_def)
  have st: "has_status [''succeeded'', ''denied'', ''reflected''] rec"
    using assms(5) field [of "''status''"] by (auto simp: has_status_def status_of_def record_field_def rec_def stamped_def)
  have truthy: "js_truthy rec" using st by (simp add: has_status_def)
  have read: "run env (ctxGet None (k_key c)) w = (Inr (rec, None), w)"
    using assms(3) r'(1) by (auto simp: ctxGet_def prog_simps mem_get_def rec_def stamped_def)
  have owner: "run env (assertCrossRunOwner c) w = (Inr (), w)"
    using assms(7) prepared_key(1) [OF assms(1)] by (auto simp: assertCrossRunOwner_def prog_simps split: option.split)
  have gate: "or_else (replay_gate c rec) rest = consumeExistingRecord c rec" for rest
    using st assms(6) field [of "''argsHash''"] by (auto simp: replay_gate_def)
  obtain w' where "run env (consumeExistingRecord c rec) w = (Inr (record_field ''output'' r), w')" "called w' = called w"
    using run_consume [OF st, of env c w] field [of "''output''"] by auto
  then show ?thesis
    by (simp add: durableTool_def assms(1) durable_call_def prepared_key(1) [OF assms(1)] assms(2) run_bindp run_seqp read truthy owner gate)
qed

theorem replay_returns_recorded_output_witness:
  "fst (run receipt_env charge_call (new_world\<lparr>journal := mem_put 0 ''r1:tool:c1'' (stamped (succeeded_record charge_tcall (JNum 7))) empty_journal\<rparr>))
     = Inr (JNum 7)"
  unfolding charge_call_def
  using replay_returns_recorded_output [OF charge_prepared, of
      "new_world\<lparr>journal := mem_put 0 ''r1:tool:c1'' (stamped (succeeded_record charge_tcall (JNum 7))) empty_journal\<rparr>"
      "succeeded_record charge_tcall (JNum 7)" receipt_env]
  by (auto simp: charge_tcall_def plain_ctx_def charge_tool_def mem_put_def empty_journal_def succeeded_record_def has_status_def status_of_def
      record_field_def)

definition passes_once :: "claim_step prog \<Rightarrow> bool" where
  "passes_once p = wp (\<lambda>_ _ _. True) (\<lambda>_ _. True) (\<lambda>_ _ _. ()) p () (\<lambda>_ r. case r of Inr (Again u t v) \<Rightarrow> False | _ \<Rightarrow> True)"

lemma passes_once_bindp [intro!]: "(\<And>x. passes_once (f x)) \<Longrightarrow> passes_once (bindp p f)"
  by (induction p) (auto simp: passes_once_def)

lemma passes_once_seqp [intro!]: "passes_once q \<Longrightarrow> passes_once (seqp p q)"
  by (auto simp: seqp_def)

lemma passes_once_Ret [simp]: "passes_once (Ret (Returns x))" "passes_once (Ret (Claimed x))" "passes_once (Raise e)"
  by (simp_all add: passes_once_def)

lemma passes_once_returning [intro!]: "passes_once (returning p)"
  by (auto simp: returning_def)

lemma passes_once_call_mode: "\<not> args_mode (k_tool c) \<Longrightarrow> passes_once (claim_pass c approved dupKey recUn poll rec)"
  by (auto simp: claim_pass_def claim_fresh_def claim_wait_def takeover_def after_loss_def Let_def split: option.split)

lemma passes_once_loop:
  "passes_once p \<Longrightarrow> bindp p (\<lambda>step. case step of Returns out \<Rightarrow> Ret (Inl out) | Claimed r \<Rightarrow> Ret (Inr r) | Again u t r \<Rightarrow> f u t r)
     = bindp p (\<lambda>step. case step of Returns out \<Rightarrow> Ret (Inl out) | Claimed r \<Rightarrow> Ret (Inr r) | Again u t r \<Rightarrow> g u t r)"
  by (induction p) (auto simp: passes_once_def split: claim_step.split)

text \<open>
  The claim loop of a call in \<open>call\<close> mode makes one pass. Every branch of its body returns, throws
  or leaves the loop, so the loop behaves the same under any amount of fuel from one on, and a call in this
  mode never waits for another worker: it is refused at once.
\<close>

theorem call_mode_makes_one_pass:
  assumes "\<not> args_mode (k_tool c)"
  shows "claim_loop (Suc n) c approved dupKey recUn poll rec = claim_loop 1 c approved dupKey recUn poll rec"
  using passes_once_loop [OF passes_once_call_mode [OF assms]] by simp

theorem call_mode_makes_one_pass_witness:
  "claim_loop 3 charge_tcall None None False 15 JUndef = claim_loop 1 charge_tcall None None False 15 JUndef"
  using call_mode_makes_one_pass [of charge_tcall 2]
  by (simp add: charge_tcall_def charge_tool_def args_mode_def tool_window_def numeral_3_eq_3 numeral_2_eq_2)

end
