(* ===== verification/Compensation.thy ===== *)
theory Compensation
  imports ExactlyOnce "HOL-Library.AList"
begin

text \<open>
  Unwinding an abandoned run (\<open>packages/durable/src/compensation.ts\<close>): the worklist, the tombstone that condemns
  the run, and the pass over the entries. The hooks \<open>recover\<close> and \<open>compensate\<close> are outside code;
  \<open>JSON.parse\<close> on tool-call inputs is a parameter, \<^const>\<open>None\<close> when it throws. The \<open>content\<close> and
  \<open>parts\<close> of a model step are arrays, as the engine writes them.
\<close>

section \<open>Definitions\<close>

record CompensationEntry =
  ce_suffix :: string
  ce_toolCallId :: js
  ce_toolName :: js
  ce_status :: string
  ce_error :: "string option"

record CompensationReport =
  cr_runId :: string
  cr_dryRun :: bool
  cr_condemned :: bool
  cr_entries :: "CompensationEntry list"

definition compKey :: "string \<Rightarrow> string \<Rightarrow> key" where
  "compKey runId sfx = runId @ '':comp:'' @ sfx"

definition orgPart :: "string \<Rightarrow> string" where
  "orgPart org = (if org \<noteq> [] then ''org:'' @ org @ '':'' else [])"

definition assertNotCompensated :: "string \<Rightarrow> unit prog" where
  "assertNotCompensated runId = bindp (runCompensated runId) (\<lambda>b. if b then Raise (Err ''CompensatedRunError'' runId) else Ret ())"

type_synonym calls_map = "(js \<times> js \<times> js) list"

definition call_of_part :: "(string \<Rightarrow> js option) \<Rightarrow> calls_map \<Rightarrow> js \<Rightarrow> calls_map" where
  "call_of_part json_parse m part =
     (if js_field ''type'' part \<noteq> JStr ''tool-call'' \<or> \<not> js_truthy (js_field ''toolCallId'' part) then m
      else
        let input = (case js_field ''input'' part of
            JStr s \<Rightarrow> (case json_parse s of Some v \<Rightarrow> v | None \<Rightarrow> JStr s)
          | v \<Rightarrow> v)
        in AList.update (js_field ''toolCallId'' part) (input, js_field ''toolName'' part) m)"

definition callsFromModelSteps :: "(string \<Rightarrow> js option) \<Rightarrow> js list \<Rightarrow> calls_map" where
  "callsFromModelSteps json_parse entries =
     foldl (\<lambda>m e. if js_field ''kind'' e \<noteq> JStr ''model'' then m
            else let v = js_field ''value'' e in
              foldl (call_of_part json_parse) m (js_elems (js_field ''content'' v) @ js_elems (js_field ''parts'' v)))
       [] entries"

text \<open>\<open>/^args-(.+)-([0-9a-f]{16})$/\<close>: the tool name and the hash.\<close>

definition args_suffix :: "string \<Rightarrow> (string \<times> string) option" where
  "args_suffix s =
     (let name = take (length s - 22) (drop 5 s); h = drop (length s - 16) s in
      if 23 \<le> length s \<and> s = ''args-'' @ name @ ''-'' @ h \<and> list_all is_hex_char h \<and> \<not> list_ex is_line_terminator name
      then Some (name, h) else None)"

definition originalIdempotencyKey :: "string \<Rightarrow> string \<Rightarrow> string \<Rightarrow> string" where
  "originalIdempotencyKey org runId sfx =
     orgPart org @ (case args_suffix sfx of Some (name, h) \<Rightarrow> runId @ '':'' @ name @ '':'' @ h | None \<Rightarrow> runId @ '':'' @ sfx)"

definition COMP_CLAIM_TTL_MS :: int where "COMP_CLAIM_TTL_MS = 30000"

record comp_ctx =
  cc_caps :: caps
  cc_runId :: string
  cc_tools :: "(string \<times> AnyTool) list"
  cc_dryRun :: bool
  cc_org :: string
  cc_calls :: calls_map

text \<open>The worklist in the order of the journal; reading a record of an unknown format throws.\<close>

fun comp_work :: "string \<Rightarrow> js list \<Rightarrow> err + (string \<times> js) list" where
  "comp_work pre [] = Inr []"
| "comp_work pre (e # es) =
     (let key = js_string (js_field ''key'' e) in
      if js_field ''kind'' e \<noteq> JStr ''tool'' \<or> \<not> prefix pre key then comp_work pre es
      else case upgrade_current (js_field ''value'' e) of
        Inl err \<Rightarrow> Inl err
      | Inr record \<Rightarrow>
          if js_truthy record \<and> js_field ''mirrorOf'' record = JUndef \<and> has_status [''succeeded'', ''failed'', ''running''] record
          then map_sum id ((#) (drop (length pre) key, record)) (comp_work pre es)
          else comp_work pre es)"

definition comp_id :: "string \<Rightarrow> js \<Rightarrow> js" where
  "comp_id sfx record =
     (case js_elems (js_field ''resolvedToolCallIds'' record) of
        i # _ \<Rightarrow> if status_of record = JStr ''succeeded'' then i else JStr sfx
      | [] \<Rightarrow> JStr sfx)"

definition nullish :: "js \<Rightarrow> bool" where "nullish v \<longleftrightarrow> v = JUndef \<or> v = JNull"

definition comp_name :: "comp_ctx \<Rightarrow> string \<Rightarrow> js \<Rightarrow> js" where
  "comp_name cc sfx record =
     (let own = js_field ''toolName'' record;
          called_as = (case map_of (cc_calls cc) (comp_id sfx record) of Some (_, n) \<Rightarrow> n | None \<Rightarrow> JUndef) in
      if \<not> nullish own then own
      else if \<not> nullish called_as then called_as
      else case args_suffix sfx of Some (n, _) \<Rightarrow> JStr n | None \<Rightarrow> JUndef)"

definition comp_input :: "comp_ctx \<Rightarrow> string \<Rightarrow> js \<Rightarrow> js" where
  "comp_input cc sfx record =
     (let own = js_field ''input'' record in
      if \<not> nullish own then own
      else case map_of (cc_calls cc) (comp_id sfx record) of Some (i, _) \<Rightarrow> i | None \<Rightarrow> JUndef)"

definition comp_tool :: "comp_ctx \<Rightarrow> string \<Rightarrow> js \<Rightarrow> AnyTool option" where
  "comp_tool cc sfx record =
     (case comp_name cc sfx record of JStr n \<Rightarrow> if n \<noteq> [] then map_of (cc_tools cc) n else None | _ \<Rightarrow> None)"

definition comp_entry :: "comp_ctx \<Rightarrow> string \<Rightarrow> js \<Rightarrow> string \<Rightarrow> string option \<Rightarrow> CompensationEntry" where
  "comp_entry cc sfx record status e =
     \<lparr>ce_suffix = sfx, ce_toolCallId = comp_id sfx record, ce_toolName = comp_name cc sfx record, ce_status = status, ce_error = e\<rparr>"

text \<open>
  What actually happened: \<open>Inr\<close> the output of the executed call, \<open>Inl\<close> the status that settles the entry.
\<close>

definition resolve_executed :: "comp_ctx \<Rightarrow> string \<Rightarrow> js \<Rightarrow> ((string \<times> string option) + js) prog" where
  "resolve_executed cc sfx record =
     (if status_of record = JStr ''succeeded'' then Ret (Inr (js_field ''output'' record))
      else case comp_tool cc sfx record of
        Some t \<Rightarrow>
          if \<not> t_recover t then Ret (Inl (''uncertain'', None))
          else catchp
            (bindp (ext ''recover'' (JObj [(''input'', comp_input cc sfx record),
                 (''idempotencyKey'', JStr (originalIdempotencyKey (cc_org cc) (cc_runId cc) sfx)), (''toolCallId'', comp_id sfx record)]))
              (\<lambda>probe. bindp (propp ''done'' probe) (\<lambda>done0.
                 Ret (if \<not> js_truthy done0 then Inl (''skipped-not-executed'', None) else Inr (js_field ''output'' probe)))))
            (\<lambda>e. Ret (Inl (''uncertain'', Some (err_msg e))))
      | None \<Rightarrow> Ret (Inl (''uncertain'', None)))"

definition comp_running :: "int \<Rightarrow> js" where
  "comp_running at = JObj [(''status'', JStr ''running''), (''startedAt'', JNum at)]"

definition comp_failed :: "string \<Rightarrow> int \<Rightarrow> js" where
  "comp_failed msg attempts = JObj [(''status'', JStr ''comp-failed''), (''error'', JStr msg), (''attempts'', JNum attempts)]"

text \<open>The hook and its terminal record; the flag stops the pass.\<close>

definition comp_execute :: "comp_ctx \<Rightarrow> string \<Rightarrow> js \<Rightarrow> js \<Rightarrow> js \<Rightarrow> (CompensationEntry \<times> bool) prog" where
  "comp_execute cc sfx record output existing =
     (let ck = compKey (cc_runId cc) sfx in
      catchp
        (bindp (ext ''compensate'' (JObj [(''input'', comp_input cc sfx record), (''output'', output),
             (''idempotencyKey'', JStr (orgPart (cc_org cc) @ ck)), (''toolCallId'', comp_id sfx record), (''runId'', JStr (cc_runId cc))])) (\<lambda>result.
         bindp date_now (\<lambda>at.
           seqp (put ck (JObj [(''status'', JStr ''compensated''), (''output'', result), (''at'', JNum at)]))
             (Ret (comp_entry cc sfx record ''compensated'' None, False)))))
        (\<lambda>e.
          let attempts = (if js_field ''status'' existing = JStr ''comp-failed'' then js_int (js_field ''attempts'' existing) + 1 else 1) in
          seqp (put ck (comp_failed (err_msg e) attempts))
            (Ret (comp_entry cc sfx record ''failed'' (Some (err_msg e)), True))))"

definition comp_unwind :: "comp_ctx \<Rightarrow> string \<Rightarrow> js \<Rightarrow> js \<Rightarrow> (CompensationEntry \<times> bool) prog" where
  "comp_unwind cc sfx record output =
     (let ck = compKey (cc_runId cc) sfx; says = (\<lambda>st stop. Ret (comp_entry cc sfx record st None, stop)) in
      bindp (get ck) (\<lambda>existing.
        if js_field ''status'' existing = JStr ''compensated'' then says ''already-compensated'' False
        else if cc_dryRun cc then says ''would-compensate'' False
        else bindp (if js_field ''status'' existing = JStr ''running'' then bindp date_now (\<lambda>now.
                      Ret (case js_field ''startedAt'' existing of JNum t \<Rightarrow> now - t \<le> COMP_CLAIM_TTL_MS | _ \<Rightarrow> False))
                    else Ret False) (\<lambda>live.
          if live then says ''busy'' True
          else bindp date_now (\<lambda>at.
            if existing = JUndef then
              bindp (claim (cc_caps cc) ck (comp_running at)) (\<lambda>won.
                if won then comp_execute cc sfx record output existing else says ''busy'' True)
            else seqp (put ck (comp_running at)) (comp_execute cc sfx record output existing)))))"

definition comp_item :: "comp_ctx \<Rightarrow> string \<times> js \<Rightarrow> bool \<Rightarrow> (CompensationEntry \<times> bool) prog" where
  "comp_item cc item stopped =
     (let sfx = fst item; record = snd item in
      if stopped then Ret (comp_entry cc sfx record ''not-attempted'' None, True)
      else bindp (resolve_executed cc sfx record) (\<lambda>r. case r of
          Inl (st, e) \<Rightarrow> Ret (comp_entry cc sfx record st e, False)
        | Inr output \<Rightarrow>
            if (case comp_tool cc sfx record of Some t \<Rightarrow> t_compensate t | None \<Rightarrow> False)
            then comp_unwind cc sfx record output
            else Ret (comp_entry cc sfx record ''skipped-no-hook'' None, False)))"

primrec comp_items :: "comp_ctx \<Rightarrow> (string \<times> js) list \<Rightarrow> bool \<Rightarrow> (CompensationEntry list) prog" where
  "comp_items cc [] stopped = Ret []"
| "comp_items cc (x # xs) stopped =
     bindp (comp_item cc x stopped) (\<lambda>(e, stop). bindp (comp_items cc xs stop) (\<lambda>es. Ret (e # es)))"

definition compensateRun ::
  "(string \<Rightarrow> js option) \<Rightarrow> caps \<Rightarrow> string \<Rightarrow> string \<Rightarrow> (string \<times> AnyTool) list \<Rightarrow> bool \<Rightarrow> CompensationReport prog" where
  "compensateRun json_parse J org runId tools dryRun =
     (if \<not> has_readRun J then Raise (Err ''Error'' ''the journal does not support readRun'')
      else bindp (callp (JReadRun runId)) (\<lambda>es.
        let entries = js_elems es;
            cc = \<lparr>cc_caps = J, cc_runId = runId, cc_tools = tools, cc_dryRun = dryRun, cc_org = org, cc_calls = callsFromModelSteps json_parse entries\<rparr> in
        bindp (liftp (comp_work (runId @ '':tool:'') entries)) (\<lambda>work.
          seqp (if dryRun then Ret () else bindp date_now (\<lambda>at. bindp (claim J (tombstoneKey runId) (JObj [(''at'', JNum at)])) (\<lambda>_. Ret ())))
            (bindp (comp_items cc (rev work) False) (\<lambda>out.
              Ret \<lparr>cr_runId = runId, cr_dryRun = dryRun, cr_condemned = \<not> dryRun, cr_entries = out\<rparr>)))))"

section \<open>A condemned run\<close>

definition condemned_inv :: "key \<Rightarrow> (js \<Rightarrow> bool) \<Rightarrow> nat \<Rightarrow> world \<Rightarrow> (nat \<Rightarrow> unit) \<Rightarrow> bool" where
  "condemned_inv T E n w gs \<longleftrightarrow> (\<exists>v. map_of (store (journal w)) T = Some v \<and> v \<noteq> JUndef) \<and> executions E w = n"

definition condemned_resp :: "key \<Rightarrow> unit \<Rightarrow> jop \<Rightarrow> err + js \<Rightarrow> bool" where
  "condemned_resp T g c r \<longleftrightarrow> (\<forall>v. c = JGet T \<and> r = Inr v \<longrightarrow> v \<noteq> JUndef)"

lemma tool_record_not_undef: "tool_record v \<Longrightarrow> v \<noteq> JUndef"
  by (auto simp: tool_record_def)

lemma condemned_inv_answer:
  assumes inv: "condemned_inv T E n w gs" and al: "tame T E c" and ans: "answer c w r w'"
  shows "condemned_inv T E n w' gs'"
  using ans
proof cases
  case (ans_ok r0)
  with inv tame_store [OF al ans_ok(2)] journal_op_called [OF ans_ok(2)] show ?thesis
    by (auto simp: condemned_inv_def executions_def dest: tool_record_not_undef)
next
  case (ans_lost r0 e)
  with inv tame_store [OF al ans_lost(2)] journal_op_called [OF ans_lost(2)] show ?thesis
    by (auto simp: condemned_inv_def executions_def dest: tool_record_not_undef)
qed (use inv al in \<open>auto simp: condemned_inv_def executions_def tame_def\<close>)

interpretation condemned: protocol "\<lambda>_. tame T E" "\<lambda>_ _ _. ()" "()" "condemned_inv T E n" "condemned_resp T" for T E n
  by unfold_locales
     (fact condemned_inv_answer, simp add: condemned_inv_def executions_def,
      auto simp: condemned_inv_def condemned_resp_def answer_JGet mem_get_def)

definition condemned_wp :: "key \<Rightarrow> (js \<Rightarrow> bool) \<Rightarrow> 'a prog \<Rightarrow> bool" where
  "condemned_wp T E p = wp (condemned_resp T) (\<lambda>_. tame T E) (\<lambda>_ _ _. ()) p () (\<lambda>_ _. True)"

lemma condemned_tame: "calls_in (tame T E) p \<Longrightarrow> condemned_wp T E p"
  unfolding condemned_wp_def by (rule wp_calls_any) auto

lemma condemned_bindp:
  assumes "calls_in (tame T E) p" and "\<And>x. condemned_wp T E (f x)"
  shows "condemned_wp T E (bindp p f)"
  unfolding condemned_wp_def wp_bindp
  by (rule wp_calls_any [OF assms(1)]) (use assms(2) in \<open>auto simp: condemned_wp_def split: sum.split\<close>)

lemma condemned_seqp: "calls_in (tame T E) p \<Longrightarrow> condemned_wp T E q \<Longrightarrow> condemned_wp T E (seqp p q)"
  by (simp add: seqp_def condemned_bindp)

lemma condemned_or_else: "calls_in (tame T E) g \<Longrightarrow> condemned_wp T E rest \<Longrightarrow> condemned_wp T E (or_else g rest)"
  unfolding or_else_def by (rule condemned_bindp) (auto simp: condemned_tame split: option.split)

lemma condemned_gate:
  assumes "side_effect (k_tool c)"
  shows "condemned_wp (tombstoneKey (k_run c)) E (or_else (compensated_gate c) rest)"
  using assms
  by (auto simp: condemned_wp_def compensated_gate_def runCompensated_def or_else_def ending_def wp_bindp get_def wp_callp
      condemned_resp_def blockedOrThrow_def split: sum.split)

lemma prepared_apart_tombstone:
  assumes "prepare_call ctx tool name input i = Inr c" and "plain_run (c_runId ctx)"
  shows "apart (tombstoneKey (c_runId ctx)) c"
  unfolding apart_def
proof (intro allI impI notI)
  fix k
  assume "side_key c k" and k: "k = tombstoneKey (c_runId ctx)"
  note side = side_key_shape [OF this(1)] and c = prepared_key [OF assms(1)]
  have T: "tombstoneKey r = r @ '':proc:__gnl_compensated''" for r by (simp add: tombstoneKey_def key_proc_def)
  have seg: "first_segment k = first_segment (c_runId ctx)" using k by (simp add: T)
  have "k_ownerKey c \<noteq> Some k"
    using c(5) seg assms(2) by (auto simp: plain_run_def)
  with seg show False
    using side c(1) k assms(2) by (auto simp: T plain_run_def prefix_same_run dest: prefix_xthr)
qed

lemma condemned_durable_call:
  assumes "prepare_call ctx tool name input i = Inr c" and "plain_run (c_runId ctx)" and "side_effect tool"
  shows "condemned_wp (tombstoneKey (c_runId ctx)) E (durable_call c)"
proof -
  note c = prepared_key [OF assms(1)]
  note a = prepared_apart_tombstone [OF assms(1,2)]
  have dup: "dup_ok (tombstoneKey (c_runId ctx)) dk" if "dup_key_of c = Inr dk" for dk
    using a that unfolding apart_def side_key_def dup_ok_def by blast
  have gates: "condemned_wp (tombstoneKey (c_runId ctx)) E (gates c approved dk rest)" if "dup_key_of c = Inr dk" for approved dk rest
    unfolding gates_def
    using condemned_gate [of c E] c(1,2) assms(3) by (intro condemned_or_else [OF calls_in_dup_gate [OF a dup [OF that]]]) simp
  have lifted: "condemned_wp (tombstoneKey (c_runId ctx)) E (bindp (liftp (dup_key_of c)) (\<lambda>dk. gates c approved dk (rest dk)))" for approved rest
    using gates by (cases "dup_key_of c") (simp_all add: condemned_tame)
  have read: "calls_in (tame T E) (ctxGet cache k)" for T cache k
    by (auto simp: ctxGet_def split: option.split)
  show ?thesis
    unfolding durable_call_def Let_def
    by (rule condemned_bindp [OF read])
       (auto intro!: condemned_seqp condemned_or_else a lifted)
qed

text \<open>A call of a side-effect tool on the run \<open>r\<close>.\<close>

definition side_effect_call :: "string \<Rightarrow> js prog \<Rightarrow> bool" where
  "side_effect_call r p \<longleftrightarrow> (\<exists>tool ctx name input i c. p = durableTool tool ctx name input i
     \<and> prepare_call ctx tool name input i = Inr c \<and> c_runId ctx = r \<and> side_effect tool)"

section \<open>Properties\<close>

text \<open>
  C22: a condemned run produces no further side effect. Once \<open>compensateRun\<close> has written the tombstone of a
  run, no call of a side-effect tool that starts on this run afterwards executes its tool, whatever the
  tool declares, whatever a human has approved, and however many workers still try; other programs may run as long as they
  neither delete the tombstone nor make the counted executions.
\<close>

theorem condemned_run_executes_nothing:
  assumes "plain_run r" and "map_of (store (journal w)) (tombstoneKey r) = Some v" and "v \<noteq> JUndef"
    and "\<And>p. p \<in> S \<Longrightarrow> side_effect_call r p \<or> calls_in (quiet (tombstoneKey r) E) p"
    and "reachable S w c"
  shows "executions E (cworld c) = executions E w"
proof -
  let ?T = "tombstoneKey r"
  have "condemned_wp ?T E p" if "p \<in> S" for p
    using assms(4) [OF that]
  proof
    assume "side_effect_call r p"
    then show ?thesis
      using condemned_durable_call assms(1) by (fastforce simp: side_effect_call_def durableTool_def)
  next
    assume "calls_in (quiet ?T E) p"
    then show ?thesis by (intro condemned_tame) (erule calls_in_mono, simp add: tame_def)
  qed
  moreover have "condemned_inv ?T E (executions E w) w (\<lambda>_. ())" using assms(2,3) by (simp add: condemned_inv_def)
  ultimately obtain gs where "condemned_inv ?T E (executions E w) (cworld c) gs"
    using condemned.reachable_inv [OF assms(5)] unfolding condemned_wp_def by blast
  then show ?thesis by (simp add: condemned_inv_def)
qed

definition condemned_world :: world where
  "condemned_world = new_world\<lparr>journal := mem_put 0 (tombstoneKey ''r1'') (JObj [(''at'', JNum 0)]) empty_journal\<rparr>"

lemma condemned_refuses: "fst (run receipt_env charge_call condemned_world) = Inl (Err ''CompensatedRunError'' ''charge'')"
  by code_simp

theorem condemned_run_executes_nothing_witness:
  "\<exists>c. reachable {charge_call} condemned_world c \<and> threads c 0 = Some (Raise (Err ''CompensatedRunError'' ''charge''))
     \<and> executions (\<lambda>_. True) (cworld c) = 0"
proof -
  obtain w' where w': "run receipt_env charge_call condemned_world = (Inl (Err ''CompensatedRunError'' ''charge''), w')"
    using condemned_refuses by (metis prod.collapse)
  from run_solo [OF singletonI w'] have r: "reachable {charge_call} condemned_world (solo w' (Raise (Err ''CompensatedRunError'' ''charge'')))"
    by (simp add: finished_def)
  have call: "side_effect_call ''r1'' charge_call"
    unfolding side_effect_call_def charge_call_def
    by (intro exI conjI, rule refl, rule charge_prepared) (simp_all add: charge_tool_def plain_ctx_def side_effect_def)
  have "executions (\<lambda>_. True) (cworld (solo w' (Raise (Err ''CompensatedRunError'' ''charge'') :: js prog))) = executions (\<lambda>_. True) condemned_world"
    by (rule condemned_run_executes_nothing [OF _ _ _ _ r, of "''r1''" "JObj [(''at'', JNum 0)]"])
       (auto simp: call condemned_world_def mem_put_def empty_journal_def plain_run_def first_segment_def)
  with r show ?thesis by (auto simp: solo_def executions_def condemned_world_def new_world_def)
qed

subsection \<open>The order of the unwinding\<close>

text \<open>After an entry that stops the pass nothing is attempted any more.\<close>

fun stops_at_failure :: "CompensationEntry list \<Rightarrow> bool" where
  "stops_at_failure [] = True"
| "stops_at_failure (e # es) =
     (if ce_status e \<in> {''failed'', ''busy''} then list_all (\<lambda>x. ce_status x = ''not-attempted'') es
      else ce_status e \<noteq> ''not-attempted'' \<and> stops_at_failure es)"

definition item_post :: "string \<times> js \<Rightarrow> bool \<Rightarrow> err + (CompensationEntry \<times> bool) \<Rightarrow> bool" where
  "item_post item stopped r = (case r of
       Inl e \<Rightarrow> True
     | Inr (e, stop) \<Rightarrow> ce_suffix e = fst item
         \<and> (if stopped then ce_status e = ''not-attempted'' \<and> stop
            else ce_status e \<noteq> ''not-attempted'' \<and> (stop \<longleftrightarrow> ce_status e \<in> {''failed'', ''busy''})))"

lemma comp_entry_simps [simp]: "ce_suffix (comp_entry cc sfx r st e) = sfx" "ce_status (comp_entry cc sfx r st e) = st"
  by (simp_all add: comp_entry_def)

lemma results_comp_execute: "results (comp_execute cc sfx r out ex) (item_post (sfx, r) False)"
  by (simp add: comp_execute_def item_post_def Let_def split: sum.split)

lemma results_claim [intro!]: "(\<And>e. B (Inl e)) \<Longrightarrow> B (Inr True) \<Longrightarrow> B (Inr False) \<Longrightarrow> results (claim J k v) B"
  by (auto simp: claim_def split: sum.split)

lemma results_comp_unwind: "results (comp_unwind cc sfx r out) (item_post (sfx, r) False)"
  using results_comp_execute [of cc sfx r out]
  by (auto simp: comp_unwind_def Let_def item_post_def split: sum.split)

lemma results_resolve_executed:
  "results (resolve_executed cc sfx r)
     (\<lambda>x. case x of Inr (Inl (st, e)) \<Rightarrow> st \<in> {''uncertain'', ''skipped-not-executed''} | _ \<Rightarrow> True)"
  by (auto simp: resolve_executed_def propp_def split: option.split sum.split)

lemma results_comp_item: "results (comp_item cc item stopped) (item_post item stopped)"
proof (cases stopped)
  case True
  then show ?thesis by (simp add: comp_item_def item_post_def)
next
  case False
  have "results (resolve_executed cc (fst item) (snd item)) (\<lambda>x. case x of
      Inl e \<Rightarrow> item_post item False (Inl e)
    | Inr r \<Rightarrow> results (case r of
          Inl (st, e) \<Rightarrow> Ret (comp_entry cc (fst item) (snd item) st e, False)
        | Inr output \<Rightarrow>
            if (case comp_tool cc (fst item) (snd item) of Some t \<Rightarrow> t_compensate t | None \<Rightarrow> False)
            then comp_unwind cc (fst item) (snd item) output
            else Ret (comp_entry cc (fst item) (snd item) ''skipped-no-hook'' None, False)) (item_post item False))"
    using results_comp_unwind [of cc "fst item" "snd item"]
    by (intro results_mono [OF results_resolve_executed]) (auto simp: item_post_def split: sum.splits)
  with False show ?thesis by (simp add: comp_item_def Let_def)
qed

definition items_post :: "(string \<times> js) list \<Rightarrow> bool \<Rightarrow> err + CompensationEntry list \<Rightarrow> bool" where
  "items_post work stopped r = (case r of
       Inl e \<Rightarrow> True
     | Inr es \<Rightarrow> map ce_suffix es = map fst work
         \<and> (if stopped then list_all (\<lambda>x. ce_status x = ''not-attempted'') es else stops_at_failure es))"

lemma results_comp_items: "results (comp_items cc work stopped) (items_post work stopped)"
proof (induction work arbitrary: stopped)
  case (Cons x xs)
  have "results (comp_item cc x stopped) (\<lambda>r. case r of Inl e \<Rightarrow> items_post (x # xs) stopped (Inl e)
      | Inr (e, stop) \<Rightarrow> results (bindp (comp_items cc xs stop) (\<lambda>es. Ret (e # es))) (items_post (x # xs) stopped))"
  proof (rule results_mono [OF results_comp_item])
    fix r :: "err + CompensationEntry \<times> bool"
    assume "item_post x stopped r"
    then show "case r of Inl e \<Rightarrow> items_post (x # xs) stopped (Inl e)
      | Inr (e, stop) \<Rightarrow> results (bindp (comp_items cc xs stop) (\<lambda>es. Ret (e # es))) (items_post (x # xs) stopped)"
      by (auto simp: items_post_def item_post_def intro!: results_mono [OF Cons.IH] split: sum.splits if_splits)
  qed
  then show ?case by (auto elim!: results_mono split: sum.splits prod.splits)
qed (simp add: items_post_def)


text \<open>Two charges on record, both with a hook; the second was made last.\<close>

definition refundable :: AnyTool where
  "refundable = charge_tool\<lparr>t_compensate := True\<rparr>"

definition charge_record :: js where
  "charge_record = stamped [(''status'', JStr ''succeeded''), (''output'', JStr ''receipt''), (''toolName'', JStr ''charge''), (''input'', JNum 5)]"

definition charged_world :: world where
  "charged_world = new_world\<lparr>journal := mem_put 0 ''r1:tool:c2'' charge_record (mem_put 0 ''r1:tool:c1'' charge_record empty_journal)\<rparr>"

definition refund_call :: "CompensationReport prog" where
  "refund_call = compensateRun (\<lambda>_. None) full_caps [] ''r1'' [(''charge'', refundable)] False"

lemma refund_runs:
  "map_sum id (\<lambda>rep. map (\<lambda>e. (ce_suffix e, ce_status e)) (cr_entries rep)) (fst (run (\<lambda>_ _ _. Inl (Err ''Error'' ''down'')) refund_call charged_world))
     = Inr [(''c2'', ''failed''), (''c1'', ''not-attempted'')]"
  by code_simp


subsection \<open>A dry run and a concurrent one\<close>

definition refunds :: "world \<Rightarrow> nat" where
  "refunds w = length (filter (\<lambda>(f, a). f = ''compensate'') (called w))"

text \<open>Calls of a preview: reads of the journal and questions to the provider.\<close>

fun preview :: "jop \<Rightarrow> bool" where
  "preview (JGet k) = True"
| "preview (JReadRun r) = True"
| "preview (Ext f a) = (f = ''recover'')"
| "preview DateNow = True"
| "preview _ = False"

lemma preview_run: "calls_in preview p \<Longrightarrow> journal (snd (run env p w)) = journal w \<and> refunds (snd (run env p w)) = refunds w"
proof (induction p arbitrary: w)
  case (Op c k)
  then have "journal (snd (exec_op env c w)) = journal w" "refunds (snd (exec_op env c w)) = refunds w"
    by (cases c; auto simp: refunds_def)+
  moreover have "calls_in preview (k r)" for r using Op.prems by simp
  ultimately show ?case using Op.IH [OF rangeI] by (auto split: prod.split)
qed auto

lemma preview_comp_items: "cc_dryRun cc \<Longrightarrow> calls_in preview (comp_items cc work stopped)"
proof (induction work arbitrary: stopped)
  case (Cons x xs)
  then have "calls_in preview (comp_item cc x stopped)"
    by (auto simp: comp_item_def comp_unwind_def resolve_executed_def Let_def split: sum.split option.split)
  with Cons show ?case by auto
qed simp

text \<open>
  A dry run changes nothing. With \<open>dryRun\<close> the journal is the same afterwards, the tombstone
  included, and no \<open>compensate\<close> hook has been called, whatever the records say and the providers answer.
\<close>

theorem dry_run_changes_nothing:
  "journal (snd (run env (compensateRun json_parse J org r tools True) w)) = journal w
   \<and> refunds (snd (run env (compensateRun json_parse J org r tools True) w)) = refunds w"
  by (rule preview_run) (auto simp: compensateRun_def Let_def intro!: preview_comp_items)

definition retry_world :: world where
  "retry_world = new_world\<lparr>journal := mem_put 0 ''r1:comp:c1'' (comp_failed ''down'' 1) (mem_put 0 ''r1:tool:c1'' charge_record empty_journal)\<rparr>"

lemma refund_twice_run:
  "(case interleave receipt_env [refund_call, refund_call] (concat (replicate 9 [0, 1])) retry_world of (ps, w) \<Rightarrow>
      (map (\<lambda>p. case p of Ret rep \<Rightarrow> map ce_status (cr_entries rep) | _ \<Rightarrow> []) ps, refunds w)) = ([[''compensated''], [''compensated'']], 2)"
  by code_simp

text \<open>
  Two operators can refund twice. When an entry carries the record of an earlier failed attempt, the
  takeover is a plain write: two concurrent passes both read the failed attempt, both take the entry over, both call the
  hook, and both report it compensated. (The same holds of a stale running attempt.)
\<close>

theorem concurrent_passes_can_refund_twice:
  "\<exists>c rep1 rep2. reachable {refund_call} retry_world c \<and> threads c 0 = Some (Ret rep1) \<and> threads c 1 = Some (Ret rep2)
     \<and> map ce_status (cr_entries rep1) = [''compensated''] \<and> map ce_status (cr_entries rep2) = [''compensated''] \<and> refunds (cworld c) = 2"
proof -
  obtain ps w where i: "interleave receipt_env [refund_call, refund_call] (concat (replicate 9 [0, 1])) retry_world = (ps, w)"
    by fastforce
  have st: "map (\<lambda>p. case p of Ret rep \<Rightarrow> map ce_status (cr_entries rep) | _ \<Rightarrow> []) ps = [[''compensated''], [''compensated'']]" "refunds w = 2"
    using refund_twice_run i by simp_all
  then obtain p1 p2 where ps: "ps = [p1, p2]" by (auto simp: map_eq_Cons_conv)
  with st obtain rep1 rep2 where "p1 = Ret rep1" "p2 = Ret rep2" "map ce_status (cr_entries rep1) = [''compensated'']" "map ce_status (cr_entries rep2) = [''compensated'']"
    by (cases p1; cases p2) auto
  moreover have "reachable {refund_call} retry_world (together ps w)"
    by (rule interleave_reachable [OF together_reachable i]) simp
  ultimately show ?thesis using ps st(2) by (auto simp: together_def intro!: exI [of _ "together ps w"])
qed

subsection \<open>Condemning before unwinding\<close>

text \<open>A worker's ghost value says whether it knows the tombstone to be there; only then may it call a hook.\<close>

definition unwind_allowed :: "key \<Rightarrow> bool \<Rightarrow> jop \<Rightarrow> bool" where
  "unwind_allowed T g c \<longleftrightarrow>
     (case c of
        JPutIfAbsent k v \<Rightarrow> True
      | JPut k v \<Rightarrow> k \<noteq> T | JPutIfMatch k e v \<Rightarrow> k \<noteq> T | JDeletePrefix p \<Rightarrow> \<not> prefix p T
      | Ext f a \<Rightarrow> f = ''compensate'' \<longrightarrow> g
      | _ \<Rightarrow> True)"

definition unwind_upd :: "key \<Rightarrow> bool \<Rightarrow> jop \<Rightarrow> err + js \<Rightarrow> bool" where
  "unwind_upd T g c r = (case c of JPutIfAbsent k v \<Rightarrow> g \<or> (k = T \<and> (\<exists>x. r = Inr x)) | _ \<Rightarrow> g)"

definition unwind_inv :: "key \<Rightarrow> nat \<Rightarrow> world \<Rightarrow> (nat \<Rightarrow> bool) \<Rightarrow> bool" where
  "unwind_inv T n w gs \<longleftrightarrow> ((\<exists>i. gs i) \<or> refunds w \<noteq> n \<longrightarrow> map_of (store (journal w)) T \<noteq> None)"

lemma unwind_store:
  assumes "unwind_allowed T g c" and "journal_op c w = Some (r, w')" and "map_of (store (journal w)) T \<noteq> None \<or> (\<exists>v. c = JPutIfAbsent T v)"
  shows "map_of (store (journal w')) T \<noteq> None"
  using assms
  by (cases c) (auto simp: unwind_allowed_def mem_put_def mem_putIfAbsent_def mem_putIfMatch_def mem_incrBy_def Let_def domIff
      map_of_deletePrefix mem_deletePrefix_def map_of_filter_key [of "\<lambda>k. \<not> prefix _ k"] split: prod.splits if_splits)

lemma unwind_upd_cases: "(\<exists>j. (gs(i := unwind_upd T (gs i) c r)) j) \<Longrightarrow> (\<exists>j. gs j) \<or> ((\<exists>v. c = JPutIfAbsent T v) \<and> (\<exists>x. r = Inr x))"
  by (cases c) (auto simp: unwind_upd_def split: if_splits)

lemma unwind_inv_effect:
  assumes "unwind_inv T n w gs" and "unwind_allowed T (gs i) c" and "journal_op c w = Some (r0, w')"
  shows "unwind_inv T n w' (gs(i := unwind_upd T (gs i) c r))"
proof -
  have "refunds w' = refunds w" using journal_op_called [OF assms(3)] by (simp add: refunds_def)
  then show ?thesis
    using assms(1) unwind_store [OF assms(2,3)] unwind_upd_cases [of gs i T c r] unfolding unwind_inv_def by metis
qed

lemma unwind_inv_answer:
  assumes inv: "unwind_inv T n w gs" and al: "unwind_allowed T (gs i) c" and ans: "answer c w r w'"
  shows "unwind_inv T n w' (gs(i := unwind_upd T (gs i) c r))"
  using ans
proof cases
  case (ans_ok r0)
  then show ?thesis using unwind_inv_effect [OF inv al] by simp
next
  case (ans_lost r0 e)
  then show ?thesis using unwind_inv_effect [OF inv al] by simp
next
  case (ans_down r0 w0 e)
  then show ?thesis using inv unwind_upd_cases [of gs i T c r] unfolding unwind_inv_def by blast
next
  case (ans_ext f a)
  then show ?thesis using inv al by (auto simp: unwind_inv_def unwind_upd_def unwind_allowed_def refunds_def split: if_splits)
qed (use inv in \<open>auto simp: unwind_inv_def unwind_upd_def refunds_def split: if_splits\<close>)

interpretation unwind: protocol "unwind_allowed T" "unwind_upd T" False "unwind_inv T n" "\<lambda>_. possible" for T n
  by unfold_locales
     (fact unwind_inv_answer, simp add: unwind_inv_def refunds_def, auto simp: possible_def)

lemma calls_in_comp_items: "calls_in (unwind_allowed (tombstoneKey (cc_runId cc)) True) (comp_items cc work stopped)"
proof (induction work arbitrary: stopped)
  case (Cons x xs)
  have ck: "compKey (cc_runId cc) s \<noteq> tombstoneKey (cc_runId cc)" for s
    by (simp add: compKey_def tombstoneKey_def key_proc_def)
  have "calls_in (unwind_allowed (tombstoneKey (cc_runId cc)) True) (comp_item cc x stopped)"
    by (auto simp: comp_item_def comp_unwind_def resolve_executed_def comp_execute_def claim_def put_def date_now_def putIfAbsent_def callp_def
        unwind_allowed_def ck Let_def split: sum.split option.split)
  with Cons show ?case by auto
qed simp

text \<open>
  C23: the run is condemned before anything is unwound. In every interleaving of any number of passes over a run, with
  crashes and failing journal calls, a \<open>compensate\<close> hook has been called only if the tombstone of the run is in the journal, so the
  gate of the durable tool already refuses new side effects.
\<close>

theorem condemned_before_unwinding:
  assumes "\<And>p. p \<in> S \<Longrightarrow> \<exists>json_parse J org tools dry. p = compensateRun json_parse J org r tools dry \<and> has_putIfAbsent J"
    and "reachable S w c" and "refunds (cworld c) \<noteq> refunds w"
  shows "map_of (store (journal (cworld c))) (tombstoneKey r) \<noteq> None"
proof -
  let ?T = "tombstoneKey r"
  let ?wp = "\<lambda>p g. wp (\<lambda>_. possible) (unwind_allowed ?T) (unwind_upd ?T) p g (\<lambda>_ _. True)"
  have free: "?wp (comp_items \<lparr>cc_caps = J, cc_runId = r, cc_tools = ts, cc_dryRun = d, cc_org = og, cc_calls = m\<rparr> work b) True" for J ts d og m work b
    using calls_in_comp_items [of "\<lparr>cc_caps = J, cc_runId = r, cc_tools = ts, cc_dryRun = d, cc_org = og, cc_calls = m\<rparr>" work b]
    by (intro wp_calls_in [where P = "unwind_allowed ?T True"]) (auto simp: unwind_upd_def split: jop.split)
  have dry: "?wp (comp_items \<lparr>cc_caps = J, cc_runId = r, cc_tools = ts, cc_dryRun = True, cc_org = og, cc_calls = m\<rparr> work b) False" for J ts og m work b
  proof (rule wp_calls_in [OF preview_comp_items])
    fix c' assume "preview c'"
    then show "unwind_allowed ?T False c'" "\<And>r. unwind_upd ?T False c' r = False"
      by (cases c'; auto simp: unwind_allowed_def unwind_upd_def)+
  qed simp_all
  have "?wp p False" if "p \<in> S" for p
  proof -
    from assms(1) [OF that] obtain json_parse J org tools d
      where p: "p = compensateRun json_parse J org r tools d" and J: "has_putIfAbsent J" by blast
    show ?thesis
      using free dry J unfolding p compensateRun_def
      by (auto simp: wp_bindp wp_seqp wp_callp wp_liftp Let_def date_now_def claim_def putIfAbsent_def unwind_allowed_def unwind_upd_def split: sum.split)
  qed
  moreover have "unwind_inv ?T (refunds w) w (\<lambda>_. False)" by (simp add: unwind_inv_def)
  ultimately obtain gs where "unwind_inv ?T (refunds w) (cworld c) gs"
    using unwind.reachable_inv [OF assms(2)] by blast
  with assms(3) show ?thesis by (simp add: unwind_inv_def)
qed

lemma refund_succeeds: "refunds (snd (run receipt_env refund_call charged_world)) = 2" "refunds charged_world = 0"
  by code_simp+

theorem condemned_before_unwinding_witness:
  "\<exists>c. reachable {refund_call} charged_world c \<and> refunds (cworld c) = 2 \<and> map_of (store (journal (cworld c))) (tombstoneKey ''r1'') \<noteq> None"
proof -
  obtain res w' where w': "run receipt_env refund_call charged_world = (res, w')" by fastforce
  from run_solo [OF singletonI w'] have r: "reachable {refund_call} charged_world (solo w' (finished res))" .
  have two: "refunds (cworld (solo w' (finished res))) = 2" using refund_succeeds(1) w' by (simp add: solo_def)
  have "map_of (store (journal (cworld (solo w' (finished res))))) (tombstoneKey ''r1'') \<noteq> None"
  proof (rule condemned_before_unwinding [OF _ r])
    have "has_putIfAbsent full_caps" by (simp add: full_caps_def)
    then show "\<exists>json_parse J org tools dry. p = compensateRun json_parse J org ''r1'' tools dry \<and> has_putIfAbsent J" if "p \<in> {refund_call}" for p
      using that unfolding refund_call_def by blast
  qed (simp add: two refund_succeeds(2))
  with r two show ?thesis by blast
qed

end
