(* ===== verification/CasRegister.thy ===== *)
theory CasRegister
  imports JournalOps
begin

text \<open>
  A journal record that workers change only by compare-and-set: created with \<open>putIfAbsent\<close>, replaced with
  \<open>putIfMatch\<close> against the value that was read. The locale takes the values such a record holds and the
  replacements the writers permit themselves, and shows that the stored value moves only along that relation, in
  every interleaving. \<open>putIfMatch\<close> compares canonical texts, so different values must have different texts.
\<close>

definition cas_allowed :: "(js \<Rightarrow> bool) \<Rightarrow> (js \<Rightarrow> js \<Rightarrow> bool) \<Rightarrow> key \<Rightarrow> unit \<Rightarrow> jop \<Rightarrow> bool" where
  "cas_allowed good moves K g c \<longleftrightarrow>
     (case c of
        JPut k v \<Rightarrow> k \<noteq> K
      | JDeletePrefix p \<Rightarrow> \<not> prefix p K
      | JPutIfAbsent k v \<Rightarrow> k = K \<longrightarrow> good v
      | JPutIfMatch k cur v \<Rightarrow> k = K \<longrightarrow> good cur \<and> good v \<and> moves cur v
      | _ \<Rightarrow> True)"

definition cas_inv :: "(js \<Rightarrow> bool) \<Rightarrow> key \<Rightarrow> world \<Rightarrow> (nat \<Rightarrow> unit) \<Rightarrow> bool" where
  "cas_inv good K w gs \<longleftrightarrow> (\<forall>v. map_of (store (journal w)) K = Some v \<longrightarrow> good v)"

definition cas_resp :: "(js \<Rightarrow> bool) \<Rightarrow> key \<Rightarrow> unit \<Rightarrow> jop \<Rightarrow> err + js \<Rightarrow> bool" where
  "cas_resp good K g c r \<longleftrightarrow> possible c r \<and> (\<forall>v. c = JGet K \<and> r = Inr v \<longrightarrow> v = JUndef \<or> good v)"

abbreviation cas_wp ::
  "(js \<Rightarrow> bool) \<Rightarrow> (js \<Rightarrow> js \<Rightarrow> bool) \<Rightarrow> key \<Rightarrow> 'a prog \<Rightarrow> bool" where
  "cas_wp good moves K p \<equiv> wp (cas_resp good K) (cas_allowed good moves K) (\<lambda>_ _ _. ()) p () (\<lambda>_ _. True)"

locale cas_register =
  fixes good :: "js \<Rightarrow> bool" and moves :: "js \<Rightarrow> js \<Rightarrow> bool"
  assumes serial: "good a \<Longrightarrow> good b \<Longrightarrow> stableStringify a = stableStringify b \<Longrightarrow> a = b"
begin

lemma effect:
  assumes inv: "cas_inv good K w gs" and al: "cas_allowed good moves K g c" and ok: "journal_op c w = Some (r, w')"
  shows "map_of (store (journal w')) K = map_of (store (journal w)) K
    \<or> (\<exists>v. map_of (store (journal w')) K = Some v \<and> good v
         \<and> (\<forall>cur. map_of (store (journal w)) K = Some cur \<longrightarrow> moves cur v))"
proof (cases "\<exists>x v. c = JPutIfMatch K x v")
  case False
  then show ?thesis using al ok
    by (cases c) (auto simp: cas_allowed_def mem_put_def mem_putIfAbsent_def mem_putIfMatch_def mem_incrBy_def Let_def domIff
        map_of_deletePrefix mem_deletePrefix_def map_of_filter_key [of "\<lambda>k. \<not> prefix _ k"] split: prod.splits if_splits)
next
  case True
  then obtain x v where c: "c = JPutIfMatch K x v" by blast
  with al have g: "good x" "good v" "moves x v" by (auto simp: cas_allowed_def)
  show ?thesis
  proof (cases "js_has (store (journal w)) K \<and> stableStringify (mem_get K (journal w)) = stableStringify x")
    case True
    then obtain cur where "map_of (store (journal w)) K = Some cur" "stableStringify cur = stableStringify x"
      by (auto simp: mem_get_def)
    with inv g(1) have "map_of (store (journal w)) K = Some x" using serial by (auto simp: cas_inv_def)
    moreover have "map_of (store (journal w')) K = Some v"
      using ok c True by (auto simp: mem_putIfMatch_cases split: prod.splits)
    ultimately show ?thesis using g by auto
  next
    case False
    then show ?thesis using ok c by (auto simp: mem_putIfMatch_def split: prod.splits if_splits)
  qed
qed

lemma inv_effect:
  "cas_inv good K w gs \<Longrightarrow> cas_allowed good moves K g c \<Longrightarrow> journal_op c w = Some (r, w') \<Longrightarrow> cas_inv good K w' gs'"
  using effect by (fastforce simp: cas_inv_def)

lemma inv_answer:
  assumes "cas_inv good K w gs" and "cas_allowed good moves K g c" and "answer c w r w'"
  shows "cas_inv good K w' gs'"
  using assms(3)
  by cases (use assms(1,2) inv_effect in \<open>auto simp: cas_inv_def\<close>)

lemma responses: "cas_inv good K w gs \<Longrightarrow> answer c w r w' \<Longrightarrow> cas_resp good K g c r"
  by (auto simp: cas_inv_def cas_resp_def possible_def answer_JGet mem_get_def split: option.splits)

end

sublocale cas_register \<subseteq> cas: protocol "cas_allowed good moves K" "\<lambda>_ _ _. ()" "()" "cas_inv good K" "cas_resp good K" for K
  by unfold_locales (rule inv_answer, assumption+, simp add: cas_inv_def, rule responses)

context cas_register
begin

lemma step:
  assumes "reachable S w c" and "cas_inv good K w (\<lambda>_. ())" and "\<And>p. p \<in> S \<Longrightarrow> cas_wp good moves K p" and "cstep S c c'"
  shows "map_of (store (journal (cworld c'))) K = map_of (store (journal (cworld c))) K
    \<or> (\<exists>v. map_of (store (journal (cworld c'))) K = Some v \<and> good v
         \<and> (\<forall>cur. map_of (store (journal (cworld c))) K = Some cur \<longrightarrow> moves cur v))"
proof (rule cas.reachable_step [OF assms(1,2) _ assms(4)])
  fix gs i o1 r
  assume call: "cas_inv good K (cworld c) gs" "cas_allowed good moves K (gs i) o1" "answer o1 (cworld c) r (cworld c')"
  from call(3) show ?thesis
    by cases (use effect [OF call(1,2)] in auto)
qed (use assms(3) in simp_all)

lemma stored:
  assumes "reachable S w c" and "cas_inv good K w (\<lambda>_. ())" and "\<And>p. p \<in> S \<Longrightarrow> cas_wp good moves K p"
    and "map_of (store (journal (cworld c))) K = Some v"
  shows "good v"
  using cas.reachable_inv [OF assms(1-3)] assms(4) unfolding cas_inv_def by blast

end

section \<open>A record nobody overwrites\<close>

definition keeps :: "key \<Rightarrow> jop \<Rightarrow> bool" where
  "keeps K c \<longleftrightarrow> (case c of JPut k v \<Rightarrow> k \<noteq> K | JPutIfMatch k e v \<Rightarrow> k \<noteq> K | JDeletePrefix p \<Rightarrow> \<not> prefix p K | _ \<Rightarrow> True)"

definition kept_inv :: "key \<Rightarrow> js \<Rightarrow> world \<Rightarrow> (nat \<Rightarrow> unit) \<Rightarrow> bool" where
  "kept_inv K v w gs \<longleftrightarrow> map_of (store (journal w)) K = Some v"

lemma keeps_store:
  "keeps K c \<Longrightarrow> journal_op c w = Some (r, w') \<Longrightarrow> map_of (store (journal w)) K = Some v \<Longrightarrow> map_of (store (journal w')) K = Some v"
  by (cases c) (auto simp: keeps_def mem_put_def mem_putIfAbsent_def mem_putIfMatch_def mem_incrBy_def Let_def domIff
      map_of_deletePrefix mem_deletePrefix_def map_of_filter_key [of "\<lambda>k. \<not> prefix _ k"] split: prod.splits if_splits)

lemma kept_inv_answer:
  assumes "kept_inv K v w gs" and "keeps K c" and "answer c w r w'"
  shows "kept_inv K v w' gs'"
  using assms(3) by cases (use assms(1) keeps_store [OF assms(2)] in \<open>auto simp: kept_inv_def\<close>)

interpretation kept: protocol "\<lambda>_. keeps K" "\<lambda>_ _ _. ()" "()" "kept_inv K v" "\<lambda>_. possible" for K v
  by unfold_locales (fact kept_inv_answer, simp add: kept_inv_def, auto simp: possible_def)

lemma reachable_keeps:
  assumes "reachable S w c" and "map_of (store (journal w)) K = Some v" and "\<And>p. p \<in> S \<Longrightarrow> calls_in (keeps K) p"
  shows "map_of (store (journal (cworld c))) K = Some v"
proof -
  have "kept_inv K v w (\<lambda>_. ())" using assms(2) by (simp add: kept_inv_def)
  moreover have "wp (\<lambda>_. possible) (\<lambda>_. keeps K) (\<lambda>_ _ _. ()) p () (\<lambda>_ _. True)" if "p \<in> S" for p
    by (rule wp_calls_any [OF assms(3) [OF that]]) auto
  ultimately obtain gs where "kept_inv K v (cworld c) gs" using kept.reachable_inv [OF assms(1)] by blast
  then show ?thesis by (simp add: kept_inv_def)
qed

lemma run_keeps:
  "calls_in (keeps K) p \<Longrightarrow> map_of (store (journal w)) K = Some v \<Longrightarrow> map_of (store (journal (snd (run env p w)))) K = Some v"
proof (induction p arbitrary: w)
  case (Op c k)
  obtain r w1 where x: "exec_op env c w = (r, w1)" by fastforce
  have "map_of (store (journal w1)) K = Some v"
    using kept_inv_answer [of K v w undefined c r w1] exec_op_answer [OF x] Op.prems by (simp add: kept_inv_def)
  moreover have "calls_in (keeps K) (k r)" using Op.prems by simp
  ultimately show ?case using Op.IH [OF rangeI] x by auto
qed auto

lemma keeps_simps [simp]:
  "keeps K (JGet k)" "keeps K JNow" "keeps K DateNow" "keeps K (JPutIfAbsent k v)" "keeps K RandomUUID" "keeps K (Ext f a)"
  "keeps K (JReadRun x)" "keeps K (JListKeys k n)" "keeps K (JGetCounters k)" "keeps K (JIncrBy k fs)"
  "keeps K (JPut k v) \<longleftrightarrow> k \<noteq> K" "keeps K (JPutIfMatch k e v) \<longleftrightarrow> k \<noteq> K"
  by (simp_all add: keeps_def)

section \<open>Programs that permit themselves every call in advance\<close>

text \<open>
  Once a program holds the value it read, its calls no longer depend on what the journal answers; then the
  permission of a register is a condition on its calls.
\<close>

lemma cas_allowed_simps [simp]:
  "cas_allowed good moves K g (JGet k)" "cas_allowed good moves K g JNow" "cas_allowed good moves K g DateNow" "cas_allowed good moves K g RandomUUID"
  "cas_allowed good moves K g (Ext f a)" "cas_allowed good moves K g (JListKeys k n)" "cas_allowed good moves K g (JReadRun x)"
  "cas_allowed good moves K g (JPut k v) \<longleftrightarrow> k \<noteq> K" "cas_allowed good moves K g (JPutIfAbsent k v) \<longleftrightarrow> (k = K \<longrightarrow> good v)"
  "cas_allowed good moves K g (JPutIfMatch k cur v) \<longleftrightarrow> (k = K \<longrightarrow> good cur \<and> good v \<and> moves cur v)"
  "cas_allowed good moves K g (JDeletePrefix p) \<longleftrightarrow> \<not> prefix p K"
  by (simp_all add: cas_allowed_def)

lemma cas_wp_calls_in: "calls_in (cas_allowed good moves K ()) p \<Longrightarrow> (\<And>g r. Q g r) \<Longrightarrow> wp R (cas_allowed good moves K) U p g Q"
  by (rule wp_calls_any [where P = "cas_allowed good moves K ()"]) auto

lemma calls_in_iff [simp]:
  "calls_in P (put k v) \<longleftrightarrow> P (JPut k v)" "calls_in P (putIfAbsent k v) \<longleftrightarrow> P (JPutIfAbsent k v)"
  "calls_in P (putIfMatch k e v) \<longleftrightarrow> P (JPutIfMatch k e v)" "calls_in P date_now \<longleftrightarrow> P DateNow" "calls_in P journal_now \<longleftrightarrow> P JNow"
  "calls_in P randomUUID \<longleftrightarrow> P RandomUUID" "calls_in P (listKeys k) \<longleftrightarrow> P (JListKeys k None)"
  by (auto simp: put_def putIfAbsent_def putIfMatch_def date_now_def journal_now_def randomUUID_def listKeys_def callp_def liftp_def split: sum.split)

lemma cas_wp_results:
  assumes "calls_in (cas_allowed good moves K ()) p" and "results p Q"
  shows "wp R (cas_allowed good moves K) U p g (\<lambda>_ r. Q r)"
proof -
  have "cas_allowed good moves K g' = cas_allowed good moves K ()" for g' by (simp add: cas_allowed_def fun_eq_iff)
  with assms show ?thesis by (induction p arbitrary: g) auto
qed

lemma cas_wp_foldp:
  assumes "\<And>s x. cas_wp good moves K (f s x)"
  shows "cas_wp good moves K (foldp f s xs)"
proof (induction xs arbitrary: s)
  case (Cons x xs)
  then show ?case by (auto simp: wp_bindp intro!: wp_mono [OF assms] split: sum.split)
qed simp

lemma wp_get_bind:
  "wp R A U (bindp (get k) f) g Q \<longleftrightarrow>
     A g (JGet k) \<and> (\<forall>r. R g (JGet k) r \<longrightarrow> (case r of Inl e \<Rightarrow> Q (U g (JGet k) r) (Inl e) | Inr x \<Rightarrow> wp R A U (f x) (U g (JGet k) r) Q))"
  by (auto simp: wp_bindp get_def wp_callp)

end
