(* ===== verification/Outcome.thy ===== *)
theory Outcome
  imports CasRegister RunLock
begin

text \<open>
  How a run ended (\<open>packages/durable/src/outcome.ts\<close>, with the table of \<open>errors.ts\<close> it reads) and durable
  cancellation (\<open>cancel.ts\<close>). An error is its class name and message; the flag \<open>atLockAcquisition\<close> of a
  \<open>RunBusyError\<close> is an argument of its own. The code tables are looked up by class name; names that
  \<open>Object.prototype\<close> defines are not names of error classes.
\<close>

section \<open>Definitions\<close>

subsection \<open>Errors and outcomes\<close>

definition CALLER_CONFLICT_CODES :: "(string \<times> string) list" where
  "CALLER_CONFLICT_CODES =
     [(''RunThreadMismatchError'', ''run_thread_mismatch''), (''NotAnAgentRunError'', ''not_an_agent_run''),
      (''RunInputMismatchError'', ''run_input_mismatch''), (''RunActorMismatchError'', ''run_actor_mismatch''),
      (''RunOwnerMismatchError'', ''run_owner_mismatch''), (''ThreadOwnerMismatchError'', ''thread_owner_mismatch''),
      (''RunSweptError'', ''run_swept''), (''BatchPlanMismatchError'', ''batch_plan_mismatch'')]"

definition callerConflictCode :: "err \<Rightarrow> string option" where
  "callerConflictCode e = map_of CALLER_CONFLICT_CODES (err_class e)"

definition FOREIGN_PARTY_DETAIL_FIELDS :: "string list" where
  "FOREIGN_PARTY_DETAIL_FIELDS = [''owner'', ''ownerActor'']"

definition publicConflictDetail :: "js \<Rightarrow> js" where
  "publicConflictDetail detail =
     (case detail of
        JObj kvs \<Rightarrow> JObj (foldl assign_own [] (filter (\<lambda>p. fst p \<notin> set FOREIGN_PARTY_DETAIL_FIELDS) (own_key_order kvs)))
      | v \<Rightarrow> v)"

definition BLOCKED_ERROR_CODES :: "(string \<times> string) list" where
  "BLOCKED_ERROR_CODES =
     [(''SideEffectRetryBlockedError'', ''side_effect_retry_blocked''), (''RetryLimitExceededError'', ''retry_limit_exceeded''),
      (''RunBusyError'', ''run_busy''), (''StepRetryBlockedError'', ''step_retry_blocked'')]"

definition blockedErrorCode :: "err \<Rightarrow> string option" where
  "blockedErrorCode e = map_of BLOCKED_ERROR_CODES (err_class e)"

definition NOT_A_RUN_FAILURE :: "string list" where
  "NOT_A_RUN_FAILURE = map fst CALLER_CONFLICT_CODES @ [''CompensatedRunError'', ''RunCanceledError'']"

datatype RunErrorClass = Failure | Contended | NotAFailure

definition classifyRunError :: "err \<Rightarrow> bool \<Rightarrow> RunErrorClass" where
  "classifyRunError e atLockAcquisition =
     (if err_class e = ''RunBusyError'' then if atLockAcquisition then NotAFailure else Contended
      else if err_class e \<noteq> [] \<and> err_class e \<in> set NOT_A_RUN_FAILURE then NotAFailure else Failure)"

definition isRunFailure :: "err \<Rightarrow> bool \<Rightarrow> bool" where
  "isRunFailure e atLock \<longleftrightarrow> classifyRunError e atLock = Failure"

definition OutcomeRecord :: "string \<Rightarrow> int \<Rightarrow> string option \<Rightarrow> js" where
  "OutcomeRecord status at error =
     JObj ([(''status'', JStr status), (''at'', JNum at)] @ (case error of Some m \<Rightarrow> [(''error'', JStr m)] | None \<Rightarrow> []))"

text \<open>\<open>typeof cur.at === 'number' \<and> cur.at > at\<close>, and the same for equality.\<close>

definition newer_than :: "js \<Rightarrow> int \<Rightarrow> bool" where
  "newer_than v at = (case v of JNum n \<Rightarrow> n > at | _ \<Rightarrow> False)"

primrec outcome_attempts :: "nat \<Rightarrow> caps \<Rightarrow> key \<Rightarrow> string \<Rightarrow> int \<Rightarrow> string option \<Rightarrow> bool \<Rightarrow> bool \<Rightarrow> unit prog" where
  "outcome_attempts 0 J key status at error fillOnly notAfterTerminal = Ret ()"
| "outcome_attempts (Suc n) J key status at error fillOnly notAfterTerminal =
     (let next = OutcomeRecord status at error; again = outcome_attempts n J key status at error fillOnly notAfterTerminal in
      bindp (get key) (\<lambda>cur.
        if cur \<noteq> JUndef then
          if fillOnly then Ret ()
          else bindp (propp ''status'' cur) (\<lambda>st.
            let cat = js_field ''at'' cur in
            if notAfterTerminal \<and> st \<noteq> JStr ''running'' then Ret ()
            else if newer_than cat at then Ret ()
            else if st = JStr ''canceled'' \<and> status = ''running'' then Ret ()
            else if cat = JNum at \<and> status = ''running'' \<and> st \<noteq> JStr ''running'' then Ret ()
            else if has_putIfMatch J then bindp (putIfMatch key cur next) (\<lambda>ok. if ok then Ret () else again)
            else put key next)
        else if has_putIfAbsent J then bindp (putIfAbsent key next) (\<lambda>ok. if ok then Ret () else again)
        else put key next))"

definition recordRunOutcome :: "caps \<Rightarrow> string \<Rightarrow> string \<Rightarrow> int \<Rightarrow> string option \<Rightarrow> bool \<Rightarrow> bool \<Rightarrow> unit prog" where
  "recordRunOutcome J runId status at0 error fillOnly notAfterTerminal =
     catchp (bindp (if has_now J then journal_now else Ret at0) (\<lambda>at.
         outcome_attempts 3 J (key_outcome runId) status at error fillOnly notAfterTerminal))
       (\<lambda>_. Ret ())"

definition runSucceeded :: "caps \<Rightarrow> string \<Rightarrow> int \<Rightarrow> unit prog" where
  "runSucceeded J runId at = recordRunOutcome J runId ''completed'' at None False False"

definition runFailed :: "caps \<Rightarrow> string \<Rightarrow> err \<Rightarrow> int \<Rightarrow> unit prog" where
  "runFailed J runId e at = recordRunOutcome J runId ''failed'' at (Some (err_msg e)) False False"

definition runFailedIfUnrecorded :: "caps \<Rightarrow> string \<Rightarrow> err \<Rightarrow> int \<Rightarrow> unit prog" where
  "runFailedIfUnrecorded J runId e at = recordRunOutcome J runId ''failed'' at (Some (err_msg e)) True False"

definition runStarted :: "caps \<Rightarrow> string \<Rightarrow> int \<Rightarrow> unit prog" where
  "runStarted J runId at = recordRunOutcome J runId ''running'' at None False False"

definition runCanceled :: "caps \<Rightarrow> string \<Rightarrow> int \<Rightarrow> unit prog" where
  "runCanceled J runId at = recordRunOutcome J runId ''canceled'' at None False True"

definition readRunOutcome :: "string \<Rightarrow> js prog" where
  "readRunOutcome runId = catchp (get (key_outcome runId)) (\<lambda>_. Ret JUndef)"

subsection \<open>Cancellation\<close>

definition cancelKey :: "string \<Rightarrow> key" where "cancelKey runId = key_proc runId ''__gnl_canceled''"

definition agentRunCanceled :: "string \<Rightarrow> js prog" where "agentRunCanceled runId = get (cancelKey runId)"

text \<open>\<open>flag?.at ?? record.at\<close>\<close>

definition flag_time :: "js \<Rightarrow> int \<Rightarrow> int" where
  "flag_time flag dflt = (case js_field ''at'' flag of JNum n \<Rightarrow> n | _ \<Rightarrow> dflt)"

definition cancelAgentRun :: "caps \<Rightarrow> string \<Rightarrow> js \<Rightarrow> unit prog" where
  "cancelAgentRun J runId reason =
     bindp date_now (\<lambda>at.
       let record = JObj ((''at'', JNum at) # (if reason \<noteq> JUndef then [(''reason'', reason)] else [])) in
       seqp (if has_putIfAbsent J then seqp (putIfAbsent (cancelKey runId) record) (Ret ())
             else bindp (get (cancelKey runId)) (\<lambda>v. if v = JUndef then put (cancelKey runId) record else Ret ()))
         (bindp (agentRunCanceled runId) (\<lambda>flag. runCanceled J runId (flag_time flag at))))"

definition assertNotCanceled :: "string \<Rightarrow> unit prog" where
  "assertNotCanceled runId =
     bindp (agentRunCanceled runId) (\<lambda>flag. if flag \<noteq> JUndef then Raise (Err ''RunCanceledError'' runId) else Ret ())"

section \<open>The verdict as a register\<close>

definition is_outcome :: "js \<Rightarrow> bool" where
  "is_outcome v \<longleftrightarrow> (\<exists>st at er. v = OutcomeRecord st at er)"

text \<open>The replacements a writer permits itself.\<close>

definition supersedes :: "js \<Rightarrow> js \<Rightarrow> bool" where
  "supersedes cur new \<longleftrightarrow>
     js_int (js_field ''at'' cur) \<le> js_int (js_field ''at'' new)
     \<and> \<not> (js_field ''status'' cur = JStr ''canceled'' \<and> js_field ''status'' new = JStr ''running'')
     \<and> (js_field ''at'' cur = js_field ''at'' new \<and> js_field ''status'' new = JStr ''running'' \<longrightarrow> js_field ''status'' cur = JStr ''running'')"

lemma OutcomeRecord_simps [simp]:
  "js_field ''status'' (OutcomeRecord st at er) = JStr st" "js_field ''at'' (OutcomeRecord st at er) = JNum at"
  "OutcomeRecord st at er \<noteq> JUndef" "OutcomeRecord st at er \<noteq> JNull" "is_outcome (OutcomeRecord st at er)"
  by (auto simp: OutcomeRecord_def is_outcome_def)

lemma OutcomeRecord_serial:
  "stableStringify (OutcomeRecord st at er) = stableStringify (OutcomeRecord st' at' er') \<longleftrightarrow> OutcomeRecord st at er = OutcomeRecord st' at' er'"
  by (subst stableStringify_eq_iff) (auto simp: OutcomeRecord_def PROTO_def split: option.splits)

interpretation verdict: cas_register is_outcome supersedes
  by unfold_locales (auto simp: is_outcome_def OutcomeRecord_serial)

lemma cas_wp_outcome_attempts:
  assumes "has_putIfMatch J" and "has_putIfAbsent J"
  shows "cas_wp is_outcome supersedes K (outcome_attempts n J K st at er fill terminal)"
proof (induction n)
  case (Suc n)
  have moved: "supersedes cur (OutcomeRecord st at er)"
    if "is_outcome cur" "\<not> newer_than (js_field ''at'' cur) at" "js_field ''status'' cur = JStr ''canceled'' \<longrightarrow> st \<noteq> ''running''"
      "js_field ''at'' cur = JNum at \<longrightarrow> st = ''running'' \<longrightarrow> js_field ''status'' cur = JStr ''running''" for cur
    using that by (auto simp: is_outcome_def supersedes_def newer_than_def)
  show ?case
    unfolding outcome_attempts.simps Let_def wp_bindp [of _ _ _ "get K"] get_def wp_callp
    using Suc.IH assms moved
    by (auto simp: cas_allowed_def cas_resp_def wp_bindp wp_propp putIfMatch_def putIfAbsent_def wp_callp split: sum.split)
qed simp

lemma cas_wp_recordRunOutcome:
  assumes "has_putIfMatch J" and "has_putIfAbsent J"
  shows "cas_wp is_outcome supersedes (key_outcome r) (recordRunOutcome J r st at er fill terminal)"
  using cas_wp_outcome_attempts [OF assms, of "key_outcome r"]
  by (auto simp: recordRunOutcome_def wp_catchp wp_bindp journal_now_def wp_callp cas_allowed_def split: sum.split
      intro!: wp_mono [OF cas_wp_outcome_attempts [OF assms]])

section \<open>Properties\<close>

text \<open>
  C27: the verdict on a run only moves forward. Any number of workers record starts, successes, failures and cancellations of
  one run at the same time, in any interleaving, with crashes and failing journal calls: every step leaves the
  recorded verdict alone or replaces it by one that is not older; a start never replaces a cancellation, and at
  equal times never an ending. A slow failure therefore cannot bury a newer success.
\<close>

theorem outcome_only_moves_forward:
  assumes "has_putIfMatch J" and "has_putIfAbsent J" and "map_of (store (journal w)) (key_outcome r) = None"
    and "S \<subseteq> {recordRunOutcome J r st at er fill terminal | st at er fill terminal. True}"
    and "reachable S w c" and "cstep S c c'" and "map_of (store (journal (cworld c))) (key_outcome r) = Some cur"
  shows "\<exists>new. map_of (store (journal (cworld c'))) (key_outcome r) = Some new \<and> is_outcome new \<and> (new = cur \<or> supersedes cur new)"
proof -
  have wps: "cas_wp is_outcome supersedes (key_outcome r) p" if "p \<in> S" for p
    using that assms(4) cas_wp_recordRunOutcome [OF assms(1,2)] by blast
  have start: "cas_inv is_outcome (key_outcome r) w (\<lambda>_. ())" using assms(3) by (simp add: cas_inv_def)
  have "is_outcome cur" by (rule verdict.stored [OF assms(5) start wps assms(7)])
  with verdict.step [OF assms(5) start wps assms(6)] assms(7) show ?thesis by auto
qed

theorem outcome_only_moves_forward_witness:
  "\<exists>c c' new. reachable {recordRunOutcome full_caps ''r'' ''running'' 5 None False False} new_world c
     \<and> cstep {recordRunOutcome full_caps ''r'' ''running'' 5 None False False} c c'
     \<and> map_of (store (journal (cworld c))) (key_outcome ''r'') = Some (OutcomeRecord ''running'' 5 None)
     \<and> map_of (store (journal (cworld c'))) (key_outcome ''r'') = Some new \<and> is_outcome new"
proof -
  let ?S = "{recordRunOutcome full_caps ''r'' ''running'' 5 None False False}"
  obtain w' where w': "run (\<lambda>_ _ _. Inr JUndef) (recordRunOutcome full_caps ''r'' ''running'' 5 None False False) new_world = (Inr (), w')"
    "map_of (store (journal w')) (key_outcome ''r'') = Some (OutcomeRecord ''running'' 5 None)"
    by (simp add: recordRunOutcome_def full_caps_def prog_simps numeral_3_eq_3 Let_def mem_get_def mem_putIfAbsent_def mem_put_def new_world_def empty_journal_def)
  from run_solo [OF singletonI w'(1)] have r: "reachable ?S new_world (solo w' (Ret ()))" by (simp add: finished_def)
  let ?c = "solo w' (Ret ()) :: unit config"
  let ?c' = "?c\<lparr>cworld := (cworld ?c)\<lparr>clock := clock w'\<rparr>\<rparr>"
  have t: "cstep ?S ?c ?c'" by (rule c_tick) (simp add: solo_def)
  have cur: "map_of (store (journal (cworld ?c))) (key_outcome ''r'') = Some (OutcomeRecord ''running'' 5 None)"
    using w'(2) by (simp add: solo_def)
  have "\<exists>new. map_of (store (journal (cworld ?c'))) (key_outcome ''r'') = Some new
      \<and> is_outcome new \<and> (new = OutcomeRecord ''running'' 5 None \<or> supersedes (OutcomeRecord ''running'' 5 None) new)"
  proof (rule outcome_only_moves_forward [where J = full_caps, OF _ _ _ _ r t cur])
    show "?S \<subseteq> {recordRunOutcome full_caps ''r'' st at er fill terminal | st at er fill terminal. True}" by blast
  qed (auto simp: full_caps_def new_world_def empty_journal_def)
  with r t cur show ?thesis by blast
qed

subsection \<open>Cancellation\<close>

lemma outcome_key_not_flag: "key_outcome r \<noteq> cancelKey r" "cancelKey r \<noteq> key_outcome r"
  by (simp_all add: key_outcome_def cancelKey_def key_proc_def)

lemma keeps_outcome: "key_outcome r \<noteq> K \<Longrightarrow> calls_in (keeps K) (recordRunOutcome J r st at er fill terminal)"
proof -
  assume k: "key_outcome r \<noteq> K"
  have "calls_in (keeps K) (outcome_attempts n J (key_outcome r) st at er fill terminal)" for n at
    by (induction n) (use k in \<open>auto simp: Let_def propp_def intro!: calls_in_bindp calls_in_ops_bound\<close>)
  then show ?thesis by (auto simp: recordRunOutcome_def intro!: calls_in_catchp calls_in_bindp calls_in_ops_bound)
qed

lemma keeps_cancel: "has_putIfAbsent J \<Longrightarrow> calls_in (keeps (cancelKey r)) (cancelAgentRun J r reason)"
  by (auto simp: cancelAgentRun_def agentRunCanceled_def runCanceled_def Let_def outcome_key_not_flag
      intro!: calls_in_bindp calls_in_seqp calls_in_ops_bound keeps_outcome)

text \<open>
  A cancellation is final and keeps its first reason. Once the flag of a run is in the journal, any number of
  further cancellations, outcome writes and other programs that do not overwrite or delete the flag leave it exactly
  as the first one wrote it, in every interleaving with crashes and failures, and from every configuration reached the check at
  the entry of the run throws \<open>RunCanceledError\<close>.
\<close>

theorem cancellation_is_final:
  assumes "map_of (store (journal w)) (cancelKey r) = Some v" and "v \<noteq> JUndef"
    and "\<And>p. p \<in> S \<Longrightarrow> (\<exists>J reason. p = cancelAgentRun J r reason \<and> has_putIfAbsent J)
           \<or> (\<exists>J st at er fill terminal. p = recordRunOutcome J r st at er fill terminal) \<or> calls_in (keeps (cancelKey r)) p"
    and "reachable S w c"
  shows "map_of (store (journal (cworld c))) (cancelKey r) = Some v
    \<and> run env (assertNotCanceled r) (cworld c) = (Inl (Err ''RunCanceledError'' r), cworld c)"
proof -
  have "calls_in (keeps (cancelKey r)) p" if "p \<in> S" for p
    using assms(3) [OF that] keeps_cancel keeps_outcome [OF outcome_key_not_flag(1)] by blast
  then have "map_of (store (journal (cworld c))) (cancelKey r) = Some v"
    by (rule reachable_keeps [OF assms(4,1)])
  with assms(2) show ?thesis
    by (simp add: assertNotCanceled_def agentRunCanceled_def prog_simps mem_get_def)
qed

definition canceled_world :: world where
  "canceled_world = new_world\<lparr>journal := mem_put 0 (cancelKey ''r'') (JObj [(''at'', JNum 0), (''reason'', JStr ''stop'')]) empty_journal, clock := 9\<rparr>"

theorem cancellation_is_final_witness:
  "\<exists>c. reachable {cancelAgentRun full_caps ''r'' (JStr ''again'')} canceled_world c \<and> threads c 0 = Some (Ret ())
     \<and> mem_get (cancelKey ''r'') (journal (cworld c)) = JObj [(''at'', JNum 0), (''reason'', JStr ''stop'')]
     \<and> mem_get (key_outcome ''r'') (journal (cworld c)) = OutcomeRecord ''canceled'' 0 None"
proof -
  let ?p = "cancelAgentRun full_caps ''r'' (JStr ''again'')"
  obtain w' where w': "run (\<lambda>_ _ _. Inr JUndef) ?p canceled_world = (Inr (), w')"
    "mem_get (key_outcome ''r'') (journal w') = OutcomeRecord ''canceled'' 0 None"
    by (simp add: cancelAgentRun_def agentRunCanceled_def runCanceled_def recordRunOutcome_def full_caps_def prog_simps numeral_3_eq_3 Let_def
        mem_get_def mem_putIfAbsent_def mem_put_def canceled_world_def new_world_def empty_journal_def flag_time_def outcome_key_not_flag)
  from run_solo [OF singletonI w'(1)] have r: "reachable {?p} canceled_world (solo w' (Ret ()))" by (simp add: finished_def)
  have "map_of (store (journal (cworld (solo w' (Ret ()))))) (cancelKey ''r'') = Some (JObj [(''at'', JNum 0), (''reason'', JStr ''stop'')])"
    by (rule conjunct1 [OF cancellation_is_final [OF _ _ _ r]])
       (auto simp: canceled_world_def mem_put_def empty_journal_def full_caps_def)
  with r w'(2) show ?thesis by (auto simp: solo_def mem_get_def intro!: exI [of _ "solo w' (Ret ())"])
qed

end
