(* ===== verification/CounterShard.thy ===== *)
theory CounterShard
  imports Journal
begin

text \<open>
  Sharded counters (\<open>packages/durable/src/counter-shard.ts\<close>). One logical counter is spread over several rows; the
  row of a run is chosen by a 32-bit FNV-1a hash of its identifier and the reader adds the rows up. The names of counter fields
  are not names of members of \<open>Object.prototype\<close>, and amounts are integers.
\<close>

unbundle bit_operations_syntax

section \<open>Definitions\<close>

text \<open>One turn of the loop: \<open>h ^= code; h = Math.imul(h, 16777619)\<close> on 32 bits.\<close>

definition fnv_step :: "32 word \<Rightarrow> char \<Rightarrow> 32 word" where
  "fnv_step h c = (h XOR of_nat (of_char c)) * 16777619"

definition fnv1a :: "string \<Rightarrow> 32 word" where
  "fnv1a s = foldl fnv_step 2166136261 s"

definition shardSuffix :: "string \<Rightarrow> nat \<Rightarrow> string" where
  "shardSuffix i shards = (if shards \<le> 1 then [] else ''#'' @ show_nat (unat (fnv1a i) mod shards))"

definition shard_keys :: "key \<Rightarrow> nat \<Rightarrow> key list" where
  "shard_keys k shards = k # map (\<lambda>i. k @ ''#'' @ show_nat i) [0..<if shards \<le> 1 then 0 else shards]"

definition sumShards :: "(key \<Rightarrow> (int js_map) option) \<Rightarrow> key \<Rightarrow> nat \<Rightarrow> (int js_map) option" where
  "sumShards get k shards =
     (let parts = map get (shard_keys k shards);
          present = map the (filter (\<lambda>p. p \<noteq> None) parts) in
      if present = [] then None else Some (foldl (foldl add_field) [] present))"

section \<open>Amounts\<close>

definition amount :: "(int js_map) option \<Rightarrow> string \<Rightarrow> int" where
  "amount c f = (case c of None \<Rightarrow> 0 | Some m \<Rightarrow> (case map_of m f of None \<Rightarrow> 0 | Some n \<Rightarrow> n))"

definition field_sum :: "(string \<times> int) list \<Rightarrow> string \<Rightarrow> int" where
  "field_sum flds f = sum_list (map snd (filter (\<lambda>p. fst p = f) flds))"

lemma field_sum_simps [simp]:
  "field_sum [] f = 0" "field_sum (p # ps) f = (if fst p = f then snd p else 0) + field_sum ps f"
  "field_sum (ps @ qs) f = field_sum ps f + field_sum qs f"
  by (simp_all add: field_sum_def)

lemma field_sum_map_of: "js_map_wf m \<Longrightarrow> field_sum m f = amount (Some m) f"
proof (induction m)
  case (Cons p m)
  have "f \<notin> fst ` set m \<Longrightarrow> map_of m f = None" by (simp add: map_of_eq_None_iff)
  with Cons show ?case by (cases p) (auto simp: amount_def js_map_wf_def)
qed (simp add: amount_def)

lemma amount_foldl_add_field: "amount (Some (foldl add_field m flds)) f = amount (Some m) f + field_sum flds f"
  by (induction flds arbitrary: m) (auto simp: add_field_def amount_def)

lemma dom_foldl_add_field: "dom (map_of (foldl add_field m flds)) = dom (map_of m) \<union> fst ` set flds"
  by (induction flds arbitrary: m) (auto simp: add_field_def)

lemma wf_foldl_add_field: "js_map_wf m \<Longrightarrow> js_map_wf (foldl add_field m flds)"
  by (induction flds arbitrary: m) (auto simp: add_field_def)

lemma counters_eqI:
  assumes "dom (map_of m) = dom (map_of m')" and "\<And>f. amount (Some m) f = amount (Some m') f"
  shows "map_of m = map_of m'"
proof
  fix f
  have "map_of m f = None \<longleftrightarrow> map_of m' f = None" using assms(1) by blast
  with assms(2) [of f] show "map_of m f = map_of m' f" by (auto simp: amount_def split: option.splits)
qed

section \<open>Rows and totals\<close>

definition row_fields :: "(int js_map) option \<Rightarrow> string set" where
  "row_fields c = (case c of None \<Rightarrow> {} | Some m \<Rightarrow> dom (map_of m))"

text \<open>What the rows of a sharded counter say together, and that a single counter says the same.\<close>

definition same_totals :: "(int js_map) option list \<Rightarrow> (int js_map) option \<Rightarrow> bool" where
  "same_totals rows c \<longleftrightarrow>
     (\<forall>r \<in> set rows. case r of None \<Rightarrow> True | Some m \<Rightarrow> js_map_wf m)
     \<and> (\<forall>f. sum_list (map (\<lambda>r. amount r f) rows) = amount c f)
     \<and> (\<Union> (row_fields ` set rows) = row_fields c) \<and> (c = None \<longleftrightarrow> set rows \<subseteq> {None})"

lemma distinct_shard_keys: "distinct (shard_keys k n)"
  by (auto simp: shard_keys_def distinct_map inj_on_def)

lemma shardSuffix_in_range: "k @ shardSuffix i n \<in> set (shard_keys k n)"
proof (cases "n \<le> 1")
  case False
  then have "unat (fnv1a i) mod n \<in> set [0..<n]" by simp
  with False show ?thesis by (auto simp: shardSuffix_def shard_keys_def)
qed (simp add: shardSuffix_def shard_keys_def)

lemma sum_list_update_distinct:
  fixes g :: "'a \<Rightarrow> int"
  assumes "distinct ks" and "x \<in> set ks" and "g' x = g x + d" and "\<And>y. y \<noteq> x \<Longrightarrow> g' y = g y"
  shows "sum_list (map g' ks) = sum_list (map g ks) + d"
  using assms(1,2)
proof (induction ks)
  case (Cons y ks)
  have "map g' ks = map g ks" if "x \<notin> set ks" using that by (auto intro!: assms(4))
  then have rest: "sum_list (map g' ks) = sum_list (map g ks)" if "x \<notin> set ks" using that by presburger
  show ?case
  proof (cases "x = y")
    case True
    then show ?thesis using rest assms(3) Cons.prems by simp
  next
    case False
    then show ?thesis using assms(4) [of y] Cons by auto
  qed
qed simp

lemma same_totals_sum:
  assumes "same_totals rows c"
  shows "let present = map the (filter (\<lambda>p. p \<noteq> None) rows) in
    map_option map_of (if present = [] then None else Some (foldl (foldl add_field) [] present)) = map_option map_of c"
proof -
  let ?ps = "map the (filter (\<lambda>p. p \<noteq> None) rows)"
  have flat: "foldl (foldl add_field) acc ps = foldl add_field acc (concat ps)" for acc ps
    by (induction ps arbitrary: acc) auto
  have none: "?ps = [] \<longleftrightarrow> c = None" using assms by (auto simp: same_totals_def filter_empty_conv)
  have wf: "js_map_wf m" if "Some m \<in> set rows" for m using that assms by (force simp: same_totals_def)
  have sums: "field_sum (concat ?ps) f = sum_list (map (\<lambda>r. amount r f) rows)" for f
    using wf by (induction rows) (auto simp: field_sum_map_of amount_def [of None] split: option.splits)
  have doms: "fst ` set (concat ?ps) = \<Union> (row_fields ` set rows)"
  proof -
    have "fst ` set (concat ?ps) = (\<Union>m \<in> set ?ps. dom (map_of m))" by (force simp: dom_map_of_conv_image_fst)
    also have "\<dots> = \<Union> (row_fields ` set rows)" by (force simp: row_fields_def split: option.splits)
    finally show ?thesis .
  qed
  show ?thesis
  proof (cases c)
    case (Some m)
    have "map_of (foldl add_field [] (concat ?ps)) = map_of m"
    proof (rule counters_eqI)
      show "dom (map_of (foldl add_field [] (concat ?ps))) = dom (map_of m)"
        unfolding dom_foldl_add_field doms using assms Some by (simp add: same_totals_def row_fields_def)
      show "amount (Some (foldl add_field [] (concat ?ps))) f = amount (Some m) f" for f
        unfolding amount_foldl_add_field sums using assms Some by (simp add: same_totals_def amount_def)
    qed
    then show ?thesis using none Some by (simp add: flat Let_def)
  qed (use none in \<open>simp add: Let_def\<close>)
qed

lemma getCounters_incrBy:
  "mem_getCounters k' (mem_incrBy k flds j) =
     (if k' = k then Some (foldl add_field (case mem_getCounters k j of None \<Rightarrow> [] | Some c \<Rightarrow> c) flds) else mem_getCounters k' j)"
  by (simp add: mem_getCounters_def mem_incrBy_def Let_def)

lemma same_totals_step:
  assumes "same_totals (map (\<lambda>k. mem_getCounters k j) (shard_keys key n)) (mem_getCounters key u)"
  shows "same_totals (map (\<lambda>k. mem_getCounters k (mem_incrBy (key @ shardSuffix i n) flds j)) (shard_keys key n))
           (mem_getCounters key (mem_incrBy key flds u))"
proof -
  let ?k = "key @ shardSuffix i n" and ?ks = "shard_keys key n"
  let ?j' = "mem_incrBy ?k flds j"
  have m: "?k \<in> set ?ks" by (rule shardSuffix_in_range)
  have am: "amount (mem_getCounters k (mem_incrBy k flds x)) f = amount (mem_getCounters k x) f + field_sum flds f" for k x f
    by (simp add: getCounters_incrBy amount_foldl_add_field) (simp add: amount_def split: option.split)
  have fl: "row_fields (mem_getCounters k (mem_incrBy k flds x)) = row_fields (mem_getCounters k x) \<union> fst ` set flds" for k x
    by (auto simp: getCounters_incrBy row_fields_def dom_foldl_add_field split: option.split)
  have other: "mem_getCounters k ?j' = mem_getCounters k j" if "k \<noteq> ?k" for k using that by (simp add: getCounters_incrBy)
  have sums: "sum_list (map (\<lambda>k. amount (mem_getCounters k ?j') f) ?ks) = sum_list (map (\<lambda>k. amount (mem_getCounters k j) f) ?ks) + field_sum flds f" for f
    by (rule sum_list_update_distinct [OF distinct_shard_keys m]) (fact am, simp add: other)
  have "(\<Union>k \<in> set ?ks. row_fields (mem_getCounters k ?j')) = (\<Union>k \<in> set ?ks. row_fields (mem_getCounters k j)) \<union> fst ` set flds"
  proof -
    have "row_fields (mem_getCounters k ?j') = row_fields (mem_getCounters k j) \<union> (if k = ?k then fst ` set flds else {})" for k
      using fl [of ?k j] other [of k] by auto
    then show ?thesis using m by (simp add: UN_Un_distrib)
  qed
  moreover have "case mem_getCounters k ?j' of None \<Rightarrow> True | Some c \<Rightarrow> js_map_wf c" if "k \<in> set ?ks" for k
    using assms that by (force simp: same_totals_def getCounters_incrBy split: option.splits intro!: wf_foldl_add_field)
  moreover have "mem_getCounters ?k ?j' \<noteq> None" by (simp add: getCounters_incrBy)
  ultimately show ?thesis
    using assms m sums am fl by (auto simp: same_totals_def o_def) (auto simp: getCounters_incrBy)
qed

section \<open>Properties\<close>

definition incr_sharded :: "key \<Rightarrow> nat \<Rightarrow> string \<times> (string \<times> int) list \<Rightarrow> InMemoryJournal \<Rightarrow> InMemoryJournal" where
  "incr_sharded key n e = mem_incrBy (key @ shardSuffix (fst e) n) (snd e)"

lemma same_totals_fold:
  assumes "same_totals (map (\<lambda>k. mem_getCounters k j) (shard_keys key n)) (mem_getCounters key u)"
  shows "same_totals (map (\<lambda>k. mem_getCounters k (fold (incr_sharded key n) incs j)) (shard_keys key n))
           (mem_getCounters key (fold (\<lambda>e. mem_incrBy key (snd e)) incs u))"
  using assms by (induction incs arbitrary: j u) (simp_all add: incr_sharded_def same_totals_step)

text \<open>
  C21: sharding a counter does not change what is read. Starting from a journal where the logical counter has at most its
  unsuffixed row (the state when sharding is switched on), any sequence of increments by any runs, each to the row its run
  identifier hashes to, reads through \<open>sumShards\<close> exactly as the same increments to the single row read without sharding: the same
  fields with the same amounts, or nothing at all. In particular the hashed row is always one the reader looks at, for every shard count.
\<close>

theorem sharded_counter_reads_the_same:
  assumes "\<And>c. mem_getCounters key j = Some c \<Longrightarrow> js_map_wf c"
    and "\<And>i. i < n \<Longrightarrow> mem_getCounters (key @ ''#'' @ show_nat i) j = None"
  shows "map_option map_of (sumShards (\<lambda>k. mem_getCounters k (fold (incr_sharded key n) incs j)) key n)
       = map_option map_of (mem_getCounters key (fold (\<lambda>e. mem_incrBy key (snd e)) incs j))"
proof -
  let ?tl = "map (\<lambda>i. mem_getCounters (key @ ''#'' @ show_nat i) j) [0..<if n \<le> 1 then 0 else n]"
  have tl: "?tl = map (\<lambda>i. None) [0..<if n \<le> 1 then 0 else n]" using assms(2) by simp
  have "map (\<lambda>k. mem_getCounters k j) (shard_keys key n) = mem_getCounters key j # ?tl"
    by (simp add: shard_keys_def o_def)
  then have "same_totals (map (\<lambda>k. mem_getCounters k j) (shard_keys key n)) (mem_getCounters key j)"
    unfolding tl using assms(1)
    by (auto simp: same_totals_def row_fields_def amount_def [of None] o_def split: option.splits)
  from same_totals_sum [OF same_totals_fold [OF this, of incs]] show ?thesis
    unfolding sumShards_def Let_def .
qed

theorem sharded_counter_reads_the_same_witness:
  "map_option map_of (sumShards (\<lambda>k. mem_getCounters k (fold (incr_sharded ''m'' 16) [(''r1'', [(''runs'', 1)]), (''r2'', [(''runs'', 1), (''tokens'', 7)])]
       (mem_incrBy ''m'' [(''runs'', 5)] empty_journal))) ''m'' 16) = Some (map_of [(''runs'', 7), (''tokens'', 7)])"
proof -
  let ?j = "mem_incrBy ''m'' [(''runs'', 5)] empty_journal" and ?incs = "[(''r1'', [(''runs'', 1)]), (''r2'', [(''runs'', 1), (''tokens'', 7)])]"
  have "map_option map_of (sumShards (\<lambda>k. mem_getCounters k (fold (incr_sharded ''m'' 16) ?incs ?j)) ''m'' 16)
      = map_option map_of (mem_getCounters ''m'' (fold (\<lambda>e. mem_incrBy ''m'' (snd e)) ?incs ?j))"
    by (rule sharded_counter_reads_the_same)
       (auto simp: mem_getCounters_def mem_incrBy_def empty_journal_def add_field_def js_map_wf_def)
  also have "\<dots> = Some (map_of [(''runs'', 7), (''tokens'', 7)])"
    by (simp add: mem_getCounters_def mem_incrBy_def empty_journal_def add_field_def)
  finally show ?thesis .
qed

end
