(* ===== verification/Organization.thy ===== *)
theory Organization
  imports Protocol
begin

text \<open>
  Organisations (\<open>packages/durable/src/organization.ts\<close>). \<open>withOrg\<close> wraps a journal into a view that puts
  \<open>org:<id>:\<close> before every key. A program that uses the view makes the calls of \<open>scope_op\<close> on the journal
  below and sees its answers through \<open>unscope\<close>; \<open>withOrg\<close> rewrites a program accordingly. The main theorem says that this is a
  journal of its own: whatever other organisations do in the same store, the workers of one organisation behave
  exactly as on an \<open>InMemoryJournal\<close> that holds their rows only.
\<close>

section \<open>Definitions\<close>

subsection \<open>Keys of the platform\<close>

definition ENGINE_META_KEYS :: "string list" where "ENGINE_META_KEYS = [''schema_version'']"

definition ADOPTABLE_RESERVED_PREFIXES :: "string list" where
  "ADOPTABLE_RESERVED_PREFIXES = [''__usage__'', ''__metrics__'', ''__studio_wf__'', ''__studio_agent__'']"

definition ORG_RECORD_PRE :: string where "ORG_RECORD_PRE = ''__org__:''"

definition isPlatformKey :: "key \<Rightarrow> bool" where
  "isPlatformKey k = (if \<not> prefix ''__'' k then False else \<not> list_ex (\<lambda>p. prefix p k) ADOPTABLE_RESERVED_PREFIXES)"

definition assertOrgRegistered :: "string \<Rightarrow> bool \<Rightarrow> unit prog" where
  "assertOrgRegistered orgId allowUnregistered =
     (if allowUnregistered then Ret ()
      else bindp (get (ORG_RECORD_PRE @ orgId)) (\<lambda>rec.
        if rec \<noteq> JUndef \<and> rec \<noteq> JNull then Ret () else Raise (Err ''Error'' orgId)))"

text \<open>The loop of \<open>assertNoRunsInFlight\<close>: the runs whose outcome record says that they are still executing.\<close>

primrec in_flight :: "string list \<Rightarrow> key list \<Rightarrow> (string list) prog" where
  "in_flight found [] = Ret found"
| "in_flight found (k # ks) =
     (if \<not> suffix '':outcome'' k then in_flight found ks
      else bindp (get k) (\<lambda>rec.
        in_flight (if js_field ''status'' rec = JStr ''running'' then found @ [take (length k - 8) k] else found) ks))"

definition assertNoRunsInFlight :: "caps \<Rightarrow> bool \<Rightarrow> unit prog" where
  "assertNoRunsInFlight J allowInFlight =
     (if allowInFlight \<or> \<not> has_listKeys J then Ret ()
      else bindp (listKeys []) (\<lambda>ks. bindp (in_flight [] ks) (\<lambda>found.
        if found = [] then Ret () else Raise (Err ''Error'' (concat found)))))"

subsection \<open>The view of an organisation\<close>

definition orgPrefix :: "string \<Rightarrow> err + string" where
  "orgPrefix orgId =
     (if orgId = [] \<or> CHR '':'' \<in> set orgId then Inl (Err ''Error'' orgId) else Inr (''org:'' @ orgId @ '':''))"

text \<open>The prefix of a view, refused for a journal that is a view already (\<open>already\<close>: the organisation it is scoped to).\<close>

definition org_scope :: "string option \<Rightarrow> string \<Rightarrow> err + string" where
  "org_scope already orgId = (case already of Some a \<Rightarrow> Inl (Err ''Error'' a) | None \<Rightarrow> orgPrefix orgId)"

fun scope_op :: "string \<Rightarrow> jop \<Rightarrow> jop" where
  "scope_op P (JGet k) = JGet (P @ k)"
| "scope_op P (JPut k v) = JPut (P @ k) v"
| "scope_op P (JPutIfAbsent k v) = JPutIfAbsent (P @ k) v"
| "scope_op P (JPutIfMatch k e v) = JPutIfMatch (P @ k) e v"
| "scope_op P (JListKeys p lim) = JListKeys (P @ p) lim"
| "scope_op P (JDeletePrefix p) = JDeletePrefix (P @ p)"
| "scope_op P (JIncrBy k fs) = JIncrBy (P @ k) fs"
| "scope_op P (JGetCounters k) = JGetCounters (P @ k)"
| "scope_op P (JReadRun r) = JReadRun (P @ r)"
| "scope_op P (JReadRunStats r) = JReadRunStats (P @ r)"
| "scope_op P c = c"

definition slice_if :: "string \<Rightarrow> js \<Rightarrow> js" where
  "slice_if P v = (case v of JStr s \<Rightarrow> JStr (if prefix P s then drop (length P) s else s) | _ \<Rightarrow> v)"

text \<open>\<open>{...e, key: ..., runId: ...}\<close>\<close>

definition unscope_entry :: "string \<Rightarrow> js \<Rightarrow> js" where
  "unscope_entry P e =
     (case e of
        JObj kvs \<Rightarrow> JObj (js_set ''runId'' (slice_if P (js_field ''runId'' e)) (js_set ''key'' (slice_if P (js_field ''key'' e)) kvs))
      | _ \<Rightarrow> e)"

definition unscope :: "string \<Rightarrow> jop \<Rightarrow> js \<Rightarrow> js" where
  "unscope P c r =
     (case (c, r) of
        (JListKeys _ _, JArr ks) \<Rightarrow> JArr (map (\<lambda>k. JStr (drop (length P) (js_string k))) ks)
      | (JReadRun _, JArr es) \<Rightarrow> JArr (map (unscope_entry P) es)
      | _ \<Rightarrow> r)"

primrec withOrg :: "string \<Rightarrow> 'a prog \<Rightarrow> 'a prog" where
  "withOrg P (Ret x) = Ret x"
| "withOrg P (Raise e) = Raise e"
| "withOrg P (Op c k) = Op (scope_op P c) (\<lambda>r. withOrg P (k (map_sum id (unscope P c) r)))"

text \<open>The methods of the view that programs of the other theories do not call.\<close>

definition org_batch :: "string \<Rightarrow> JournalBatch \<Rightarrow> JournalBatch" where
  "org_batch P b =
     \<lparr>batch_claim = map_option (map_prod (append P) id) (batch_claim b),
      batch_incrs = map (map_prod (append P) id) (batch_incrs b),
      batch_puts = map (map_prod (append P) id) (batch_puts b)\<rparr>"

definition org_applyBatch :: "string \<Rightarrow> int \<Rightarrow> JournalBatch \<Rightarrow> InMemoryJournal \<Rightarrow> bool \<times> InMemoryJournal" where
  "org_applyBatch P t b j = mem_applyBatch t (org_batch P b) j"

definition org_getMany :: "string \<Rightarrow> key list \<Rightarrow> InMemoryJournal \<Rightarrow> js list" where
  "org_getMany P ks j = mem_getMany (map (append P) ks) j"

definition org_listStaleRuns :: "string \<Rightarrow> int \<Rightarrow> bool \<Rightarrow> InMemoryJournal \<Rightarrow> string list" where
  "org_listStaleRuns P cutoffTs includeSuspended j =
     map (drop (length P)) (filter (prefix P) (mem_listStaleRuns cutoffTs includeSuspended j))"

definition org_summary :: "string \<Rightarrow> RunSummary \<Rightarrow> RunSummary" where
  "org_summary P r = r\<lparr>sum_runId := drop (length P) (sum_runId r)\<rparr>"

definition org_listRuns :: "string \<Rightarrow> InMemoryJournal \<Rightarrow> RunSummary list" where
  "org_listRuns P j = map (org_summary P) (filter (\<lambda>r. prefix P (sum_runId r)) (mem_listRuns j))"

text \<open>
  \<open>listRunsPaged\<close>: the inner loop over the items of an underlying page (\<open>consumed\<close> counts them) stops when the
  limit is reached; the outer loop walks the pages. The fuel bounds the number of underlying pages.
\<close>

fun org_page_items :: "string \<Rightarrow> nat \<Rightarrow> nat \<Rightarrow> nat \<Rightarrow> RunSummary list \<Rightarrow> RunSummary list \<Rightarrow> RunSummary list \<times> string option" where
  "org_page_items P limit pos consumed items [] = (items, None)"
| "org_page_items P limit pos consumed items (r # rs) =
     (if prefix P (sum_runId r) then
        if limit \<le> Suc (length items) then (items @ [org_summary P r], Some (show_nat (pos + Suc consumed)))
        else org_page_items P limit pos (Suc consumed) (items @ [org_summary P r]) rs
      else org_page_items P limit pos (Suc consumed) items rs)"

fun org_pages :: "nat \<Rightarrow> string \<Rightarrow> RunListQuery \<Rightarrow> nat \<Rightarrow> nat \<Rightarrow> RunSummary list \<Rightarrow> InMemoryJournal \<Rightarrow> RunPage option" where
  "org_pages 0 P q limit pos items j = None"
| "org_pages (Suc fuel) P q limit pos items j =
     (let page = mem_listRunsPaged (q\<lparr>q_cursor := Some (show_nat pos), q_limit := Some (max limit 50)\<rparr>) j;
          got = org_page_items P limit pos 0 items (page_items page) in
      if limit \<le> length (fst got) then Some \<lparr>page_items = fst got, page_nextCursor = snd got\<rparr>
      else if page_nextCursor page = None then Some \<lparr>page_items = fst got, page_nextCursor = None\<rparr>
      else org_pages fuel P q limit (pos + length (page_items page)) (fst got) j)"

definition org_listRunsPaged :: "string \<Rightarrow> RunListQuery \<Rightarrow> InMemoryJournal \<Rightarrow> RunPage option" where
  "org_listRunsPaged P q j =
     org_pages (Suc (length (mem_listRuns j))) P q (case q_limit q of None \<Rightarrow> 50 | Some n \<Rightarrow> n) (cursor_start (q_cursor q)) [] j"

subsection \<open>Range scans\<close>

text \<open>
  \<open>prefixUpperBound\<close> on the code points of a prefix; \<open>0xD800\<close> to \<open>0xDFFF\<close> are the surrogates, \<open>0x10FFFF\<close> the last code point.
\<close>

definition prefixUpperBound :: "nat list \<Rightarrow> (nat list) option" where
  "prefixUpperBound pre =
     (if pre = [] then None
      else let n = last pre + 1; nxt = (if 0xD800 \<le> n \<and> n \<le> 0xDFFF then 0xE000 else n) in
        if nxt > 0x10FFFF then Some (pre @ [0x10FFFF]) else Some (butlast pre @ [nxt]))"

section \<open>The journal an organisation sees\<close>

definition strip :: "string \<Rightarrow> (string \<times> 'v) list \<Rightarrow> (string \<times> 'v) list" where
  "strip P m = map (\<lambda>p. (drop (length P) (fst p), snd p)) (filter (\<lambda>p. prefix P (fst p)) m)"

definition view :: "string \<Rightarrow> InMemoryJournal \<Rightarrow> InMemoryJournal" where
  "view P j = \<lparr>store = strip P (store j), times = strip P (times j), counters = strip P (counters j)\<rparr>"

lemma strip_simps [simp]:
  "strip P [] = []"
  "strip P (p # m) = (if prefix P (fst p) then (drop (length P) (fst p), snd p) # strip P m else strip P m)"
  by (simp_all add: strip_def)

lemma view_sel [simp]: "store (view P j) = strip P (store j)" "times (view P j) = strip P (times j)" "counters (view P j) = strip P (counters j)"
  by (simp_all add: view_def)

lemma view_upd [simp]:
  "view P (j\<lparr>store := s\<rparr>) = (view P j)\<lparr>store := strip P s\<rparr>"
  "view P (j\<lparr>times := t\<rparr>) = (view P j)\<lparr>times := strip P t\<rparr>"
  "view P (j\<lparr>counters := c\<rparr>) = (view P j)\<lparr>counters := strip P c\<rparr>"
  by (simp_all add: view_def)

lemma map_of_strip [simp]: "map_of (strip P m) k = map_of m (P @ k)"
proof (induction m)
  case (Cons p m)
  show ?case
  proof (cases "prefix P (fst p)")
    case True
    then obtain r where "fst p = P @ r" by (auto simp: prefix_def)
    with Cons show ?thesis by (cases p) auto
  next
    case False
    then have "fst p \<noteq> P @ k" by auto
    with False Cons show ?thesis by (cases p) auto
  qed
qed simp

lemma strip_js_set [simp]: "strip P (js_set (P @ k) v m) = js_set k v (strip P m)"
proof (induction "P @ k" v m rule: js_set.induct)
  case (2 v k' v' m)
  then show ?case by (auto simp: prefix_def)
qed simp

lemma strip_js_set_other [simp]: "\<not> prefix P k \<Longrightarrow> strip P (js_set k v m) = strip P m"
  by (induction k v m rule: js_set.induct) auto

lemma js_keys_strip: "js_keys (strip P m) = map (drop (length P)) (filter (prefix P) (js_keys m))"
  by (induction m) auto

lemma strip_filter_key:
  "strip P (filter (\<lambda>p. Q (fst p)) m) = filter (\<lambda>p. Q (P @ fst p)) (strip P m)"
  by (induction m) (auto simp: prefix_def)

lemma mem_get_view [simp]: "mem_get k (view P j) = mem_get (P @ k) j"
  by (simp add: mem_get_def)

lemma view_put [simp]: "view P (mem_put t (P @ k) v j) = mem_put t k v (view P j)"
  by (simp add: mem_put_def touch_def domIff)

lemma view_putIfAbsent: "mem_putIfAbsent t k v (view P j) = map_prod id (view P) (mem_putIfAbsent t (P @ k) v j)"
  by (simp add: mem_putIfAbsent_def domIff)

lemma view_putIfMatch: "mem_putIfMatch k e v (view P j) = map_prod id (view P) (mem_putIfMatch (P @ k) e v j)"
  by (simp add: mem_putIfMatch_def domIff)

lemma view_incrBy [simp]: "view P (mem_incrBy (P @ k) f j) = mem_incrBy k f (view P j)"
  by (simp add: mem_incrBy_def Let_def)

lemma view_getCounters [simp]: "mem_getCounters k (view P j) = mem_getCounters (P @ k) j"
  by (simp add: mem_getCounters_def)

lemma filter_strip_keys:
  "filter (prefix p) (map (drop (length P)) (filter (prefix P) ks)) = map (drop (length P)) (filter (prefix (P @ p)) ks)"
  by (induction ks) (auto simp: prefix_def)

lemma view_deletePrefix: "mem_deletePrefix p (view P j) = map_prod id (view P) (mem_deletePrefix (P @ p) j)"
  by (simp add: mem_deletePrefix_def js_keys_strip filter_strip_keys domIff prefix_append_same
      strip_filter_key [of P "\<lambda>k. \<not> prefix (P @ p) k"]
      strip_filter_key [of P "\<lambda>k. prefix (P @ p) k \<longrightarrow> map_of (store j) k = None"])

lemma mem_keys_view: "mem_keys (view P j) = map (drop (length P)) (filter (prefix P) (mem_keys j))"
proof -
  have "filter (\<lambda>k. k \<notin> dom (map_of (strip P (store j)))) (map (drop (length P)) (filter (prefix P) ks))
      = map (drop (length P)) (filter (prefix P) (filter (\<lambda>k. k \<notin> dom (map_of (store j))) ks))" for ks
    by (induction ks) (auto simp: prefix_def domIff)
  then show ?thesis by (simp add: mem_keys_def js_keys_strip)
qed

lemma list_keys_loop_view:
  assumes "\<And>k. k \<in> set out \<Longrightarrow> prefix P k"
  shows "list_keys_loop n p (map (drop (length P)) out) (map (drop (length P)) (filter (prefix P) ks))
       = map (drop (length P)) (list_keys_loop n (P @ p) out ks)"
  using assms
proof (induction n "P @ p" out ks rule: list_keys_loop.induct)
  case (2 limit out k ks)
  have mem: "drop (length P) k \<in> drop (length P) ` set out \<longleftrightarrow> k \<in> set out" if "prefix P k"
    using that 2(2) by (auto simp: prefix_def image_iff) (metis append_eq_conv_conj prefixE)
  have noloop: "list_keys_loop limit p xs ys = xs" if "limit \<le> length xs" for xs ys using that by (cases ys) auto
  show ?case
  proof (cases "prefix P k")
    case True
    then obtain r where k: "k = P @ r" by (auto simp: prefix_def)
    let ?out = "if prefix (P @ p) k \<and> k \<notin> set out then out @ [k] else out"
    have "map (drop (length P)) ?out = (if prefix p r \<and> r \<notin> set (map (drop (length P)) out) then map (drop (length P)) out @ [r] else map (drop (length P)) out)"
      using mem True by (simp add: k prefix_append_same)
    moreover have "\<And>x. x \<in> set ?out \<Longrightarrow> prefix P x" using 2(2) True by (auto split: if_splits)
    ultimately show ?thesis using 2(1) True by (auto simp: k)
  next
    case False
    then have "\<not> prefix (P @ p) k" by (auto dest: append_prefixD)
    then show ?thesis using 2 False noloop by auto
  qed
qed simp

lemma view_listKeys: "mem_listKeys p lim (view P j) = map (drop (length P)) (mem_listKeys (P @ p) lim j)"
proof (cases lim)
  case None
  then show ?thesis by (simp add: mem_listKeys_def mem_keys_view filter_strip_keys)
next
  case (Some n)
  then show ?thesis
    using list_keys_loop_view [of "[]" P n p "js_keys (store j) @ js_keys (counters j)"]
    by (simp add: mem_listKeys_def js_keys_strip)
qed

lemma is_line_terminator_append: "list_ex is_line_terminator (a @ b) \<longleftrightarrow> list_ex is_line_terminator a \<or> list_ex is_line_terminator b"
  by simp

lemma parse_scoped:
  assumes "\<not> list_ex is_line_terminator P"
  shows "parseJournalKey (P @ k) = Some (P @ r, kd) \<longleftrightarrow> parseJournalKey k = Some (r, kd)"
proof
  assume "parseJournalKey k = Some (r, kd)"
  then show "parseJournalKey (P @ k) = Some (P @ r, kd)"
    using assms last_kind_append [of k r kd P] by (auto simp: parseJournalKey_def split: if_splits)
next
  assume a: "parseJournalKey (P @ k) = Some (P @ r, kd)"
  then have lk: "last_kind (P @ k) = Some (P @ r, kd)" and nl: "\<not> list_ex is_line_terminator k"
    by (auto simp: parseJournalKey_def split: if_splits)
  from last_kind_split [OF lk] obtain m x where k: "k = r @ CHR '':'' # m @ CHR '':'' # x" and m: "m \<in> {''model'', ''tool''}" "x \<noteq> []"
    by auto
  have "last_kind (CHR '':'' # m @ CHR '':'' # x) \<noteq> None"
    using m by (auto simp: kind_at_def split: option.splits)
  then obtain h kd' where "last_kind k = Some (r @ h, kd')"
    using last_kind_append [of "CHR '':'' # m @ CHR '':'' # x" _ _ r] unfolding k by (auto simp del: last_kind.simps)
  with last_kind_append [OF this, of P] lk nl show "parseJournalKey k = Some (r, kd)"
    by (simp add: parseJournalKey_def)
qed

lemma run_entry_iff: "run_entry r kv \<longleftrightarrow> (\<exists>kd. parseJournalKey (fst kv) = Some (r, kd))"
  by (auto simp: run_entry_def split: option.splits)

lemma strip_run_entries:
  assumes "\<not> list_ex is_line_terminator P"
  shows "filter (run_entry r) (strip P m) = strip P (filter (run_entry (P @ r)) m)"
proof -
  have "run_entry (P @ r) (P @ k, v) \<longleftrightarrow> run_entry r (k, v)" for k and v :: js
    using parse_scoped [OF assms, of k r] by (simp add: run_entry_iff)
  then show ?thesis by (induction m) (auto simp: prefix_def)
qed

lemma run_entry_key: "run_entry (P @ r) kv \<Longrightarrow> prefix P (fst kv)"
  using last_kind_split [of "fst kv"] by (fastforce simp: run_entry_def parseJournalKey_def split: option.splits if_splits)

lemma view_run_entries:
  assumes "\<not> list_ex is_line_terminator P"
  shows "filter (run_entry r) (store (view P j)) = map (\<lambda>p. (drop (length P) (fst p), snd p)) (filter (run_entry (P @ r)) (store j))"
proof -
  have "filter (\<lambda>p. prefix P (fst p)) (filter (run_entry (P @ r)) m) = filter (run_entry (P @ r)) m" for m :: "(string \<times> js) list"
    using run_entry_key by (induction m) auto
  then show ?thesis unfolding view_sel strip_run_entries [OF assms] by (simp add: strip_def)
qed

lemma kind_of_scoped_key:
  assumes "\<not> list_ex is_line_terminator P" and "run_entry (P @ r) (P @ k, v)"
  shows "kind_of_key (P @ k) = kind_of_key k"
proof -
  obtain kd where p: "parseJournalKey (P @ k) = Some (P @ r, kd)" using assms(2) by (auto simp: run_entry_iff)
  then have "parseJournalKey k = Some (r, kd)" by (simp only: parse_scoped [OF assms(1)])
  with p show ?thesis by (simp add: kind_of_key_def)
qed

lemma enumerate_map: "enumerate n (map f xs) = map (\<lambda>(i, x). (i, f x)) (enumerate n xs)"
  by (induction xs arbitrary: n) auto

lemma view_readRun:
  assumes "\<not> list_ex is_line_terminator P"
  shows "map js_entry (mem_readRun r (view P j)) = map (unscope_entry P \<circ> js_entry) (mem_readRun (P @ r) j)"
proof -
  let ?L = "filter (run_entry (P @ r)) (store j)"
  let ?e = "\<lambda>rn ts (i, kv). \<lparr>entry_key = fst kv, entry_runId = rn, entry_kind = kind_of_key (fst kv), entry_value = snd kv, entry_seq = i, entry_ts = ts (fst kv)\<rparr>"
  have one: "js_entry (?e r (map_of (times (view P j))) (i, (drop (length P) (fst kv), snd kv))) = unscope_entry P (js_entry (?e (P @ r) (map_of (times j)) (i, kv)))"
    if "kv \<in> set ?L" for i kv
  proof -
    have re: "run_entry (P @ r) kv" using that by simp
    then obtain k where k: "fst kv = P @ k" using run_entry_key [OF re] by (auto simp: prefix_def)
    have "kind_of_key (P @ k) = kind_of_key k" using kind_of_scoped_key [OF assms, of r k "snd kv"] re k by (metis prod.collapse)
    then show ?thesis by (simp add: k js_entry_def unscope_entry_def slice_if_def)
  qed
  have "map js_entry (mem_readRun r (view P j)) = map (\<lambda>(i, kv). js_entry (?e r (map_of (times (view P j))) (i, (drop (length P) (fst kv), snd kv)))) (enumerate 0 ?L)"
    unfolding mem_readRun_def view_run_entries [OF assms] enumerate_map by (simp add: case_prod_beta o_def)
  also have "\<dots> = map (\<lambda>(i, kv). unscope_entry P (js_entry (?e (P @ r) (map_of (times j)) (i, kv)))) (enumerate 0 ?L)"
  proof (rule map_cong [OF refl])
    fix x assume "x \<in> set (enumerate 0 ?L)"
    then obtain i kv where x: "x = (i, kv)" and "kv \<in> set ?L" by (metis enumerate_eq_zip in_set_zipE surj_pair)
    with one [of kv i] show "(case x of (i, kv) \<Rightarrow> js_entry (?e r (map_of (times (view P j))) (i, (drop (length P) (fst kv), snd kv))))
        = (case x of (i, kv) \<Rightarrow> unscope_entry P (js_entry (?e (P @ r) (map_of (times j)) (i, kv))))" by simp
  qed
  finally show ?thesis by (simp add: mem_readRun_def case_prod_beta o_def)
qed

lemma stats_loop_map: "stats_loop a (map (\<lambda>p. (f (fst p), snd p)) m) = stats_loop a m"
  by (induction a m rule: stats_loop.induct) (auto split: option.splits)

lemma view_readRunStats: "\<not> list_ex is_line_terminator P \<Longrightarrow> mem_readRunStats r (view P j) = mem_readRunStats (P @ r) j"
  unfolding mem_readRunStats_def by (subst view_run_entries) (auto simp: stats_loop_map)

text \<open>One call through the view is one call on the journal the organisation sees.\<close>

lemma view_journal_op:
  assumes "\<not> list_ex is_line_terminator P"
  shows "journal_op c (w\<lparr>journal := view P (journal w)\<rparr>)
       = map_option (\<lambda>(r, w'). (unscope P c r, w'\<lparr>journal := view P (journal w')\<rparr>)) (journal_op (scope_op P c) w)"
  by (cases c)
     (simp_all add: unscope_def view_putIfAbsent view_putIfMatch view_deletePrefix view_listKeys view_readRun [OF assms]
       view_readRunStats [OF assms] split: prod.splits option.splits)

section \<open>Isolation\<close>

text \<open>The calls that do not touch the rows under \<open>P\<close>; reading them is allowed.\<close>

definition outside :: "string \<Rightarrow> jop \<Rightarrow> bool" where
  "outside P c \<longleftrightarrow>
     (case c of
        JPut k v \<Rightarrow> \<not> prefix P k | JPutIfAbsent k v \<Rightarrow> \<not> prefix P k | JPutIfMatch k e v \<Rightarrow> \<not> prefix P k
      | JIncrBy k fs \<Rightarrow> \<not> prefix P k | JDeletePrefix p \<Rightarrow> \<not> prefix P p \<and> \<not> prefix p P
      | _ \<Rightarrow> True)"

lemma strip_filter_outside:
  "\<not> prefix P p \<Longrightarrow> \<not> prefix p P \<Longrightarrow> strip P (filter (\<lambda>x. \<not> prefix p (fst x)) m) = strip P m"
  "\<not> prefix P p \<Longrightarrow> \<not> prefix p P \<Longrightarrow> strip P (filter (\<lambda>x. prefix p (fst x) \<longrightarrow> B x) m) = strip P m"
  by (induction m) (auto dest: prefix_same_cases)

lemma view_same: "view P j\<lparr>store := strip P (store j), times := strip P (times j), counters := strip P (counters j)\<rparr> = view P j"
  by (simp add: view_def)

lemma view_outside:
  assumes "outside P c" and "journal_op c w = Some (r, w')"
  shows "view P (journal w') = view P (journal w)" and "clock w' = clock w" and "used_uuids w' = used_uuids w"
proof -
  show "clock w' = clock w" "used_uuids w' = used_uuids w" using assms(2) by (cases c; auto split: prod.splits)+
  show "view P (journal w') = view P (journal w)"
    using assms
    by (cases c)
       (auto simp: outside_def mem_put_def touch_def mem_putIfAbsent_def mem_putIfMatch_def mem_incrBy_def Let_def
         mem_deletePrefix_def strip_filter_outside view_same split: prod.splits if_splits)
qed

lemma orgPrefix_Inr: "orgPrefix a = Inr P \<longleftrightarrow> a \<noteq> [] \<and> CHR '':'' \<notin> set a \<and> P = ''org:'' @ a @ '':''"
  by (auto simp: orgPrefix_def)

lemma orgs_apart:
  assumes "orgPrefix a = Inr P" and "orgPrefix b = Inr Q" and "a \<noteq> b"
  shows "\<not> prefix P (Q @ k)" "\<not> prefix (Q @ k) P"
proof -
  have ab: "CHR '':'' \<notin> set a" "CHR '':'' \<notin> set b" "P = ''org:'' @ a @ '':''" "Q = ''org:'' @ b @ '':''"
    using assms(1,2) by (auto simp: orgPrefix_Inr)
  have eq: "x = y" if "x @ '':'' @ s = y @ '':'' @ t" "CHR '':'' \<notin> set x" "CHR '':'' \<notin> set y" for x y s t
    using split_at_delim [of "CHR '':''" x y s t] that by simp
  show "\<not> prefix P (Q @ k)" using eq [of a _ b k] ab assms(3) by (auto simp: prefix_def)
  show "\<not> prefix (Q @ k) P" using eq [of b _ a "[]"] ab assms(3) by (auto simp: prefix_def)
qed

lemma scope_op_outside:
  "orgPrefix a = Inr P \<Longrightarrow> orgPrefix b = Inr Q \<Longrightarrow> a \<noteq> b \<Longrightarrow> outside P (scope_op Q c)"
  by (cases c) (auto simp: outside_def orgs_apart)

lemma withOrg_outside:
  assumes "orgPrefix a = Inr P" and "orgPrefix b = Inr Q" and "a \<noteq> b"
  shows "calls_in (outside P) (withOrg Q p)"
  by (induction p) (auto simp: scope_op_outside [OF assms])

lemma scope_op_simps [simp]:
  "scope_op P c = DateNow \<longleftrightarrow> c = DateNow" "scope_op P c = RandomUUID \<longleftrightarrow> c = RandomUUID" "scope_op P c = Ext f a \<longleftrightarrow> c = Ext f a"
  by (cases c; simp)+

text \<open>
  The relation between the shared store \<open>c\<close> and the organisation's own execution \<open>c'\<close>; \<open>f\<close> numbers its workers.
\<close>

definition org_sim :: "string \<Rightarrow> 'a config \<Rightarrow> 'a config \<Rightarrow> (nat \<Rightarrow> nat option) \<Rightarrow> bool" where
  "org_sim P c c' f \<longleftrightarrow>
     journal (cworld c') = view P (journal (cworld c)) \<and> clock (cworld c') = clock (cworld c)
     \<and> set (used_uuids (cworld c')) \<subseteq> set (used_uuids (cworld c))
     \<and> inj_on f (dom f) \<and> (\<forall>i n. f i = Some n \<longrightarrow> i < spawned c \<and> n < spawned c' \<and> threads c i = map_option (withOrg P) (threads c' n))
     \<and> (\<forall>i q. f i = None \<longrightarrow> threads c i = Some q \<longrightarrow> calls_in (outside P) q)"

lemma journal_op_cong:
  assumes "journal w2 = journal w" and "clock w2 = clock w"
  shows "journal_op c w2 = map_option (\<lambda>(r, w'). (r, w2\<lparr>journal := journal w'\<rparr>)) (journal_op c w)"
  using assms by (cases c) (auto split: prod.splits)

lemma unscope_simps [simp]: "unscope P DateNow r = r" "unscope P RandomUUID r = r" "unscope P (Ext f a) r = r"
  by (simp_all add: unscope_def)

definition same_view :: "string \<Rightarrow> world \<Rightarrow> world \<Rightarrow> bool" where
  "same_view P w v \<longleftrightarrow> journal v = view P (journal w) \<and> clock v = clock w \<and> set (used_uuids v) \<subseteq> set (used_uuids w)"

lemma scoped_journal_op:
  assumes "\<not> list_ex is_line_terminator P" and "same_view P w v" and "journal_op (scope_op P c) w = Some (r, w')"
  shows "journal_op c v = Some (unscope P c r, v\<lparr>journal := view P (journal w')\<rparr>)" and "same_view P w' (v\<lparr>journal := view P (journal w')\<rparr>)"
proof -
  have "journal_op c (w\<lparr>journal := view P (journal w)\<rparr>) = Some (unscope P c r, w'\<lparr>journal := view P (journal w')\<rparr>)"
    using assms(3) by (simp add: view_journal_op [OF assms(1)])
  with journal_op_cong [of v "w\<lparr>journal := view P (journal w)\<rparr>" c] assms(2)
  show "journal_op c v = Some (unscope P c r, v\<lparr>journal := view P (journal w')\<rparr>)" by (simp add: same_view_def)
  have "clock w' = clock w" "used_uuids w' = used_uuids w" using assms(3) by (cases c; auto split: prod.splits)+
  then show "same_view P w' (v\<lparr>journal := view P (journal w')\<rparr>)" using assms(2) by (simp add: same_view_def)
qed

lemma scoped_answer:
  assumes nl: "\<not> list_ex is_line_terminator P" and v: "same_view P w v" and ans: "answer (scope_op P c) w r w'"
  shows "\<exists>v'. answer c v (map_sum id (unscope P c) r) v' \<and> same_view P w' v'"
  using ans
proof cases
  case (ans_ok r0)
  with scoped_journal_op [OF nl v this(2)] show ?thesis by (auto intro: answer.ans_ok)
next
  case (ans_down r0 w0 e)
  with scoped_journal_op(1) [OF nl v ans_down(3)] v show ?thesis by (auto intro: answer.ans_down)
next
  case (ans_lost r0 e)
  with scoped_journal_op [OF nl v this(2)] show ?thesis by (auto intro: answer.ans_lost)
next
  case ans_date
  then show ?thesis using v answer.ans_date [of v] by (auto simp: same_view_def)
next
  case (ans_uuid u)
  then have "answer RandomUUID v (Inr (JStr u)) (v\<lparr>used_uuids := u # used_uuids v\<rparr>)"
    using v by (intro answer.ans_uuid) (auto simp: same_view_def)
  with ans_uuid v show ?thesis by (auto simp: same_view_def intro!: exI [of _ "v\<lparr>used_uuids := u # used_uuids v\<rparr>"])
next
  case (ans_ext f a)
  then show ?thesis using v by (cases r) (auto simp: same_view_def intro!: exI answer.ans_ext)
qed

lemma outside_answer:
  assumes v: "same_view P w v" and "outside P c" and "answer c w r w'"
  shows "same_view P w' v"
  using assms(3,2) by cases (use v in \<open>auto simp: same_view_def view_outside\<close>)

lemma org_sim_iff:
  "org_sim P c c' f \<longleftrightarrow> same_view P (cworld c) (cworld c') \<and> inj_on f (dom f)
     \<and> (\<forall>i n. f i = Some n \<longrightarrow> i < spawned c \<and> n < spawned c' \<and> threads c i = map_option (withOrg P) (threads c' n))
     \<and> (\<forall>i q. f i = None \<longrightarrow> threads c i = Some q \<longrightarrow> calls_in (outside P) q)"
  by (auto simp: org_sim_def same_view_def)

lemma org_sim_other:
  assumes "org_sim P c c' f" and "f i = Some n" and "j \<noteq> i" and "f j = Some m"
  shows "m \<noteq> n"
  using assms by (auto simp: org_sim_iff inj_on_def dom_def)

lemma withOrg_Op: "withOrg P p = Op c k \<Longrightarrow> \<exists>c0 k0. p = Op c0 k0 \<and> c = scope_op P c0 \<and> (\<forall>r. k r = withOrg P (k0 (map_sum id (unscope P c0) r)))"
  by (cases p) auto

lemma org_sim_step:
  assumes nl: "\<not> list_ex is_line_terminator P" and T: "\<And>q. q \<in> T \<Longrightarrow> calls_in (outside P) q"
    and sim: "org_sim P c c' f" and "reachable S w c'" and "cstep (withOrg P ` S \<union> T) c d"
  shows "\<exists>d' f'. reachable S w d' \<and> org_sim P d d' f'"
  using assms(5)
proof cases
  case (c_op i o1 k r w')
  show ?thesis
  proof (cases "f i")
    case None
    then have "calls_in (outside P) (Op o1 k)" using sim c_op(2) unfolding org_sim_iff by blast
    then have "outside P o1" "calls_in (outside P) (k r)" by auto
    with sim c_op None have "org_sim P d c' f" by (auto simp: org_sim_iff intro: outside_answer)
    with assms(4) show ?thesis by blast
  next
    case (Some n)
    then have "map_option (withOrg P) (threads c' n) = Some (Op o1 k)" using sim c_op by (simp add: org_sim_iff)
    then obtain c0 k0 where p: "threads c' n = Some (Op c0 k0)" "o1 = scope_op P c0" "\<And>r. k r = withOrg P (k0 (map_sum id (unscope P c0) r))"
      using withOrg_Op by fastforce
    obtain v' where v': "answer c0 (cworld c') (map_sum id (unscope P c0) r) v'" "same_view P w' v'"
      using scoped_answer [OF nl] sim c_op p(2) unfolding org_sim_iff by blast
    let ?d = "c'\<lparr>cworld := v', threads := (threads c')(n \<mapsto> k0 (map_sum id (unscope P c0) r))\<rparr>"
    have "reachable S w ?d" using assms(4) by (rule r_step) (rule gstep.c_op [where ans = answer, OF p(1) v'(1)])
    moreover have "org_sim P d ?d f"
      using sim c_op v'(2) p(3) Some org_sim_other [OF sim Some] by (auto simp: org_sim_iff)
    ultimately show ?thesis by blast
  qed
next
  case (c_spawn p)
  show ?thesis
  proof (cases "p \<in> withOrg P ` S")
    case True
    then obtain p0 where p0: "p0 \<in> S" "p = withOrg P p0" by auto
    let ?d = "c'\<lparr>threads := (threads c')(spawned c' \<mapsto> p0), spawned := Suc (spawned c')\<rparr>"
    let ?f = "f(spawned c \<mapsto> spawned c')"
    have new: "f (spawned c) = None" "\<And>i. f i \<noteq> Some (spawned c')" using sim by (force simp: org_sim_iff)+
    then have "inj_on ?f (dom ?f)" using sim by (auto simp: org_sim_iff inj_on_def dom_def)
    moreover have "f i = Some n \<Longrightarrow> i < Suc (spawned c) \<and> n < Suc (spawned c') \<and> i \<noteq> spawned c \<and> n \<noteq> spawned c'" for i n
      using sim by (fastforce simp: org_sim_iff)
    ultimately have "org_sim P d ?d ?f" using sim c_spawn p0 by (auto simp: org_sim_iff)
    moreover have "reachable S w ?d" using assms(4) p0(1) by (blast intro: r_step gstep.c_spawn)
    ultimately show ?thesis by blast
  next
    case False
    then have "calls_in (outside P) p" using c_spawn T by blast
    moreover have "f i = Some n \<Longrightarrow> i \<noteq> spawned c \<and> i < Suc (spawned c)" for i n using sim by (fastforce simp: org_sim_iff)
    ultimately have "org_sim P d c' f" using sim c_spawn by (auto simp: org_sim_iff)
    with assms(4) show ?thesis by blast
  qed
next
  case (c_crash i)
  show ?thesis
  proof (cases "f i")
    case None
    then have "org_sim P d c' f" using sim c_crash by (auto simp: org_sim_iff)
    with assms(4) show ?thesis by blast
  next
    case (Some n)
    let ?d = "c'\<lparr>threads := (threads c')(n := None)\<rparr>"
    have "org_sim P d ?d f" using sim c_crash Some org_sim_other [OF sim Some] by (auto simp: org_sim_iff)
    moreover have "reachable S w ?d" using assms(4) by (blast intro: r_step gstep.c_crash)
    ultimately show ?thesis by blast
  qed
next
  case (c_time w')
  then obtain t where t: "clock (cworld c) \<le> t" "w' = (cworld c)\<lparr>clock := t\<rparr>" by (auto simp: passes_def)
  let ?d = "c'\<lparr>cworld := (cworld c')\<lparr>clock := t\<rparr>\<rparr>"
  have "org_sim P d ?d f" using sim c_time t by (auto simp: org_sim_iff same_view_def)
  moreover have "reachable S w ?d" using sim t by (intro r_step [OF assms(4)] c_tick) (simp add: org_sim_iff same_view_def)
  ultimately show ?thesis by blast
qed

section \<open>Paging\<close>

definition own_runs :: "string \<Rightarrow> RunSummary list \<Rightarrow> RunSummary list" where
  "own_runs P rs = map (org_summary P) (filter (\<lambda>r. prefix P (sum_runId r)) rs)"

lemma own_runs_simps [simp]:
  "own_runs P [] = []" "own_runs P (xs @ ys) = own_runs P xs @ own_runs P ys"
  "own_runs P (r # rs) = (if prefix P (sum_runId r) then org_summary P r # own_runs P rs else own_runs P rs)"
  by (simp_all add: own_runs_def)

text \<open>The walk over the pages is one walk over the whole listing.\<close>

lemma org_page_items_append:
  "org_page_items P limit pos n items (xs @ ys) =
     (case org_page_items P limit pos n items xs of
        (it, Some cur) \<Rightarrow> (it, Some cur) | (it, None) \<Rightarrow> org_page_items P limit pos (n + length xs) it ys)"
  by (induction P limit pos n items xs rule: org_page_items.induct) auto

lemma org_page_items_shift: "org_page_items P limit (pos + d) n items xs = org_page_items P limit pos (d + n) items xs"
  by (induction P limit "pos + d" n items xs rule: org_page_items.induct) (auto simp: add.assoc)

lemma org_page_items_full:
  "length items < limit \<Longrightarrow> limit \<le> length (fst (org_page_items P limit pos n items xs)) \<longleftrightarrow> snd (org_page_items P limit pos n items xs) \<noteq> None"
  by (induction P limit pos n items xs rule: org_page_items.induct) auto

lemma org_page_items_result:
  assumes "length items < limit" and "org_page_items P limit pos n items xs = (it, cur)"
  shows "it = items @ take (limit - length items) (own_runs P xs)
    \<and> (cur = None \<longleftrightarrow> length (own_runs P xs) < limit - length items)
    \<and> (\<forall>s. cur = Some s \<longrightarrow> (\<exists>m. s = show_nat (pos + n + m) \<and> own_runs P (drop m xs) = drop (limit - length items) (own_runs P xs)))"
  using assms
proof (induction P limit pos n items xs rule: org_page_items.induct)
  case (2 P limit pos n items r rs)
  show ?case
  proof (cases "prefix P (sum_runId r)")
    case True
    show ?thesis
    proof (cases "limit \<le> Suc (length items)")
      case full: True
      then have "limit = Suc (length items)" using 2(3) by simp
      then show ?thesis using 2(4) True by (auto intro!: exI [of _ 1])
    next
      case False
      then obtain d where d: "limit - length items = Suc d" "limit - Suc (length items) = d" by (metis Suc_diff_Suc not_le less_imp_le_nat Suc_le_eq)
      have "org_page_items P limit pos (Suc n) (items @ [org_summary P r]) rs = (it, cur)" using 2(4) True False by simp
      from 2(1) [OF True False _ this] False d True show ?thesis by (fastforce intro: exI [of _ "Suc _"])
    qed
  next
    case False
    then have "org_page_items P limit pos (Suc n) items rs = (it, cur)" using 2(4) by simp
    from 2(2) [OF False 2(3) this] False show ?thesis by (fastforce intro: exI [of _ "Suc _"])
  qed
qed auto

lemma mem_listRunsPaged_at:
  "mem_listRunsPaged (q\<lparr>q_cursor := Some (show_nat pos), q_limit := Some n\<rparr>) j =
     (let all = filter (matches_query q) (mem_listRuns j) in
      \<lparr>page_items = take n (drop pos all), page_nextCursor = if pos + n < length all then Some (show_nat (pos + n)) else None\<rparr>)"
proof -
  have "cursor_start (Some (show_nat pos)) = pos" by (simp add: cursor_start_def list_all_iff show_nat_digits)
  moreover have "matches_query (q\<lparr>q_cursor := Some (show_nat pos), q_limit := Some n\<rparr>) = matches_query q"
    by (simp add: fun_eq_iff matches_query_def)
  ultimately show ?thesis by (simp add: mem_listRunsPaged_def Let_def)
qed

lemma org_pages_whole:
  assumes "length items < limit" and "length all - pos < fuel" and "all = filter (matches_query q) (mem_listRuns j)"
  shows "org_pages fuel P q limit pos items j =
    (case org_page_items P limit pos 0 items (drop pos all) of (it, cur) \<Rightarrow> Some \<lparr>page_items = it, page_nextCursor = cur\<rparr>)"
  using assms(1,2)
proof (induction fuel arbitrary: pos items)
  case (Suc fuel)
  let ?n = "max limit 50"
  let ?xs = "take ?n (drop pos all)"
  obtain it cur where got: "org_page_items P limit pos 0 items ?xs = (it, cur)" by fastforce
  have whole: "org_page_items P limit pos 0 items (drop pos all) =
      (case cur of Some s \<Rightarrow> (it, Some s) | None \<Rightarrow> org_page_items P limit pos (length ?xs) it (drop (pos + ?n) all))"
  proof -
    have "?xs @ drop (pos + ?n) all = drop pos all" by (metis append_take_drop_id drop_drop add.commute)
    with org_page_items_append [of P limit pos 0 items ?xs "drop (pos + ?n) all"] got show ?thesis by (simp split: option.split)
  qed
  have full: "limit \<le> length it \<longleftrightarrow> cur \<noteq> None" using org_page_items_full [OF Suc.prems(1), of P pos 0 ?xs] got by simp
  have page: "org_pages (Suc fuel) P q limit pos items j =
      (if limit \<le> length it then Some \<lparr>page_items = it, page_nextCursor = cur\<rparr>
       else if pos + ?n < length all then org_pages fuel P q limit (pos + length ?xs) it j
       else Some \<lparr>page_items = it, page_nextCursor = None\<rparr>)"
    unfolding org_pages.simps mem_listRunsPaged_at assms(3) [symmetric] Let_def RunPage.select_convs got fst_conv snd_conv by simp
  show ?case
  proof (cases cur)
    case None
    then have it: "length it < limit" using full by simp
    show ?thesis
    proof (cases "pos + ?n < length all")
      case True
      then have len: "length ?xs = ?n" by simp
      have "length all - (pos + ?n) < fuel" using Suc.prems(2) True by simp
      from Suc.IH [OF it this] show ?thesis
        unfolding page whole len using None True it org_page_items_shift [of P limit pos ?n 0] by simp
    next
      case False
      then show ?thesis unfolding page whole using None it by simp
    qed
  next
    case (Some s)
    then show ?thesis unfolding page whole using full by simp
  qed
qed simp

section \<open>Properties\<close>

text \<open>
  C16: organisations are isolated. Let any workers run programs through the view of organisation \<open>a\<close> in a store
  shared with workers of other organisations and with programs that do not write under \<open>a\<close>'s prefix, in any interleaving, with
  crashes and failing calls. Then what \<open>a\<close>'s workers do is an interleaved execution of the same programs, without the prefix, on a
  journal of their own: at every moment its content is the part of the store under the prefix with the prefix cut off,
  and each of \<open>a\<close>'s workers is where the corresponding worker of that execution is.
\<close>

theorem organisations_are_isolated:
  assumes "orgPrefix a = Inr P" and "\<not> list_ex is_line_terminator a"
    and "\<And>q. q \<in> T \<Longrightarrow> (\<exists>b Q p. b \<noteq> a \<and> orgPrefix b = Inr Q \<and> q = withOrg Q p) \<or> calls_in (outside P) q"
    and "reachable (withOrg P ` S \<union> T) w c"
  shows "\<exists>c' f. reachable S (w\<lparr>journal := view P (journal w)\<rparr>) c'
    \<and> journal (cworld c') = view P (journal (cworld c)) \<and> clock (cworld c') = clock (cworld c) \<and> inj_on f (dom f)
    \<and> (\<forall>i q. threads c i = Some q \<longrightarrow> (\<exists>n p. f i = Some n \<and> threads c' n = Some p \<and> q = withOrg P p) \<or> calls_in (outside P) q)"
proof -
  let ?w = "w\<lparr>journal := view P (journal w)\<rparr>"
  have nl: "\<not> list_ex is_line_terminator P" using assms(1,2) by (auto simp: orgPrefix_Inr is_line_terminator_def)
  have T: "calls_in (outside P) q" if "q \<in> T" for q using assms(3) [OF that] withOrg_outside [OF assms(1)] by metis
  from assms(4) have "\<exists>c' f. reachable S ?w c' \<and> org_sim P c c' f"
  proof induction
    case r_init
    have "org_sim P (init_config w) (init_config ?w) (\<lambda>_. None)" by (simp add: org_sim_def init_config_def)
    then show ?case using greach.r_init [of answer passes S ?w] by blast
  next
    case (r_step c d)
    then show ?case using org_sim_step [OF nl T] by metis
  qed
  then obtain c' f where "reachable S ?w c'" and sim: "org_sim P c c' f" by blast
  moreover have "(\<exists>n p. f i = Some n \<and> threads c' n = Some p \<and> q = withOrg P p) \<or> calls_in (outside P) q" if "threads c i = Some q" for i q
    using sim that by (cases "f i") (auto simp: org_sim_def)
  ultimately show ?thesis using sim unfolding org_sim_def by blast
qed

definition two_orgs :: "unit prog list" where
  "two_orgs = [withOrg ''org:a:'' (put ''k'' (JNum 1)), withOrg ''org:b:'' (put ''k'' (JNum 2))]"

lemma two_orgs_run:
  "interleave (\<lambda>_ _ _. Inr JUndef) two_orgs [0, 1] new_world =
     ([Ret (), Ret ()], new_world\<lparr>journal := mem_put 0 ''org:b:k'' (JNum 2) (mem_put 0 ''org:a:k'' (JNum 1) empty_journal)\<rparr>)"
  by (simp add: two_orgs_def put_def callp_def new_world_def)

theorem organisations_are_isolated_witness:
  "\<exists>c'. reachable {put ''k'' (JNum 1)} new_world c' \<and> journal (cworld c') = mem_put 0 ''k'' (JNum 1) empty_journal"
proof -
  let ?S = "{put ''k'' (JNum 1)}" and ?T = "{withOrg ''org:b:'' (put ''k'' (JNum 2))}"
  let ?w' = "new_world\<lparr>journal := mem_put 0 ''org:b:k'' (JNum 2) (mem_put 0 ''org:a:k'' (JNum 1) empty_journal)\<rparr>"
  let ?c = "together [Ret (), Ret ()] ?w'"
  have r: "reachable (withOrg ''org:a:'' ` ?S \<union> ?T) new_world ?c"
    by (rule interleave_reachable [OF together_reachable two_orgs_run]) (simp add: two_orgs_def)
  have a: "orgPrefix ''a'' = Inr ''org:a:''" and b: "orgPrefix ''b'' = Inr ''org:b:''" and nl: "\<not> list_ex is_line_terminator ''a''"
    by (simp_all add: orgPrefix_def is_line_terminator_def)
  have T: "(\<exists>b Q p. b \<noteq> ''a'' \<and> orgPrefix b = Inr Q \<and> q = withOrg Q p) \<or> calls_in (outside ''org:a:'') q" if "q \<in> ?T" for q
    using that b by (intro disjI1 exI [of _ "''b''"] exI [of _ "''org:b:''"] exI [of _ "put ''k'' (JNum 2)"]) simp
  from organisations_are_isolated [OF a nl T r] obtain c'
    where "reachable ?S (new_world\<lparr>journal := view ''org:a:'' (journal new_world)\<rparr>) c'"
      "journal (cworld c') = view ''org:a:'' (journal (cworld ?c))" by blast
  moreover have "new_world\<lparr>journal := view ''org:a:'' (journal new_world)\<rparr> = new_world" by (simp add: new_world_def empty_journal_def view_def)
  moreover have "view ''org:a:'' (journal (cworld ?c)) = mem_put 0 ''k'' (JNum 1) empty_journal"
    by (simp add: together_def view_def mem_put_def empty_journal_def touch_def)
  ultimately show ?thesis by auto
qed

text \<open>
  C18: an organisation's pages are complete. With a positive limit \<open>listRunsPaged\<close> of the view returns, however the runs of other
  organisations are mixed in: the first \<open>limit\<close> of its own matching runs from the cursor on, in order. There is a
  next cursor exactly when the page is full, and reading from it continues with the remaining own runs. So no run is
  skipped and none is returned twice.
\<close>

theorem org_paging_complete:
  assumes "0 < limit" and "q_limit q = Some limit" and "all = filter (matches_query q) (mem_listRuns j)"
  shows "\<exists>page. org_listRunsPaged P q j = Some page
    \<and> page_items page = take limit (own_runs P (drop (cursor_start (q_cursor q)) all))
    \<and> (page_nextCursor page = None \<longleftrightarrow> length (own_runs P (drop (cursor_start (q_cursor q)) all)) < limit)
    \<and> (\<forall>s. page_nextCursor page = Some s \<longrightarrow>
         own_runs P (drop (cursor_start (Some s)) all) = drop limit (own_runs P (drop (cursor_start (q_cursor q)) all)))"
proof -
  let ?pos = "cursor_start (q_cursor q)"
  obtain it cur where got: "org_page_items P limit ?pos 0 [] (drop ?pos all) = (it, cur)" by fastforce
  have "length all - ?pos < Suc (length (mem_listRuns j))" using assms(3) length_filter_le [of "matches_query q" "mem_listRuns j"] by (simp add: less_Suc_eq_le le_trans [OF diff_le_self])
  then have "org_listRunsPaged P q j = Some \<lparr>page_items = it, page_nextCursor = cur\<rparr>"
    unfolding org_listRunsPaged_def using org_pages_whole [of "[]" limit all ?pos _ q j P] assms got by (simp del: org_pages.simps)
  moreover have "it = take limit (own_runs P (drop ?pos all)) \<and> (cur = None \<longleftrightarrow> length (own_runs P (drop ?pos all)) < limit)
    \<and> (\<forall>s. cur = Some s \<longrightarrow> (\<exists>m. s = show_nat (?pos + m) \<and> own_runs P (drop m (drop ?pos all)) = drop limit (own_runs P (drop ?pos all))))"
    using org_page_items_result [OF _ got] assms(1) by simp
  ultimately show ?thesis by (fastforce simp: add.commute)
qed

theorem org_paging_complete_witness:
  "\<exists>page. org_listRunsPaged ''org:a:'' (no_query\<lparr>q_limit := Some 1\<rparr>) (mem_put 0 ''org:a:r:model:0'' JNull empty_journal) = Some page"
  using org_paging_complete [of 1 "no_query\<lparr>q_limit := Some 1\<rparr>" _ "mem_put 0 ''org:a:r:model:0'' JNull empty_journal" "''org:a:''"] by auto

subsection \<open>The bound of a range scan\<close>

text \<open>Databases compare keys by the bytes of their UTF-8 encoding.\<close>

definition utf8 :: "nat \<Rightarrow> nat list" where
  "utf8 c =
     (if c < 0x80 then [c]
      else if c < 0x800 then [0xC0 + c div 64, 0x80 + c mod 64]
      else if c < 0x10000 then [0xE0 + c div 4096, 0x80 + c div 64 mod 64, 0x80 + c mod 64]
      else [0xF0 + c div 262144, 0x80 + c div 4096 mod 64, 0x80 + c div 64 mod 64, 0x80 + c mod 64])"

definition utf8_text :: "nat list \<Rightarrow> nat list" where
  "utf8_text s = concat (map utf8 s)"

definition scalar :: "nat \<Rightarrow> bool" where
  "scalar c \<longleftrightarrow> c \<le> 0x10FFFF \<and> \<not> (0xD800 \<le> c \<and> c \<le> 0xDFFF)"

text \<open>Smaller at the first place where two lists differ, and neither a prefix of the other.\<close>

fun below :: "nat list \<Rightarrow> nat list \<Rightarrow> bool" where
  "below (a # r) (b # s) \<longleftrightarrow> a < b \<or> a = b \<and> below r s"
| "below _ _ \<longleftrightarrow> False"

lemma below_less: "below xs ys \<Longrightarrow> xs < ys"
  by (induction xs ys rule: below.induct) auto

lemma below_append: "below xs ys \<Longrightarrow> below (xs @ p) (ys @ q)"
  by (induction xs ys rule: below.induct) auto

lemma below_common [simp]: "below (u @ xs) (u @ ys) \<longleftrightarrow> below xs ys"
  by (induction u) auto

lemma utf8_below:
  assumes "x < y" and "y \<le> 0x10FFFF"
  shows "below (utf8 x) (utf8 y)"
proof -
  have digit: "a div 64 < b div 64 \<or> a div 64 = b div 64 \<and> a mod 64 < b mod 64" if "a < b" for a b :: nat
    using that div_mult_mod_eq [of a 64] div_mult_mod_eq [of b 64] div_le_mono [of a b 64] by linarith
  have e: "z div 4096 = z div 64 div 64" "z div 262144 = z div 64 div 64 div 64" for z :: nat
    by (simp_all add: div_mult2_eq [symmetric])
  define x1 x2 x3 y1 y2 y3 where "x1 = x div 64" "x2 = x1 div 64" "x3 = x2 div 64" "y1 = y div 64" "y2 = y1 div 64" "y3 = y2 div 64"
  note D = digit [OF assms(1)] digit [of x1 y1] digit [of x2 y2]
  have b: "x < 0x80 \<or> x1 \<ge> 2" "x < 0x800 \<longleftrightarrow> x1 < 32" "x < 0x10000 \<longleftrightarrow> x2 < 16" "y < 0x800 \<longleftrightarrow> y1 < 32" "y < 0x10000 \<longleftrightarrow> y2 < 16" "y3 \<le> 4"
    using assms(2) unfolding x1_x2_x3_y1_y2_y3_def by (auto simp: div_less_iff_less_mult div_mult2_eq [symmetric] less_eq_div_iff_mult_less_eq)
  have eq: "x1 = y1 \<Longrightarrow> x2 = y2" "x2 = y2 \<Longrightarrow> x3 = y3" unfolding x1_x2_x3_y1_y2_y3_def by simp_all
  show ?thesis
    using D b eq assms(1) unfolding utf8_def e x1_x2_x3_y1_y2_y3_def [symmetric] by auto
qed

lemma utf8_text_simps [simp]: "utf8_text [] = []" "utf8_text (c # s) = utf8 c @ utf8_text s" "utf8_text (s @ t) = utf8_text s @ utf8_text t"
  by (simp_all add: utf8_text_def)

lemma utf8_nonempty [simp]: "utf8 c \<noteq> []"
  by (simp add: utf8_def)

lemma utf8_text_below: "x < y \<Longrightarrow> y \<le> 0x10FFFF \<Longrightarrow> below (utf8_text (u @ x # r)) (utf8_text (u @ y # s))"
  by (simp add: below_append utf8_below)

lemma le_append: "(xs :: nat list) \<le> xs @ ys"
  by (induction xs) auto

lemma less_append: "ys \<noteq> [] \<Longrightarrow> (xs :: nat list) < xs @ ys"
  by (induction xs) (auto simp: neq_Nil_conv)

text \<open>Two strings of which neither is a prefix of the other part ways somewhere.\<close>

lemma diverge: "\<not> prefix p k \<Longrightarrow> \<not> prefix k p \<Longrightarrow> \<exists>u x y r s. k = u @ x # r \<and> p = u @ y # s \<and> x \<noteq> y"
  using parallel_decomp [of k p] by (auto simp: parallel_def)

lemma not_prefix_out_of_range:
  assumes "list_all scalar p" and "list_all scalar k" and p: "p = q @ [l]" and "l < n" and "scalar n"
    and "\<And>x. scalar x \<Longrightarrow> l < x \<Longrightarrow> n \<le> x" and npk: "\<not> prefix p k"
  shows "utf8_text k < utf8_text p \<or> utf8_text (q @ [n]) \<le> utf8_text k"
proof (cases "prefix k p")
  case True
  then obtain r where "p = k @ r" "r \<noteq> []" using npk by (auto simp: prefix_def)
  then show ?thesis by (cases r) (auto intro!: less_append)
next
  case False
  then obtain u x y r s where k: "k = u @ x # r" and p': "p = u @ y # s" and xy: "x \<noteq> y" using diverge [OF npk] by blast
  have le: "x \<le> 0x10FFFF" "y \<le> 0x10FFFF" using assms(1,2) k p' by (auto simp: scalar_def)
  show ?thesis
  proof (cases "x < y")
    case True
    then show ?thesis using below_less [OF utf8_text_below [OF True le(2)]] k p' by blast
  next
    case gt: False
    then have yx: "y < x" using xy by simp
    show ?thesis
    proof (cases s rule: rev_cases)
      case Nil
      then have e: "u = q" "y = l" using p p' by auto
      then have "n \<le> x" using assms(6) yx assms(2) k by simp
      then show ?thesis
      proof (cases "n = x")
        case True
        then show ?thesis using le_append [of "utf8_text (q @ [n])" "utf8_text r"] k e by simp
      next
        case False
        then show ?thesis using below_less [OF utf8_text_below [of n x q "[]" r]] \<open>n \<le> x\<close> le(1) k e by auto
      qed
    next
      case (snoc s' z)
      then have "q @ [n] = u @ y # (s' @ [n])" using p p' by simp
      then show ?thesis using below_less [OF utf8_text_below [OF yx le(1)]] k by (metis less_imp_le)
    qed
  qed
qed

text \<open>
  C19: the bound of a prefix scan is exact. For a prefix that does not end in the highest code point, a key starts with the prefix
  if and only if its UTF-8 bytes lie between those of the prefix (inclusive) and those of
  \<open>prefixUpperBound\<close> (exclusive), in byte order; astral characters and the gap of the surrogates included. So a range scan or a range delete by an
  organisation's prefix touches all rows of the organisation and no other.
\<close>

theorem prefix_bound_exact:
  assumes "list_all scalar p" and "list_all scalar k" and "p \<noteq> []" and "last p < 0x10FFFF"
  shows "\<exists>b. prefixUpperBound p = Some b \<and> list_all scalar b
    \<and> (prefix p k \<longleftrightarrow> utf8_text p \<le> utf8_text k \<and> utf8_text k < utf8_text b)"
proof -
  obtain q l where p: "p = q @ [l]" using assms(3) by (cases p rule: rev_cases) auto
  define n where "n = (if 0xD800 \<le> l + 1 \<and> l + 1 \<le> 0xDFFF then 0xE000 else l + 1)"
  have n: "l < n" "scalar n" "\<And>x. scalar x \<Longrightarrow> l < x \<Longrightarrow> n \<le> x"
    using assms(1,4) unfolding p by (auto simp: n_def scalar_def)
  have b: "prefixUpperBound p = Some (q @ [n])" using assms(4) n(2) unfolding p prefixUpperBound_def Let_def by (auto simp: n_def scalar_def)
  have sc: "scalar x \<Longrightarrow> x \<le> 0x10FFFF" for x by (simp add: scalar_def)
  have "utf8_text p \<le> utf8_text k \<and> utf8_text k < utf8_text (q @ [n])" if pk: "prefix p k"
  proof -
    obtain r where k: "k = p @ r" using pk by (auto simp: prefix_def)
    have "utf8_text (q @ l # r) < utf8_text (q @ [n])" by (intro below_less utf8_text_below n(1) sc n(2))
    then show ?thesis using le_append [of "utf8_text p" "utf8_text r"] by (simp add: k p)
  qed
  moreover have "utf8_text k < utf8_text p \<or> utf8_text (q @ [n]) \<le> utf8_text k" if npk: "\<not> prefix p k"
    by (rule not_prefix_out_of_range [OF assms(1,2) p n npk])
  ultimately have "prefix p k \<longleftrightarrow> utf8_text p \<le> utf8_text k \<and> utf8_text k < utf8_text (q @ [n])" by (meson leD)
  moreover have "list_all scalar (q @ [n])" using assms(1) n(2) unfolding p by simp
  ultimately show ?thesis using b by blast
qed

theorem prefix_bound_exact_witness:
  "\<exists>b. prefixUpperBound [111, 0xD7FF] = Some b \<and> (prefix [111, 0xD7FF] [111, 0xD7FF, 0x1F600] \<longleftrightarrow>
     utf8_text [111, 0xD7FF] \<le> utf8_text [111, 0xD7FF, 0x1F600] \<and> utf8_text [111, 0xD7FF, 0x1F600] < utf8_text b)"
  using prefix_bound_exact [of "[111, 0xD7FF]" "[111, 0xD7FF, 0x1F600]"] by (auto simp: scalar_def)

end
