(* ===== verification/RunIdGate.thy ===== *)
theory RunIdGate
  imports Organization
begin

text \<open>
  The gate every run identifier passes (\<open>assertRunIdSafe\<close> in \<open>packages/durable/src/run.ts\<close>). An identifier becomes the prefix of the keys of
  its run; the gate keeps those keys from being read as records of another run.
\<close>

section \<open>Definitions\<close>

definition RESERVED_KEY_ROOTS :: "string list" where
  "RESERVED_KEY_ROOTS = [''mem'', ''xthr'', ''xid'', ''xrun'', ''om'', ''thread'', ''lesson'', ''sugg'', ''suggstats'', ''org'', ''res'']"

definition onlyEmbeddedDerivedHashes :: "string \<Rightarrow> bool" where
  "onlyEmbeddedDerivedHashes runId = list_all (\<lambda>seg. \<not> (CHR ''#'' \<in> set seg \<and> \<not> isDerivedRunId seg)) (split_on CHR '':'' runId)"

text \<open>\<open>/[\u0000-\u001f\u007f\s]/\<close> on code units below 256.\<close>

definition is_space_or_control :: "char \<Rightarrow> bool" where
  "is_space_or_control c \<longleftrightarrow> (let n = of_char c :: nat in n \<le> 32 \<or> n = 127 \<or> n = 160)"

text \<open>\<open>/:(?:model|tool)(?::|$)/\<close>\<close>

definition has_record_segment :: "string \<Rightarrow> bool" where
  "has_record_segment s =
     list_ex (\<lambda>t. prefix '':model:'' t \<or> t = '':model'' \<or> prefix '':tool:'' t \<or> t = '':tool'') (suffixes s)"

definition assertRunIdSafe :: "string \<Rightarrow> err + unit" where
  "assertRunIdSafe runId =
     (let refuse = Inl (Err ''Error'' runId); root = hd (split_on CHR '':'' runId) in
      if runId = [] then refuse
      else if length runId > 512 then refuse
      else if list_ex is_space_or_control runId then refuse
      else if prefix DERIVED_RUN_ID_PREFIX runId \<and> \<not> isDerivedRunId runId then refuse
      else if \<not> prefix DERIVED_RUN_ID_PREFIX runId \<and> CHR ''#'' \<in> set runId \<and> \<not> onlyEmbeddedDerivedHashes runId then refuse
      else if root \<in> set RESERVED_KEY_ROOTS \<or> prefix ''__'' root then refuse
      else if has_record_segment runId then refuse
      else Inr ())"

section \<open>Lemmas\<close>

lemma safe_run_id_segments: "assertRunIdSafe r = Inr () \<Longrightarrow> \<not> has_record_segment r"
  by (auto simp: assertRunIdSafe_def Let_def split: if_splits)

lemma safe_run_id_lines: "assertRunIdSafe r = Inr () \<Longrightarrow> \<not> list_ex is_line_terminator r"
  by (auto simp: assertRunIdSafe_def Let_def list_ex_iff is_space_or_control_def is_line_terminator_def split: if_splits)

lemma has_record_segmentI:
  assumes "prefix '':model:'' t \<or> t = '':model'' \<or> prefix '':tool:'' t \<or> t = '':tool''"
  shows "has_record_segment (a @ t)"
  unfolding has_record_segment_def list_ex_iff
  by (rule bexI [of _ t]) (use assms in \<open>blast, simp add: suffix_def\<close>)

text \<open>A separator that starts inside \<open>r\<close> ends inside it or at its end, because \<open>r\<close> is followed by a colon.\<close>

lemma record_starts_inside:
  assumes "r @ '':'' @ x = h @ '':'' @ m @ '':'' @ y" and "m \<in> {''model'', ''tool''}" and "length h < length r"
  shows "has_record_segment r"
proof -
  have m: "CHR '':'' \<notin> set m" using assms(2) by auto
  from assms(1,3) obtain us where us: "us \<noteq> []" "r = h @ us" "us @ '':'' @ x = '':'' @ m @ '':'' @ y"
    by (auto simp: append_eq_append_conv2)
  then obtain r2 where r2: "us = CHR '':'' # r2" by (cases us) auto
  with us have eq: "r2 @ CHR '':'' # x = m @ CHR '':'' # y" by simp
  have "prefix m r2"
  proof (rule ccontr)
    assume "\<not> prefix m r2"
    then obtain z where "m = r2 @ CHR '':'' # z" using eq by (auto simp: append_eq_append_conv2 prefix_def Cons_eq_append_conv)
    with m show False by auto
  qed
  then obtain z where z: "r2 = m @ z" by (auto simp: prefix_def)
  have "z = [] \<or> (\<exists>z'. z = CHR '':'' # z')" using eq z by (cases z) auto
  then have "prefix '':model:'' us \<or> us = '':model'' \<or> prefix '':tool:'' us \<or> us = '':tool''" using assms(2) r2 z by auto
  then show ?thesis unfolding us(2) by (rule has_record_segmentI)
qed

section \<open>Properties\<close>

text \<open>
  C20: the keys of an accepted run belong to it. For every identifier the gate accepts, no key under its prefix, whatever
  follows the prefix, is parsed as a record of a run outside that prefix; the step and tool records parse back to the run itself. A sweep or purge
  of another run by its prefix therefore never takes a record of this one for its own.
\<close>

theorem accepted_run_owns_its_keys:
  assumes "assertRunIdSafe r = Inr ()"
  shows "(\<forall>x r' kd. parseJournalKey (r @ '':'' @ x) = Some (r', kd) \<longrightarrow> prefix r r')
    \<and> parseJournalKey (key_model r (show_nat n)) = Some (r, Model)
    \<and> (i \<noteq> [] \<and> CHR '':'' \<notin> set i \<and> \<not> list_ex is_line_terminator i \<longrightarrow> parseJournalKey (key_tool r i) = Some (r, Tool))"
proof (intro conjI allI impI)
  fix x r' kd assume "parseJournalKey (r @ '':'' @ x) = Some (r', kd)"
  then have "last_kind (r @ '':'' @ x) = Some (r', kd)" by (simp add: parseJournalKey_def split: if_splits)
  from last_kind_split [OF this] obtain m y where eq: "r @ '':'' @ x = r' @ '':'' @ m @ '':'' @ y" and m: "m \<in> {''model'', ''tool''}"
    by auto
  have "\<not> length r' < length r" using record_starts_inside [OF eq m] safe_run_id_segments [OF assms] by blast
  moreover have "prefix r (r @ '':'' @ x)" by simp
  moreover have "prefix r' (r @ '':'' @ x)" unfolding eq by simp
  ultimately show "prefix r r'" using prefix_length_prefix by (metis not_le_imp_less)
next
  have "CHR '':'' \<notin> set (show_nat n)" "\<not> list_ex is_line_terminator (show_nat n)"
    using show_nat_digits [of n] by (auto simp: list_ex_iff is_digit_char_def is_line_terminator_def)
  then show "parseJournalKey (key_model r (show_nat n)) = Some (r, Model)"
    unfolding key_model_def using parse_key_model [of "show_nat n" r] safe_run_id_lines [OF assms] by simp
next
  assume "i \<noteq> [] \<and> CHR '':'' \<notin> set i \<and> \<not> list_ex is_line_terminator i"
  then show "parseJournalKey (key_tool r i) = Some (r, Tool)"
    unfolding key_tool_def using parse_key_tool [of i r] safe_run_id_lines [OF assms] by simp
qed

theorem accepted_run_owns_its_keys_witness:
  "assertRunIdSafe ''chat-1'' = Inr () \<and> parseJournalKey (key_tool ''chat-1'' ''c1'') = Some (''chat-1'', Tool)"
proof -
  have ok: "assertRunIdSafe ''chat-1'' = Inr ()" by code_simp
  then show ?thesis using accepted_run_owns_its_keys [OF ok, of 0 "''c1''"] by (simp add: is_line_terminator_def)
qed

text \<open>
  In the view of an organisation the gate does not see the prefix: the accepted identifier \<open>model\<close> writes its input under a key that reads as
  a model step of a run named after the organisation.
\<close>

theorem organisation_phantom_run:
  assumes "orgPrefix a = Inr P" and "\<not> list_ex is_line_terminator a"
  shows "assertRunIdSafe ''model'' = Inr () \<and> parseJournalKey (P @ key_input ''model'') = Some (''org:'' @ a, Model)"
proof
  show "assertRunIdSafe ''model'' = Inr ()" by code_simp
  have "P @ key_input ''model'' = (''org:'' @ a) @ '':model:'' @ ''input''" using assms(1) by (auto simp: orgPrefix_Inr key_input_def)
  then show "parseJournalKey (P @ key_input ''model'') = Some (''org:'' @ a, Model)"
    using parse_key_model [of "''input''" "''org:'' @ a"] assms(2) by (simp add: is_line_terminator_def)
qed

end
