(* ===== verification/OwnedName.thy ===== *)
theory OwnedName
  imports JsValue
begin

text \<open>
  Owned names (\<open>packages/durable/src/owned-name.ts\<close>): the owner of a job or trigger is written into its stored name, so that listing,
  retrying and erasing by owner are prefix scans. Text is code units below 256 here, so it has no surrogates and
  \<open>esc\<close> never writes \<open>%uXXXX\<close>; \<open>unesc\<close> reads it where the code unit is below 256 (one above is outside the type of strings).
\<close>

section \<open>Definitions\<close>

definition OWNED :: string where "OWNED = ''~o~''"

definition esc_char :: "char \<Rightarrow> string" where
  "esc_char c = (if c = CHR ''%'' then ''%25'' else if c = CHR '':'' then ''%3A'' else if c = CHR ''~'' then ''%7E'' else [c])"

definition esc :: "string \<Rightarrow> string" where
  "esc v = concat (map esc_char v)"

definition upper_hex :: "char \<Rightarrow> nat option" where
  "upper_hex c =
     (let n = of_char c in if 48 \<le> n \<and> n \<le> (57 :: nat) then Some (n - 48) else if 65 \<le> n \<and> n \<le> 70 then Some (n - 55) else None)"

text \<open>\<open>u[0-9A-F]{4}\<close> below \<open>u0100\<close>: the character, and what follows.\<close>

fun unicode_escape :: "string \<Rightarrow> (char \<times> string) option" where
  "unicode_escape (u # a # b # c # d # s) =
     (if u = CHR ''u'' \<and> a = CHR ''0'' \<and> b = CHR ''0'' then
        (case (upper_hex c, upper_hex d) of (Some x, Some y) \<Rightarrow> Some (char_of (16 * x + y), s) | _ \<Rightarrow> None)
      else None)"
| "unicode_escape s = None"

lemma unicode_escape_shorter: "unicode_escape s = Some (c, t) \<Longrightarrow> length t < length s"
  by (induction s rule: unicode_escape.induct) (auto split: if_splits option.splits)

function unesc :: "string \<Rightarrow> string" where
  "unesc [] = []"
| "unesc (c # s) =
     (if c = CHR ''%'' \<and> take 2 s = ''25'' then CHR ''%'' # unesc (drop 2 s)
      else if c = CHR ''%'' \<and> take 2 s = ''3A'' then CHR '':'' # unesc (drop 2 s)
      else if c = CHR ''%'' \<and> take 2 s = ''7E'' then CHR ''~'' # unesc (drop 2 s)
      else case (if c = CHR ''%'' then unicode_escape s else None) of Some (x, t) \<Rightarrow> x # unesc t | None \<Rightarrow> c # unesc s)"
  by pat_completeness auto
termination
  by (relation "measure length") (auto dest!: unicode_escape_shorter split: if_splits)

definition RESERVED_OWNER_PREFIXES :: "string list" where
  "RESERVED_OWNER_PREFIXES = [''operator:'', ''application:'', ''role:'', ''token:'']"

definition MAX_OWNER_ID :: nat where "MAX_OWNER_ID = 200"

definition ownerIdProblem :: "string \<Rightarrow> string option" where
  "ownerIdProblem i =
     (if i = [] \<or> length i > MAX_OWNER_ID then Some ''length''
      else if list_ex (\<lambda>c. let n = of_char c :: nat in n \<le> 31 \<or> (127 \<le> n \<and> n \<le> 159)) i then Some ''control characters''
      else if list_ex (\<lambda>p. prefix p i) RESERVED_OWNER_PREFIXES then Some ''reserved prefix''
      else None)"

definition assertOwnerId :: "string \<Rightarrow> err + unit" where
  "assertOwnerId i = (case ownerIdProblem i of Some p \<Rightarrow> Inl (Err ''OwnerIdError'' p) | None \<Rightarrow> Inr ())"

record Owner =
  o_orgId :: "string option"
  o_resourceId :: "string option"

definition owner_text :: "string option \<Rightarrow> string" where
  "owner_text v = (case v of None \<Rightarrow> [] | Some s \<Rightarrow> esc s)"

definition ownerPart :: "Owner \<Rightarrow> err + string" where
  "ownerPart owner =
     (if o_orgId owner = Some [] then Inl (Err ''OwnerIdError'' ''length'')
      else case (case o_resourceId owner of None \<Rightarrow> Inr () | Some r \<Rightarrow> assertOwnerId r) of
        Inl e \<Rightarrow> Inl e
      | Inr _ \<Rightarrow> Inr (OWNED @ owner_text (o_orgId owner) @ '':'' @ owner_text (o_resourceId owner) @ '':''))"

definition assertSystemName :: "string \<Rightarrow> err + unit" where
  "assertSystemName name = (if prefix OWNED name then Inl (Err ''TypeError'' name) else Inr ())"

definition ownedName :: "string \<Rightarrow> Owner \<Rightarrow> err + string" where
  "ownedName name owner =
     (if o_orgId owner = None \<and> o_resourceId owner = None then
        (case assertSystemName name of Inl e \<Rightarrow> Inl e | Inr _ \<Rightarrow> Inr name)
      else case ownerPart owner of Inl e \<Rightarrow> Inl e | Inr p \<Rightarrow> Inr (p @ name))"

definition ownedPrefix :: "Owner \<Rightarrow> err + string" where
  "ownedPrefix owner = ownerPart owner"

text \<open>\<open>indexOf\<close> as a split at the first colon; \<^const>\<open>None\<close> when there is none.\<close>

fun cut_colon :: "string \<Rightarrow> (string \<times> string) option" where
  "cut_colon [] = None"
| "cut_colon (c # s) = (if c = CHR '':'' then Some ([], s) else map_option (\<lambda>(a, b). (c # a, b)) (cut_colon s))"

definition some_unesc :: "string \<Rightarrow> string option" where
  "some_unesc s = (if s = [] then None else Some (unesc s))"

definition ownerOfName :: "string \<Rightarrow> Owner \<times> string" where
  "ownerOfName stored =
     (let none = \<lparr>o_orgId = None, o_resourceId = None\<rparr> in
      if \<not> prefix OWNED stored then (none, stored)
      else case cut_colon (drop (length OWNED) stored) of
        None \<Rightarrow> (none, stored)
      | Some (org, r1) \<Rightarrow> (case cut_colon r1 of
            None \<Rightarrow> (none, stored)
          | Some (res, r2) \<Rightarrow> (\<lparr>o_orgId = some_unesc org, o_resourceId = some_unesc res\<rparr>, r2)))"

section \<open>Lemmas\<close>

lemma unesc_esc_char: "unesc (esc_char c @ s) = c # unesc s"
  by (simp add: esc_char_def)

lemma unesc_esc [simp]: "unesc (esc v) = v"
  by (induction v) (simp_all add: esc_def unesc_esc_char)

lemma esc_no_colon [simp]: "CHR '':'' \<notin> set (esc v)"
  by (induction v) (auto simp: esc_def esc_char_def)

lemma esc_Nil [simp]: "esc v = [] \<longleftrightarrow> v = []"
  by (cases v) (auto simp: esc_def esc_char_def)

lemma esc_inject [simp]: "esc a = esc b \<longleftrightarrow> a = b"
  by (metis unesc_esc)

lemma cut_colon_append: "CHR '':'' \<notin> set a \<Longrightarrow> cut_colon (a @ CHR '':'' # b) = Some (a, b)"
  by (induction a) auto

lemma owner_text_no_colon [simp]: "CHR '':'' \<notin> set (owner_text v)"
  by (simp add: owner_text_def split: option.split)

lemma some_unesc_owner_text: "v \<noteq> Some [] \<Longrightarrow> some_unesc (owner_text v) = v"
  by (auto simp: some_unesc_def owner_text_def split: option.splits)

lemma ownerPart_Inr:
  "ownerPart o1 = Inr p \<Longrightarrow> p = OWNED @ owner_text (o_orgId o1) @ '':'' @ owner_text (o_resourceId o1) @ '':''
     \<and> o_orgId o1 \<noteq> Some [] \<and> o_resourceId o1 \<noteq> Some []"
  by (auto simp: ownerPart_def assertOwnerId_def ownerIdProblem_def split: if_splits sum.splits option.splits)

lemma ownerOfName_part: "ownerPart o1 = Inr p \<Longrightarrow> ownerOfName (p @ name) = (o1, name)"
  using ownerPart_Inr [of o1 p]
  by (simp add: ownerOfName_def cut_colon_append some_unesc_owner_text)

lemma ownerOfName_ownedName:
  assumes "ownedName n ow = Inr t"
  shows "ownerOfName t = (ow, n)"
proof (cases "o_orgId ow = None \<and> o_resourceId ow = None")
  case True
  then have "t = n" "\<not> prefix OWNED n" using assms by (auto simp: ownedName_def assertSystemName_def split: if_splits)
  then show ?thesis using True by (cases ow) (simp add: ownerOfName_def)
next
  case False
  then obtain p where "ownerPart ow = Inr p" "t = p @ n" using assms by (auto simp: ownedName_def split: sum.splits if_splits)
  then show ?thesis using ownerOfName_part by simp
qed

lemma ownedPrefix_owner:
  assumes "ownedName n o1 = Inr s" and "ownedPrefix o2 = Inr p"
  shows "prefix p s \<Longrightarrow> o2 = o1" and "o2 = o1 \<Longrightarrow> o_orgId o1 \<noteq> None \<or> o_resourceId o1 \<noteq> None \<Longrightarrow> prefix p s"
proof -
  show "o2 = o1" if pre: "prefix p s"
  proof -
    obtain r where "s = p @ r" using pre by (auto simp: prefix_def)
    then show ?thesis using ownerOfName_part [of o2 p r] assms(2) ownerOfName_ownedName [OF assms(1)] by (simp add: ownedPrefix_def)
  qed
  show "prefix p s" if "o2 = o1" "o_orgId o1 \<noteq> None \<or> o_resourceId o1 \<noteq> None"
    using that assms by (auto simp: ownedName_def ownedPrefix_def split: sum.splits if_splits)
qed

section \<open>Properties\<close>

text \<open>
  C40: an owned name says who owns it. \<open>ownerOfName\<close> reads back the owner and the name that \<open>ownedName\<close> wrote, for system names too;
  two owners share a stored name only if they are the same owner with the same name; and a scan by the prefix of one owner meets a stored name
  only if that owner wrote it, so erasing by prefix removes nothing of another owner and no system name.
\<close>

theorem owned_name_roundtrip:
  assumes "ownedName name o1 = Inr s"
  shows "ownerOfName s = (o1, name)
    \<and> (\<forall>name2 o2. ownedName name2 o2 = Inr s \<longrightarrow> o2 = o1 \<and> name2 = name)
    \<and> (\<forall>o2 p. ownedPrefix o2 = Inr p \<and> prefix p s \<longrightarrow> o2 = o1)"
  using ownerOfName_ownedName [OF assms] ownerOfName_ownedName ownedPrefix_owner(1) [OF assms] by (metis prod.inject)

theorem owned_name_roundtrip_witness:
  "ownedName ''nightly'' \<lparr>o_orgId = Some ''acme'', o_resourceId = Some ''u:1''\<rparr> = Inr ''~o~acme:u%3A1:nightly''
   \<and> ownerOfName ''~o~acme:u%3A1:nightly'' = (\<lparr>o_orgId = Some ''acme'', o_resourceId = Some ''u:1''\<rparr>, ''nightly'')"
proof (rule conjI)
  show own: "ownedName ''nightly'' \<lparr>o_orgId = Some ''acme'', o_resourceId = Some ''u:1''\<rparr> = Inr ''~o~acme:u%3A1:nightly''" by code_simp
  show "ownerOfName ''~o~acme:u%3A1:nightly'' = (\<lparr>o_orgId = Some ''acme'', o_resourceId = Some ''u:1''\<rparr>, ''nightly'')"
    by (rule conjunct1 [OF owned_name_roundtrip [OF own]])
qed

end
