(* ===== verification/Cron.thy ===== *)
theory Cron
  imports JsValue
begin

text \<open>
  Cron expressions (\<open>packages/scheduler/src/cron.ts\<close>). Times are milliseconds since the epoch, as integers inside the range of
  \<open>Date\<close>; the calendar is the one ECMAScript defines for \<open>getUTCMonth\<close>, \<open>getUTCDate\<close> and \<open>getUTCDay\<close>.
\<close>

section \<open>Definitions\<close>

subsection \<open>Fields\<close>

definition range_of :: "string \<Rightarrow> int \<Rightarrow> int \<Rightarrow> (int option) \<times> (int option)" where
  "range_of rangeRaw lo hi =
     (if rangeRaw = ''*'' \<or> rangeRaw = [] then (Some lo, Some hi)
      else if CHR ''-'' \<in> set rangeRaw then
        (let ab = map parseInt (split_on CHR ''-'' rangeRaw) in (ab ! 0, ab ! 1))
      else (parseInt rangeRaw, parseInt rangeRaw))"

text \<open>\<open>for (let v = lo; v <= hi; v += step) out.add(v)\<close>\<close>

definition step_values :: "int \<Rightarrow> int \<Rightarrow> int \<Rightarrow> int list" where
  "step_values a b st = map (\<lambda>i. a + int i * st) [0..<nat ((b - a) div st) + 1]"

text \<open>One part of a comma list: \<open>const [rangeRaw, stepRaw] = part.split('/')\<close>.\<close>

definition parse_part :: "string \<Rightarrow> int \<Rightarrow> int \<Rightarrow> err + int list" where
  "parse_part part lo hi =
     (let ps = split_on CHR ''/'' part;
          step = (if 1 < length ps then parseInt (ps ! 1) else Some 1) in
      case step of
        None \<Rightarrow> Inl (Err ''Error'' part)
      | Some st \<Rightarrow>
          if st < 1 then Inl (Err ''Error'' part)
          else case range_of (ps ! 0) lo hi of
            (Some a, Some b) \<Rightarrow>
              if a < lo \<or> b > hi \<or> a > b then Inl (Err ''Error'' part)
              else Inr (step_values a b st)
          | _ \<Rightarrow> Inl (Err ''Error'' part))"

primrec parse_parts :: "string list \<Rightarrow> int \<Rightarrow> int \<Rightarrow> err + int list" where
  "parse_parts [] lo hi = Inr []"
| "parse_parts (p # ps) lo hi =
     (case parse_part p lo hi of
        Inl e \<Rightarrow> Inl e
      | Inr vs \<Rightarrow> (case parse_parts ps lo hi of Inl e \<Rightarrow> Inl e | Inr ws \<Rightarrow> Inr (vs @ ws)))"

definition parseField :: "string \<Rightarrow> int \<Rightarrow> int \<Rightarrow> err + int list" where
  "parseField field lo hi = parse_parts (split_on CHR '','' field) lo hi"

subsection \<open>The calendar\<close>

definition DayFromYear :: "int \<Rightarrow> int" where
  "DayFromYear y = 365 * (y - 1970) + (y - 1969) div 4 - (y - 1901) div 100 + (y - 1601) div 400"

definition year_of_day :: "int \<Rightarrow> int" where
  "year_of_day d =
     (let e = 1970 + (d * 400) div 146097 in
      if d < DayFromYear e then e - 1 else if DayFromYear (e + 1) \<le> d then e + 1 else e)"

definition month_starts :: "int \<Rightarrow> int list" where
  "month_starts y =
     (let l = DayFromYear (y + 1) - DayFromYear y - 365 in
      [0, 31, 59 + l, 90 + l, 120 + l, 151 + l, 181 + l, 212 + l, 243 + l, 273 + l, 304 + l, 334 + l])"

text \<open>\<open>getUTCMonth() + 1\<close>, \<open>getUTCDate()\<close> and \<open>getUTCDay()\<close> of a day.\<close>

definition month_of_day :: "int \<Rightarrow> int" where
  "month_of_day d = (let y = year_of_day d in int (length (filter (\<lambda>s. s \<le> d - DayFromYear y) (month_starts y))))"

definition date_of_day :: "int \<Rightarrow> int" where
  "date_of_day d =
     (let y = year_of_day d; past = filter (\<lambda>s. s \<le> d - DayFromYear y) (month_starts y) in d - DayFromYear y - last past + 1)"

definition weekday_of_day :: "int \<Rightarrow> int" where
  "weekday_of_day d = (d + 4) mod 7"

subsection \<open>The next match\<close>

record cron_spec =
  c_min :: "int list"
  c_hour :: "int list"
  c_dom :: "int list"
  c_mon :: "int list"
  c_dow :: "int list"
  c_domRestricted :: bool
  c_dowRestricted :: bool

definition cron_day :: "cron_spec \<Rightarrow> int \<Rightarrow> bool" where
  "cron_day c d \<longleftrightarrow>
     month_of_day d \<in> set (c_mon c)
     \<and> (if c_domRestricted c \<and> c_dowRestricted c then date_of_day d \<in> set (c_dom c) \<or> weekday_of_day d \<in> set (c_dow c)
        else date_of_day d \<in> set (c_dom c) \<and> weekday_of_day d \<in> set (c_dow c))"

definition cron_match :: "cron_spec \<Rightarrow> int \<Rightarrow> bool" where
  "cron_match c t \<longleftrightarrow>
     (t div 60000) mod 60 \<in> set (c_min c) \<and> (t div 3600000) mod 24 \<in> set (c_hour c) \<and> cron_day c (t div 86400000)"

text \<open>\<open>expr.trim().split(/\s+/)\<close>: the runs of characters that are no whitespace.\<close>

fun cron_words :: "string \<Rightarrow> string \<Rightarrow> string list" where
  "cron_words acc [] = (if acc = [] then [] else [acc])"
| "cron_words acc (c # s) =
     (if is_white c then (if acc = [] then cron_words [] s else acc # cron_words [] s) else cron_words (acc @ [c]) s)"

definition parse_cron :: "string \<Rightarrow> err + cron_spec" where
  "parse_cron expr =
     (case cron_words [] expr of
        [f0, f1, f2, f3, f4] \<Rightarrow>
          (case parseField f0 0 59 of Inl e \<Rightarrow> Inl e | Inr mi \<Rightarrow>
           case parseField f1 0 23 of Inl e \<Rightarrow> Inl e | Inr ho \<Rightarrow>
           case parseField f2 1 31 of Inl e \<Rightarrow> Inl e | Inr dm \<Rightarrow>
           case parseField f3 1 12 of Inl e \<Rightarrow> Inl e | Inr mo \<Rightarrow>
           case parseField f4 0 6 of Inl e \<Rightarrow> Inl e | Inr dw \<Rightarrow>
             Inr \<lparr>c_min = mi, c_hour = ho, c_dom = dm, c_mon = mo, c_dow = dw, c_domRestricted = (f2 \<noteq> ''*''), c_dowRestricted = (f4 \<noteq> ''*'')\<rparr>)
      | _ \<Rightarrow> Inl (Err ''Error'' expr))"

text \<open>The loop \<open>for (let i = 0; i < limit; i++, t += 60000)\<close>; \<open>n\<close> is \<open>limit - i\<close>.\<close>

function cron_scan :: "int \<Rightarrow> cron_spec \<Rightarrow> int \<Rightarrow> int option" where
  "cron_scan n c t = (if n \<le> 0 then None else if cron_match c t then Some t else cron_scan (n - 1) c (t + 60000))"
  by pat_completeness auto
termination by (relation "measure (\<lambda>(n, _, _). nat n)") auto

definition CRON_LIMIT :: int where "CRON_LIMIT = 366 * 24 * 60"

text \<open>\<open>Math.ceil((after + 1) / 60000) * 60000\<close>\<close>

definition next_minute :: "int \<Rightarrow> int" where
  "next_minute after = - ((- (after + 1)) div 60000) * 60000"

definition nextCronTime :: "string \<Rightarrow> int \<Rightarrow> err + int" where
  "nextCronTime expr after =
     (case parse_cron expr of
        Inl e \<Rightarrow> Inl e
      | Inr c \<Rightarrow> (case cron_scan CRON_LIMIT c (next_minute after) of
            Some t \<Rightarrow> Inr t | None \<Rightarrow> Inl (Err ''Error'' ''no match within 1 year'')))"

section \<open>The calendar is right\<close>

lemma div_bounds: "0 < k \<Longrightarrow> k * (a div k) \<le> a \<and> a < k * (a div k) + k" for a k :: int
  using pos_mod_bound [of k a] pos_mod_sign [of k a] mult_div_mod_eq [of k a] by linarith

lemma DayFromYear_bounds:
  "146097 * (y - 1970) - 607 < 400 * DayFromYear y" "400 * DayFromYear y < 146097 * (y - 1970) + 593"
  unfolding DayFromYear_def
  using div_bounds [of 4 "y - 1969"] div_bounds [of 100 "y - 1901"] div_bounds [of 400 "y - 1601"] by simp_all

lemma year_of_day: "DayFromYear (year_of_day d) \<le> d \<and> d < DayFromYear (year_of_day d + 1)"
proof -
  define e where "e = 1970 + (d * 400) div 146097"
  have e: "146097 * (e - 1970) \<le> 400 * d" "400 * d < 146097 * (e - 1970) + 146097"
    using div_bounds [of 146097 "d * 400"] unfolding e_def by simp_all
  have "DayFromYear (e - 1) \<le> d" using DayFromYear_bounds(2) [of "e - 1"] e(1) by simp
  moreover have "d < DayFromYear (e + 2)" using DayFromYear_bounds(1) [of "e + 2"] e(2) by simp
  ultimately show ?thesis by (auto simp: year_of_day_def Let_def e_def [symmetric] add.commute)
qed

section \<open>Lemmas\<close>

lemma step_in_range:
  fixes a b st :: int
  assumes "i < nat ((b - a) div st) + 1" and "0 < st" and "a \<le> b"
  shows "a \<le> a + int i * st \<and> a + int i * st \<le> b"
proof -
  have "int i \<le> (b - a) div st" using assms pos_imp_zdiv_nonneg_iff [of st "b - a"] by linarith
  then have "int i * st \<le> ((b - a) div st) * st" using assms(2) by (simp add: mult_right_mono)
  also have "\<dots> \<le> b - a" using div_bounds [OF assms(2), of "b - a"] by (simp add: mult.commute)
  finally show ?thesis using assms(2) by simp
qed

lemma parse_part_range:
  assumes "parse_part p lo hi = Inr vs" and "v \<in> set vs"
  shows "lo \<le> v \<and> v \<le> hi"
proof -
  have "\<exists>a b st. vs = step_values a b st \<and> 0 < st \<and> lo \<le> a \<and> b \<le> hi \<and> a \<le> b"
    using assms(1) unfolding parse_part_def Let_def by (fastforce simp: not_less split: option.splits if_splits prod.splits)
  then obtain a b st where r: "0 < st" "lo \<le> a" "b \<le> hi" "a \<le> b" "vs = step_values a b st" by blast
  obtain i where "i < nat ((b - a) div st) + 1" "v = a + int i * st" using assms(2) unfolding r(5) step_values_def by (auto simp del: upt_Suc)
  with step_in_range [of i b a st] r have "a \<le> v \<and> v \<le> b" by blast
  with r(2,3) show ?thesis by linarith
qed

lemma parseField_range: "parseField f lo hi = Inr vs \<Longrightarrow> v \<in> set vs \<Longrightarrow> lo \<le> v \<and> v \<le> hi"
proof -
  have "parse_parts ps lo hi = Inr vs \<Longrightarrow> v \<in> set vs \<Longrightarrow> lo \<le> v \<and> v \<le> hi" for ps
    using parse_part_range by (induction ps arbitrary: vs) (fastforce split: sum.splits)+
  then show "parseField f lo hi = Inr vs \<Longrightarrow> v \<in> set vs \<Longrightarrow> lo \<le> v \<and> v \<le> hi" by (simp add: parseField_def)
qed

declare cron_scan.simps [simp del]

lemma cron_scan_nat:
  "cron_scan (int 0) c t = None" "cron_scan (int (Suc n)) c t = (if cron_match c t then Some t else cron_scan (int n) c (t + 60000))"
  by (subst cron_scan.simps, simp)+

lemma cron_scan_Some:
  "cron_scan (int n) c t = Some u \<longleftrightarrow> (\<exists>i < n. u = t + int i * 60000 \<and> cron_match c u \<and> (\<forall>j < i. \<not> cron_match c (t + int j * 60000)))"
proof (induction n arbitrary: t)
  case (Suc n)
  have shift: "t + 60000 + int j * 60000 = t + int (Suc j) * 60000" for j by simp
  show ?case
  proof (cases "cron_match c t")
    case True
    then show ?thesis by (force simp: cron_scan_nat simp del: of_nat_Suc intro: exI [of _ 0])
  next
    case False
    have "(\<exists>i < n. u = t + int (Suc i) * 60000 \<and> cron_match c u \<and> (\<forall>j < i. \<not> cron_match c (t + int (Suc j) * 60000)))
      \<longleftrightarrow> (\<exists>i < Suc n. u = t + int i * 60000 \<and> cron_match c u \<and> (\<forall>j < i. \<not> cron_match c (t + int j * 60000)))"
      using False by (auto simp: Ex_less_Suc2 All_less_Suc2 simp del: of_nat_Suc)
    then show ?thesis using False Suc.IH by (simp only: cron_scan_nat shift if_False)
  qed
qed (simp add: cron_scan_nat [simplified])

lemma cron_scan_None: "cron_scan (int n) c t = None \<longleftrightarrow> (\<forall>i < n. \<not> cron_match c (t + int i * 60000))"
  by (induction n arbitrary: t) (auto simp: cron_scan_nat [simplified] less_Suc_eq_0_disj algebra_simps)

lemma int_nat_CRON_LIMIT: "int (nat CRON_LIMIT) = CRON_LIMIT"
  by (simp add: CRON_LIMIT_def)

lemmas year_scan_Some = cron_scan_Some [of "nat CRON_LIMIT", unfolded int_nat_CRON_LIMIT]
lemmas year_scan_None = cron_scan_None [of "nat CRON_LIMIT", unfolded int_nat_CRON_LIMIT]

section \<open>Properties\<close>

lemma next_minute_bounds: "after < next_minute after" "next_minute after \<le> after + 60000" "next_minute after mod 60000 = 0"
proof -
  show "after < next_minute after" "next_minute after \<le> after + 60000"
    using div_bounds [of 60000 "- (after + 1)"] by (simp_all add: next_minute_def)
  show "next_minute after mod 60000 = 0" by (simp add: next_minute_def)
qed

lemma next_minute_first: "after < u \<Longrightarrow> u mod 60000 = 0 \<Longrightarrow> next_minute after \<le> u"
proof -
  assume u: "after < u" "u mod 60000 = 0"
  then obtain k where k: "u = 60000 * k" by (metis mod_0_imp_dvd dvd_def mult.commute)
  obtain m where m: "next_minute after = 60000 * m" by (metis next_minute_bounds(3) mod_0_imp_dvd dvd_def)
  show "next_minute after \<le> u"
    using next_minute_bounds(2) [of after] u(1) unfolding k m by simp
qed

lemma minute_offset:
  assumes "after < u" and "u mod 60000 = 0"
  shows "\<exists>i. u = next_minute after + int i * 60000"
proof -
  have "(u - next_minute after) mod 60000 = 0" using assms(2) next_minute_bounds(3) by (metis mod_diff_eq diff_0_right mod_0)
  then obtain k where "u = next_minute after + k * 60000" by (metis add_diff_cancel_left' diff_add_cancel dvd_div_mult_self mod_0_imp_dvd add.commute)
  moreover have "0 \<le> k" using next_minute_first [OF assms] calculation by simp
  ultimately show ?thesis by (metis nonneg_int_cases)
qed

text \<open>
  C39: \<open>nextCronTime\<close> returns the first match. What it returns is a full minute strictly after \<open>after\<close> and at most 366 days and a minute later, it matches the
  expression, and no full minute between \<open>after\<close> and it does. When it throws on an expression that parses, no full minute in the 366 days after
  \<open>after\<close> matches.
\<close>

theorem cron_next_is_first:
  "(\<forall>t. nextCronTime expr after = Inr t \<longrightarrow>
      (\<exists>c. parse_cron expr = Inr c \<and> after < t \<and> t \<le> after + 60000 * CRON_LIMIT \<and> t mod 60000 = 0 \<and> cron_match c t
        \<and> (\<forall>u. after < u \<and> u < t \<and> u mod 60000 = 0 \<longrightarrow> \<not> cron_match c u)))
   \<and> (\<forall>e c u. nextCronTime expr after = Inl e \<and> parse_cron expr = Inr c \<and> after < u \<and> u \<le> after + 60000 * (CRON_LIMIT - 1)
        \<and> u mod 60000 = 0 \<longrightarrow> \<not> cron_match c u)"
proof (intro conjI allI impI)
  fix t assume "nextCronTime expr after = Inr t"
  then obtain c where c: "parse_cron expr = Inr c" "cron_scan CRON_LIMIT c (next_minute after) = Some t"
    by (auto simp: nextCronTime_def split: sum.splits option.splits)
  then obtain i where i: "i < nat CRON_LIMIT" "t = next_minute after + int i * 60000" "cron_match c t"
    "\<And>j. j < i \<Longrightarrow> \<not> cron_match c (next_minute after + int j * 60000)"
    by (auto simp: year_scan_Some)
  have first: "\<forall>u. after < u \<and> u < t \<and> u mod 60000 = 0 \<longrightarrow> \<not> cron_match c u"
    using minute_offset [of after] i(2,4) by fastforce
  have "int i + 1 \<le> CRON_LIMIT" using i(1) by simp
  then have "after < t" "t \<le> after + 60000 * CRON_LIMIT" "t mod 60000 = 0" using i(2) next_minute_bounds [of after] by simp_all
  with c(1) i(3) first show "\<exists>c. parse_cron expr = Inr c \<and> after < t \<and> t \<le> after + 60000 * CRON_LIMIT \<and> t mod 60000 = 0 \<and> cron_match c t
        \<and> (\<forall>u. after < u \<and> u < t \<and> u mod 60000 = 0 \<longrightarrow> \<not> cron_match c u)"
    by (intro exI [of _ c]) simp
next
  fix e c u
  assume a: "nextCronTime expr after = Inl e \<and> parse_cron expr = Inr c \<and> after < u \<and> u \<le> after + 60000 * (CRON_LIMIT - 1) \<and> u mod 60000 = 0"
  then have none: "cron_scan CRON_LIMIT c (next_minute after) = None" by (auto simp: nextCronTime_def split: option.splits)
  obtain i where i: "u = next_minute after + int i * 60000" using minute_offset [of after u] a by blast
  have "int i < CRON_LIMIT" using a i next_minute_bounds(1) [of after] by simp
  then have "i < nat CRON_LIMIT" by simp
  then show "\<not> cron_match c u" using none i by (auto simp: year_scan_None)
qed

definition quarter_spec :: cron_spec where
  "quarter_spec = \<lparr>c_min = [0, 15, 30, 45], c_hour = map int [0..<24], c_dom = map int [1..<32], c_mon = map int [1..<13], c_dow = map int [0..<7],
     c_domRestricted = False, c_dowRestricted = False\<rparr>"

lemma quarter_parse: "parse_cron ''*/15 * * * *'' = Inr quarter_spec"
  by code_simp

lemma quarter_next: "nextCronTime ''*/15 * * * *'' 780000 = Inr 900000"
proof -
  have "cron_match quarter_spec 900000" "\<not> cron_match quarter_spec 840000" by code_simp+
  moreover have "next_minute 780000 = 840000" by code_simp
  ultimately have "cron_scan CRON_LIMIT quarter_spec (next_minute 780000) = Some 900000"
    unfolding year_scan_Some by (intro exI [of _ 1]) (simp add: CRON_LIMIT_def)
  then show ?thesis by (simp add: nextCronTime_def quarter_parse)
qed

theorem cron_next_is_first_witness:
  "nextCronTime ''*/15 * * * *'' 780000 = Inr 900000 \<and> cron_match quarter_spec 900000 \<and> (900000 :: int) mod 60000 = 0"
  using cron_next_is_first [of "''*/15 * * * *''" 780000] quarter_next quarter_parse by auto

end
