(* ===== verification/Scheduler.thy ===== *)
theory Scheduler
  imports CasRegister RunLock RunIdentity Organization OwnedName Cron
begin

text \<open>
  The scheduler (\<open>packages/scheduler/src/index.ts\<close>): triggers with a definition and a state record in the root journal, polled by any number of
  processes. A trigger definition and its state are the journal's objects; the runner and the budget guard are outside code
  (\<open>runWorkflow\<close>, \<open>budgetGuard\<close>). The heartbeat is the concurrent program \<^const>\<open>lock_renew\<close>, which other workers of an interleaving may run.
  An error is its class and message; whether a \<open>RunBusyError\<close> carries \<open>atLockAcquisition\<close> is read by \<open>po_atLock\<close>.
\<close>

section \<open>Definitions\<close>

subsection \<open>Records\<close>

record ScheduleSpec =
  sp_id :: "string option"
  sp_name :: string
  sp_input :: js
  sp_at :: "int option"
  sp_every :: "int option"
  sp_cron :: "string option"
  sp_maxAttempts :: "int option"
  sp_resourceId :: "string option"
  sp_caller :: "Caller option"
  sp_orgId :: "string option"
  sp_misfire :: "string option"

record TriggerOwner =
  to_resourceId :: "string option"
  to_orgId :: "string option"
  to_staff :: bool

definition owner_fields :: "TriggerOwner \<Rightarrow> (string \<times> js) list" where
  "owner_fields ow = opt_field ''resourceId'' (to_resourceId ow) @ opt_field ''orgId'' (to_orgId ow)
     @ (if to_staff ow then [(''ownerKind'', JStr ''staff'')] else [])"

definition TriggerDef :: "string \<Rightarrow> js \<Rightarrow> string \<Rightarrow> js \<Rightarrow> int \<Rightarrow> string \<Rightarrow> TriggerOwner \<Rightarrow> js" where
  "TriggerDef name input kind value maxAttempts misfire ow =
     JObj ([(''name'', JStr name), (''input'', input), (''kind'', JStr kind), (''value'', value), (''maxAttempts'', JNum maxAttempts),
            (''misfire'', JStr misfire)] @ owner_fields ow)"

definition TriggerState :: "js \<Rightarrow> int \<Rightarrow> int \<Rightarrow> string \<Rightarrow> string option \<Rightarrow> js" where
  "TriggerState nextRunAt attempts fireCount status movedTo =
     JObj ([(''nextRunAt'', nextRunAt), (''attempts'', JNum attempts), (''fireCount'', JNum fireCount), (''status'', JStr status)]
       @ opt_field ''movedTo'' movedTo)"

definition DEF :: "string \<Rightarrow> key" where "DEF i = ''sched:def:'' @ i"
definition STATE :: "string \<Rightarrow> key" where "STATE i = ''sched:state:'' @ i"
definition FAIL :: "string \<Rightarrow> key" where "FAIL i = ''sched:fail:'' @ i"
definition BUDGET_SKIP :: "string \<Rightarrow> key" where "BUDGET_SKIP i = ''sched:budget-skip:'' @ i"
definition BUSY_SKIP :: "string \<Rightarrow> key" where "BUSY_SKIP i = ''sched:busy-skip:'' @ i"
definition FIRE_LOCK :: "string \<Rightarrow> string" where "FIRE_LOCK runId = runId @ '':fire''"

subsection \<open>Owners\<close>

definition opt_string :: "js \<Rightarrow> string option" where
  "opt_string v = (case v of JStr s \<Rightarrow> Some s | _ \<Rightarrow> None)"

definition callerOfTrigger :: "js \<Rightarrow> err + Caller" where
  "callerOfTrigger def =
     (let org = opt_string (js_field ''orgId'' def) in
      case js_field ''resourceId'' def of
        JStr r \<Rightarrow> if r \<noteq> [] then user r org
                  else if js_field ''ownerKind'' def = JStr ''staff'' then Inr (staff org) else Inr UNKNOWN
      | _ \<Rightarrow> if js_field ''ownerKind'' def = JStr ''staff'' then Inr (staff org) else Inr UNKNOWN)"

definition caller_org :: "Caller option \<Rightarrow> string option" where
  "caller_org c = (case c of Some (UserCaller _ og) \<Rightarrow> og | Some (StaffCaller og) \<Rightarrow> og | _ \<Rightarrow> None)"

definition caller_res :: "Caller option \<Rightarrow> string option" where
  "caller_res c = (case c of Some (UserCaller i _) \<Rightarrow> Some i | _ \<Rightarrow> None)"

text \<open>\<open>a ?? b\<close>\<close>

definition nullish :: "'a option \<Rightarrow> 'a option \<Rightarrow> 'a option" where
  "nullish a b = (case a of Some x \<Rightarrow> Some x | None \<Rightarrow> b)"

definition triggerOwnerOf :: "Caller option \<Rightarrow> string option \<Rightarrow> string option \<Rightarrow> err + TriggerOwner" where
  "triggerOwnerOf c res org =
     (if c \<noteq> None \<and> ((res \<noteq> None \<and> res \<noteq> caller_res c) \<or> (org \<noteq> None \<and> caller_org c \<noteq> None \<and> org \<noteq> caller_org c))
      then Inl (Err ''TypeError'' ''one owner per trigger'')
      else Inr \<lparr>to_resourceId = nullish (caller_res c) res, to_orgId = nullish (caller_org c) org,
                to_staff = (case c of Some (StaffCaller _) \<Rightarrow> True | _ \<Rightarrow> False)\<rparr>)"

text \<open>The journal a function is handed: the organisation it is scoped to, and whether it is the view of an end user.\<close>

definition assertRootJournal :: "string option \<Rightarrow> bool \<Rightarrow> err + unit" where
  "assertRootJournal org subjectView =
     (case org of Some og \<Rightarrow> Inl (Err ''Error'' og) | None \<Rightarrow> if subjectView then Inl (Err ''Error'' ''subject view'') else Inr ())"

subsection \<open>Times\<close>

definition firstRunAt :: "ScheduleSpec \<Rightarrow> int \<Rightarrow> err + int" where
  "firstRunAt spec now =
     (case sp_at spec of Some a \<Rightarrow> Inr a | None \<Rightarrow>
      case sp_every spec of Some e \<Rightarrow> Inr (now + e) | None \<Rightarrow>
      case sp_cron spec of Some c \<Rightarrow> nextCronTime c now | None \<Rightarrow> Inl (Err ''Error'' ''one of at | every | cron is required''))"

text \<open>An interval of 0 divides by zero: the sum is \<open>NaN\<close>.\<close>

definition computeNext :: "js \<Rightarrow> int \<Rightarrow> int \<Rightarrow> err + js" where
  "computeNext def prevSlot now =
     (let catchup = (js_field ''misfire'' def = JStr ''catchup'') in
      if js_field ''kind'' def = JStr ''every'' then
        (let interval = js_int (js_field ''value'' def) in
         if catchup then Inr (JNum (prevSlot + interval))
         else if interval = 0 then Inr (JNonFinite NaN)
         else Inr (JNum (prevSlot + interval * ((now - prevSlot) div interval + 1))))
      else map_sum id JNum (nextCronTime (js_string (js_field ''value'' def)) (if catchup then prevSlot else now)))"

definition backoff :: "int \<Rightarrow> int" where
  "backoff attempts = min (1000 * 2 ^ nat (attempts - 1)) 60000"

subsection \<open>Creating triggers\<close>

text \<open>\<open>/^(\d+)(?::|$)/\<close>\<close>

definition occurrence_of :: "string \<Rightarrow> int option" where
  "occurrence_of s =
     (let ds = takeWhile is_digit_char s; rest = dropWhile is_digit_char s in
      if ds \<noteq> [] \<and> (rest = [] \<or> hd rest = CHR '':'') then Some (int (read_nat ds)) else None)"

definition fireCountAfterLoss :: "caps \<Rightarrow> string \<Rightarrow> int prog" where
  "fireCountAfterLoss J i =
     (if \<not> has_listKeys J then Ret 0
      else let pre = ''sched:'' @ i @ '':'' in
        catchp (bindp (listKeys pre) (\<lambda>ks.
            Ret (foldl (\<lambda>h k. case occurrence_of (drop (length pre) k) of Some n \<Rightarrow> max h n | None \<Rightarrow> h) (-1) ks + 1)))
          (\<lambda>_. Ret 0))"

definition scheduleWorkflow :: "caps \<Rightarrow> string option \<Rightarrow> bool \<Rightarrow> ScheduleSpec \<Rightarrow> int \<Rightarrow> string prog" where
  "scheduleWorkflow J scope subjectView spec now =
     seqp (liftp (assertRootJournal scope subjectView))
     (bindp (liftp (triggerOwnerOf (sp_caller spec) (sp_resourceId spec) (sp_orgId spec))) (\<lambda>ow.
      seqp (case to_orgId ow of None \<Rightarrow> Ret () | Some og \<Rightarrow> bindp (liftp (orgPrefix og)) (\<lambda>_. Ret ()))
      (seqp (if to_resourceId ow = Some [] then Raise (Err ''Error'' ''invalid resourceId'') else Ret ())
      (bindp (liftp (ownedName (case sp_id spec of Some i \<Rightarrow> i | None \<Rightarrow> sp_name spec) \<lparr>o_orgId = to_orgId ow, o_resourceId = to_resourceId ow\<rparr>)) (\<lambda>i.
       bindp (get (DEF i)) (\<lambda>d.
        if d \<noteq> JUndef then
          bindp (get (STATE i)) (\<lambda>st.
            if st = JUndef then
              bindp (liftp (firstRunAt spec now)) (\<lambda>n. bindp (fireCountAfterLoss J i) (\<lambda>f.
                seqp (put (STATE i) (TriggerState (JNum n) 0 f ''pending'' None)) (Ret i)))
            else Ret i)
        else
          (let kind = (if sp_at spec \<noteq> None then ''at'' else if sp_every spec \<noteq> None then ''every'' else ''cron'');
               value = (case sp_at spec of Some a \<Rightarrow> JNum a | None \<Rightarrow> (case sp_every spec of Some e \<Rightarrow> JNum e | None \<Rightarrow>
                          (case sp_cron spec of Some c \<Rightarrow> JStr c | None \<Rightarrow> JUndef)));
               def = TriggerDef (sp_name spec) (sp_input spec) kind value
                       (case sp_maxAttempts spec of Some m \<Rightarrow> m | None \<Rightarrow> 5) (case sp_misfire spec of Some m \<Rightarrow> m | None \<Rightarrow> ''skip'') ow in
           seqp (put (DEF i) def)
           (bindp (liftp (firstRunAt spec now)) (\<lambda>n.
             seqp (put (STATE i) (TriggerState (JNum n) 0 0 ''pending'' None)) (Ret i))))))))))"

subsection \<open>Polling\<close>

record PollResult =
  pr_fired :: nat
  pr_rescheduled :: nat
  pr_failed :: nat
  pr_skipped :: nat

definition no_poll :: PollResult where
  "no_poll = \<lparr>pr_fired = 0, pr_rescheduled = 0, pr_failed = 0, pr_skipped = 0\<rparr>"

record poll_opts =
  po_owner :: string
  po_retryMs :: int
  po_lockTtlMs :: int
  po_budgetGuard :: bool
  po_runnerForOrg :: "string \<Rightarrow> bool"
  po_atLock :: "err \<Rightarrow> bool"

definition isRunBusyAtAcquisition :: "poll_opts \<Rightarrow> err \<Rightarrow> bool" where
  "isRunBusyAtAcquisition o1 e \<longleftrightarrow> err_class e = ''RunBusyError'' \<and> po_atLock o1 e"

text \<open>\<open>{...state, f: v}\<close>\<close>

definition with_field :: "string \<Rightarrow> js \<Rightarrow> js \<Rightarrow> js" where
  "with_field f v s = JObj (js_set f v (case s of JObj kvs \<Rightarrow> kvs | _ \<Rightarrow> []))"

text \<open>The text of a number in a template.\<close>

definition number_text :: "js \<Rightarrow> string" where
  "number_text v = (case v of JNum n \<Rightarrow> show_int n | JNonFinite x \<Rightarrow> show_nonfinite x | _ \<Rightarrow> ''undefined'')"

definition trigger_run :: "string \<Rightarrow> js \<Rightarrow> string" where
  "trigger_run i fireCount = ''sched:'' @ i @ '':'' @ number_text fireCount"

definition commit :: "caps \<Rightarrow> string \<Rightarrow> js \<Rightarrow> js \<Rightarrow> bool prog" where
  "commit J i state new =
     (if \<not> has_putIfMatch J then seqp (put (STATE i) new) (Ret True) else putIfMatch (STATE i) state new)"

definition js_caller :: "Caller \<Rightarrow> js" where
  "js_caller c = (case c of
       UserCaller i og \<Rightarrow> JObj ([(''kind'', JStr ''user''), (''id'', JStr i)] @ opt_field ''orgId'' og)
     | StaffCaller og \<Rightarrow> JObj ([(''kind'', JStr ''staff'')] @ opt_field ''orgId'' og)
     | UnknownCaller \<Rightarrow> JObj [(''kind'', JStr ''unknown'')])"

definition run_trigger :: "poll_opts \<Rightarrow> js \<Rightarrow> string \<Rightarrow> js prog" where
  "run_trigger o1 def runId =
     (if (case js_field ''orgId'' def of JStr og \<Rightarrow> \<not> po_runnerForOrg o1 og | _ \<Rightarrow> False)
      then Raise (Err ''Error'' ''no runnerForOrg'')
      else bindp (liftp (callerOfTrigger def)) (\<lambda>c.
        ext ''runWorkflow'' (JObj [(''name'', js_field ''name'' def), (''input'', js_field ''input'' def), (''runId'', JStr runId), (''caller'', js_caller c)])))"

definition fire_failed :: "caps \<Rightarrow> poll_opts \<Rightarrow> int \<Rightarrow> string \<Rightarrow> js \<Rightarrow> js \<Rightarrow> string \<Rightarrow> err \<Rightarrow> PollResult \<Rightarrow> PollResult prog" where
  "fire_failed J o1 now i def state runId e out =
     (let later = with_field ''nextRunAt'' (JNum (now + po_retryMs o1)) state; tries = js_int (js_field ''attempts'' state) + 1 in
      if isRunBusyAtAcquisition o1 e then
        bindp (commit J i state later) (\<lambda>ok.
          if ok then bindp (get (BUSY_SKIP i)) (\<lambda>prev.
            seqp (put (BUSY_SKIP i) (JObj [(''error'', JStr (err_msg e)), (''at'', JNum now), (''runId'', JStr runId),
                (''deferrals'', JNum (js_int (js_field ''deferrals'' prev) + 1))]))
              (Ret (out\<lparr>pr_skipped := pr_skipped out + 1\<rparr>)))
          else Ret out)
      else if tries \<ge> js_int (js_field ''maxAttempts'' def) then
        bindp (commit J i state (with_field ''status'' (JStr ''failed'') (with_field ''attempts'' (JNum tries) state))) (\<lambda>ok.
          if ok then seqp (put (FAIL i) (JObj [(''error'', JStr (err_msg e)), (''at'', JNum now)])) (Ret (out\<lparr>pr_failed := pr_failed out + 1\<rparr>))
          else Ret out)
      else bindp (commit J i state (with_field ''nextRunAt'' (JNum (now + backoff tries)) (with_field ''attempts'' (JNum tries) state))) (\<lambda>ok.
        Ret (if ok then out\<lparr>pr_rescheduled := pr_rescheduled out + 1\<rparr> else out)))"

definition fire_done :: "caps \<Rightarrow> poll_opts \<Rightarrow> int \<Rightarrow> string \<Rightarrow> js \<Rightarrow> js \<Rightarrow> js \<Rightarrow> PollResult \<Rightarrow> PollResult prog" where
  "fire_done J o1 now i def state result out =
     bindp (propp ''suspended'' result) (\<lambda>sus.
       if js_truthy sus then
         bindp (commit J i state (with_field ''nextRunAt'' (JNum (now + po_retryMs o1)) state)) (\<lambda>ok.
           Ret (if ok then out\<lparr>pr_rescheduled := pr_rescheduled out + 1\<rparr> else out))
       else if js_field ''kind'' def = JStr ''at'' then
         bindp (commit J i state (with_field ''status'' (JStr ''done'') state)) (\<lambda>ok.
           Ret (if ok then out\<lparr>pr_fired := pr_fired out + 1\<rparr> else out))
       else bindp (liftp (computeNext def (js_int (js_field ''nextRunAt'' state)) now)) (\<lambda>nxt.
         bindp (commit J i state (TriggerState nxt 0 (js_int (js_field ''fireCount'' state) + 1) ''pending'' None)) (\<lambda>ok.
           Ret (if ok then out\<lparr>pr_fired := pr_fired out + 1\<rparr> else out))))"

definition poll_fire :: "caps \<Rightarrow> poll_opts \<Rightarrow> int \<Rightarrow> string \<Rightarrow> js \<Rightarrow> js \<Rightarrow> string \<Rightarrow> PollResult \<Rightarrow> PollResult prog" where
  "poll_fire J o1 now i def state runId out =
     bindp (if po_budgetGuard o1 then
              outcome (ext ''budgetGuard'' (JObj ([(''triggerId'', JStr i), (''workflowName'', js_field ''name'' def), (''input'', js_field ''input'' def),
                (''now'', JNum now)] @ opt_field ''orgId'' (opt_string (js_field ''orgId'' def)) @ opt_field ''resourceId'' (opt_string (js_field ''resourceId'' def)))))
            else Ret (Inr JUndef)) (\<lambda>guard.
       case guard of
         Inl e \<Rightarrow>
           bindp (commit J i state (with_field ''nextRunAt'' (JNum (now + po_retryMs o1)) state)) (\<lambda>ok.
             if ok then seqp (put (BUDGET_SKIP i) (JObj [(''error'', JStr (err_msg e)), (''at'', JNum now)])) (Ret (out\<lparr>pr_skipped := pr_skipped out + 1\<rparr>))
             else Ret out)
       | Inr _ \<Rightarrow>
           bindp (outcome (run_trigger o1 def runId)) (\<lambda>res.
             case res of
               Inl e \<Rightarrow> fire_failed J o1 now i def state runId e out
             | Inr result \<Rightarrow> fire_done J o1 now i def state result out))"

definition poll_item :: "caps \<Rightarrow> poll_opts \<Rightarrow> int \<Rightarrow> PollResult \<Rightarrow> key \<Rightarrow> PollResult prog" where
  "poll_item J o1 now out dkey =
     (let i = drop (length ''sched:def:'') dkey in
      bindp (get (DEF i)) (\<lambda>def. bindp (get (STATE i)) (\<lambda>state.
        if \<not> js_truthy def \<or> \<not> js_truthy state \<or> js_field ''status'' state \<noteq> JStr ''pending''
           \<or> (case js_field ''nextRunAt'' state of JNum n \<Rightarrow> now < n | JNonFinite PosInfinity \<Rightarrow> True | _ \<Rightarrow> False) then Ret out
        else let runId = trigger_run i (js_field ''fireCount'' state) in
          bindp (acquireRunLock J (FIRE_LOCK runId) (po_owner o1) (po_lockTtlMs o1) (Some now)) (\<lambda>lock.
            case lock of
              None \<Rightarrow> Ret (out\<lparr>pr_skipped := pr_skipped out + 1\<rparr>)
            | Some l \<Rightarrow> finallyp (poll_fire J o1 now i def state runId out) (lock_release J l)))))"

definition pollScheduler :: "caps \<Rightarrow> string option \<Rightarrow> bool \<Rightarrow> poll_opts \<Rightarrow> int \<Rightarrow> PollResult prog" where
  "pollScheduler J scope subjectView o1 now =
     seqp (liftp (assertRootJournal scope subjectView))
       (if \<not> has_listKeys J then Raise (Err ''Error'' ''journal.listKeys is required'')
        else bindp (listKeys ''sched:def:'') (\<lambda>ks. foldp (poll_item J o1 now) no_poll ks))"

section \<open>The state of a trigger as a register\<close>

definition is_number :: "js \<Rightarrow> bool" where
  "is_number v = (case v of JNum _ \<Rightarrow> True | JNonFinite _ \<Rightarrow> True | _ \<Rightarrow> False)"

definition is_trigger_state :: "js \<Rightarrow> bool" where
  "is_trigger_state v \<longleftrightarrow> (\<exists>n a f s m. v = TriggerState n a f s m \<and> is_number n)"

text \<open>The moves a poller may make: only a pending state is replaced; the occurrence stays the same, or it is the next one.\<close>

definition advances :: "js \<Rightarrow> js \<Rightarrow> bool" where
  "advances cur new \<longleftrightarrow>
     js_field ''status'' cur = JStr ''pending''
     \<and> (js_field ''fireCount'' new = js_field ''fireCount'' cur
          \<and> js_int (js_field ''attempts'' cur) \<le> js_int (js_field ''attempts'' new)
          \<and> js_field ''status'' new \<in> {JStr ''pending'', JStr ''done'', JStr ''failed''}
        \<or> js_int (js_field ''fireCount'' new) = js_int (js_field ''fireCount'' cur) + 1
          \<and> js_field ''attempts'' new = JNum 0 \<and> js_field ''status'' new = JStr ''pending'')"

lemma TriggerState_simps [simp]:
  "js_field ''nextRunAt'' (TriggerState n a f s m) = n" "js_field ''attempts'' (TriggerState n a f s m) = JNum a"
  "js_field ''fireCount'' (TriggerState n a f s m) = JNum f" "js_field ''status'' (TriggerState n a f s m) = JStr s"
  "TriggerState n a f s m \<noteq> JUndef" "js_truthy (TriggerState n a f s m)"
  "with_field ''nextRunAt'' v (TriggerState n a f s m) = TriggerState v a f s m"
  "with_field ''attempts'' (JNum a') (TriggerState n a f s m) = TriggerState n a' f s m"
  "with_field ''status'' (JStr s') (TriggerState n a f s m) = TriggerState n a f s' m"
  by (simp_all add: TriggerState_def with_field_def)

lemma hashable_number: "is_number n \<Longrightarrow> hashable n"
  by (cases n) (auto simp: is_number_def)

lemma js_same_number: "is_number n \<Longrightarrow> js_same n n' \<longleftrightarrow> n = n'"
  by (cases n) (auto simp: is_number_def)

lemma TriggerState_serial:
  assumes "is_number n" and "is_number n'" and "stableStringify (TriggerState n a f s m) = stableStringify (TriggerState n' a' f' s' m')"
  shows "TriggerState n a f s m = TriggerState n' a' f' s' m'"
proof -
  have h: "hashable (TriggerState x b g t k)" if "is_number x" for x b g t k
    using that by (auto simp: TriggerState_def opt_field_def hashable_number PROTO_def split: option.split)
  have "js_same (TriggerState n a f s m) (TriggerState n' a' f' s' m')"
    using assms(3) stableStringify_eq_iff [OF h [OF assms(1)] h [OF assms(2)]] by blast
  then show ?thesis
    using assms(1) by (auto simp: TriggerState_def opt_field_def js_same_number split: option.splits)
qed

interpretation trigger: cas_register is_trigger_state advances
  by unfold_locales (auto simp: is_trigger_state_def dest: TriggerState_serial)

lemma computeNext_number: "computeNext def p now = Inr v \<Longrightarrow> is_number v"
  by (auto simp: computeNext_def Let_def is_number_def map_sum_def split: if_splits sum.splits)

abbreviation trigger_calls :: "string \<Rightarrow> jop \<Rightarrow> bool" where
  "trigger_calls i \<equiv> cas_allowed is_trigger_state advances (STATE i) ()"

text \<open>Keys of other records are never the state of a trigger; the lock key could be, for a trigger identifier that ends like one.\<close>

lemma keys_apart [simp]:
  "FAIL j \<noteq> STATE i" "BUSY_SKIP j \<noteq> STATE i" "BUDGET_SKIP j \<noteq> STATE i" "DEF j \<noteq> STATE i" "STATE j = STATE i \<longleftrightarrow> j = i"
  by (simp_all add: FAIL_def BUSY_SKIP_def BUDGET_SKIP_def DEF_def STATE_def)

lemma lock_key_apart:
  assumes "\<not> suffix '':fire:lock'' i"
  shows "lockKey (FIRE_LOCK (''sched:'' @ j @ '':'' @ t)) \<noteq> STATE i"
proof
  assume "lockKey (FIRE_LOCK (''sched:'' @ j @ '':'' @ t)) = STATE i"
  then have eq: "(j @ '':'' @ t) @ '':fire:lock'' = ''state:'' @ i" by (simp add: lockKey_def FIRE_LOCK_def STATE_def)
  then obtain us where "(j @ '':'' @ t) @ us = ''state:'' \<and> '':fire:lock'' = us @ i \<or> j @ '':'' @ t = ''state:'' @ us \<and> us @ '':fire:lock'' = i"
    unfolding append_eq_append_conv2 by blast
  with assms have us: "(j @ '':'' @ t) @ us = ''state:''" "'':fire:lock'' = us @ i" by (auto simp: suffix_def)
  moreover have "us \<noteq> []" using us(2) assms by auto
  ultimately have "butlast ((j @ '':'' @ t) @ us) = ''state''" "CHR '':'' \<in> set (j @ '':'' @ t)" by auto
  then have "CHR '':'' \<in> set ''state''" using \<open>us \<noteq> []\<close> by (metis UnI1 butlast_append set_append)
  then show False by simp
qed

lemma calls_in_claim_key: "k \<noteq> STATE i \<Longrightarrow> calls_in (trigger_calls i) (claim J k v)"
  by (auto simp: claim_def intro!: calls_in_bindp calls_in_seqp)

lemma calls_in_acquire:
  "lockKey r \<noteq> STATE i \<Longrightarrow> calls_in (trigger_calls i) (acquireRunLock J r ow ttl (Some now))"
  by (auto simp: acquireRunLock_def Let_def calls_in_claim_key intro!: calls_in_bindp calls_in_seqp)

lemma calls_in_release:
  "lockKey (lock_runId l) \<noteq> STATE i \<Longrightarrow> calls_in (trigger_calls i) (lock_release J l)"
proof -
  assume k: "lockKey (lock_runId l) \<noteq> STATE i"
  have "calls_in (trigger_calls i) (release_attempts J l n)" for n
    by (induction n) (use k in \<open>auto simp: Let_def intro!: calls_in_bindp\<close>)
  then show ?thesis by (auto simp: lock_release_def)
qed

text \<open>What a poller may commit, holding the pending state it read.\<close>

lemma calls_in_commit:
  assumes "has_putIfMatch J" and "j = i \<Longrightarrow> is_trigger_state st \<and> is_trigger_state new \<and> advances st new"
  shows "calls_in (trigger_calls i) (commit J j st new)"
  using assms by (auto simp: commit_def)

definition due_state :: "js \<Rightarrow> bool" where
  "due_state st \<longleftrightarrow> is_trigger_state st \<and> js_field ''status'' st = JStr ''pending''"

lemma due_state_moves:
  assumes "due_state st"
  shows "is_trigger_state st"
    and "is_trigger_state (with_field ''nextRunAt'' (JNum n) st) \<and> advances st (with_field ''nextRunAt'' (JNum n) st)"
    and "is_trigger_state (with_field ''status'' (JStr ''done'') st) \<and> advances st (with_field ''status'' (JStr ''done'') st)"
    and "is_trigger_state (with_field ''status'' (JStr ''failed'') (with_field ''attempts'' (JNum (js_int (js_field ''attempts'' st) + 1)) st))
       \<and> advances st (with_field ''status'' (JStr ''failed'') (with_field ''attempts'' (JNum (js_int (js_field ''attempts'' st) + 1)) st))"
    and "is_trigger_state (with_field ''nextRunAt'' (JNum n) (with_field ''attempts'' (JNum (js_int (js_field ''attempts'' st) + 1)) st))
       \<and> advances st (with_field ''nextRunAt'' (JNum n) (with_field ''attempts'' (JNum (js_int (js_field ''attempts'' st) + 1)) st))"
    and "is_number v \<Longrightarrow> is_trigger_state (TriggerState v 0 (js_int (js_field ''fireCount'' st) + 1) ''pending'' None)
       \<and> advances st (TriggerState v 0 (js_int (js_field ''fireCount'' st) + 1) ''pending'' None)"
proof -
  obtain n0 a f m where st: "st = TriggerState n0 a f ''pending'' m" "is_number n0"
    using assms by (auto simp: due_state_def is_trigger_state_def)
  have num: "is_number (JNum k)" for k by (simp add: is_number_def)
  show "is_trigger_state st"
    "is_trigger_state (with_field ''nextRunAt'' (JNum n) st) \<and> advances st (with_field ''nextRunAt'' (JNum n) st)"
    "is_trigger_state (with_field ''status'' (JStr ''done'') st) \<and> advances st (with_field ''status'' (JStr ''done'') st)"
    "is_trigger_state (with_field ''status'' (JStr ''failed'') (with_field ''attempts'' (JNum (js_int (js_field ''attempts'' st) + 1)) st))
       \<and> advances st (with_field ''status'' (JStr ''failed'') (with_field ''attempts'' (JNum (js_int (js_field ''attempts'' st) + 1)) st))"
    "is_trigger_state (with_field ''nextRunAt'' (JNum n) (with_field ''attempts'' (JNum (js_int (js_field ''attempts'' st) + 1)) st))
       \<and> advances st (with_field ''nextRunAt'' (JNum n) (with_field ''attempts'' (JNum (js_int (js_field ''attempts'' st) + 1)) st))"
    "is_number v \<Longrightarrow> is_trigger_state (TriggerState v 0 (js_int (js_field ''fireCount'' st) + 1) ''pending'' None)
       \<and> advances st (TriggerState v 0 (js_int (js_field ''fireCount'' st) + 1) ''pending'' None)"
    using st(2) num unfolding st(1) is_trigger_state_def by (auto simp: advances_def) blast+
qed

lemma calls_in_poll_fire:
  assumes J: "has_putIfMatch J" and due: "j = i \<Longrightarrow> due_state st"
  shows "calls_in (trigger_calls i) (poll_fire J o1 now j def st r out)"
proof -
  note commits = calls_in_commit [OF J, of j i st] due_state_moves [OF due]
  have failed: "calls_in (trigger_calls i) (fire_failed J o1 now j def st r e out)" for e
    by (auto simp: fire_failed_def Let_def intro!: calls_in_bindp calls_in_seqp commits)
  have nxt: "calls_in (trigger_calls i) (bindp (liftp (computeNext def p now)) (\<lambda>v.
      bindp (commit J j st (TriggerState v 0 (js_int (js_field ''fireCount'' st) + 1) ''pending'' None)) k))"
    if "\<And>b. calls_in (trigger_calls i) (k b)" for p k
    by (cases "computeNext def p now") (auto dest!: computeNext_number intro!: calls_in_bindp commits that)
  have fine: "calls_in (trigger_calls i) (fire_done J o1 now j def st res out)" for res
    unfolding fire_done_def by (rule calls_in_bindp, simp) (auto intro!: calls_in_bindp [of _ "commit _ _ _ _"] nxt commits)
  have run: "calls_in (trigger_calls i) (run_trigger o1 def r)"
    by (auto simp: run_trigger_def intro!: calls_in_bindp)
  show ?thesis
    unfolding poll_fire_def
    by (auto intro!: calls_in_bindp calls_in_seqp calls_in_outcome commits failed fine run split: sum.split)
qed

lemma acquire_returns: "results (acquireRunLock J r ow ttl now) (\<lambda>x. case x of Inr (Some l) \<Rightarrow> lock_runId l = r | _ \<Rightarrow> True)"
  by (auto simp: acquireRunLock_def Let_def mkLock_def intro!: results_always split: sum.split option.split)

lemma trigger_state_of_time: "is_trigger_state (TriggerState (JNum n) a f s m)"
  unfolding is_trigger_state_def by (intro exI conjI) (rule refl, simp add: is_number_def)

lemma cas_wp_poll_item:
  assumes "has_putIfMatch J" and "\<not> suffix '':fire:lock'' i"
  shows "cas_wp is_trigger_state advances (STATE i) (poll_item J o1 now out dkey)"
proof -
  define j where "j = drop (length ''sched:def:'') dkey"
  have rest: "wp (cas_resp is_trigger_state (STATE i)) (cas_allowed is_trigger_state advances (STATE i)) (\<lambda>_ _ _. ())
      (bindp (acquireRunLock J (FIRE_LOCK (trigger_run j t)) ow ttl (Some now)) (\<lambda>lock.
          case lock of None \<Rightarrow> Ret x | Some l \<Rightarrow> finallyp (poll_fire J o1 now j def st (trigger_run j t) out) (lock_release J l))) () (\<lambda>_ _. True)"
    if due: "j = i \<Longrightarrow> due_state st" for t ow ttl x def st
  proof -
    have k: "lockKey (FIRE_LOCK (trigger_run j t)) \<noteq> STATE i" unfolding trigger_run_def by (rule lock_key_apart [OF assms(2)])
    show ?thesis
      unfolding wp_bindp
      by (rule wp_mono [OF cas_wp_results [OF calls_in_acquire [OF k] acquire_returns]])
         (use k in \<open>auto intro!: cas_wp_calls_in calls_in_finallyp calls_in_poll_fire assms(1) due calls_in_release split: sum.splits option.splits\<close>)
  qed
  show ?thesis
    unfolding poll_item_def Let_def j_def [symmetric] wp_get_bind
    by (auto simp: cas_resp_def due_state_def intro!: rest split: sum.split)
qed

lemma cas_wp_pollScheduler:
  assumes "has_putIfMatch J" and "\<not> suffix '':fire:lock'' i"
  shows "cas_wp is_trigger_state advances (STATE i) (pollScheduler J scope sv o1 now)"
  unfolding pollScheduler_def wp_seqp wp_liftp
  by (auto simp: wp_bindp listKeys_def wp_callp intro!: cas_wp_foldp cas_wp_poll_item assms split: sum.split)

section \<open>Properties\<close>


definition plain_poll :: poll_opts where
  "plain_poll = \<lparr>po_owner = ''p'', po_retryMs = 30000, po_lockTtlMs = 60000, po_budgetGuard = False, po_runnerForOrg = (\<lambda>_. False), po_atLock = (\<lambda>_. False)\<rparr>"

definition system_owner :: TriggerOwner where
  "system_owner = \<lparr>to_resourceId = None, to_orgId = None, to_staff = False\<rparr>"

definition every_minute :: js where
  "every_minute = TriggerDef ''report'' JNull ''every'' (JNum 60000) 5 ''skip'' system_owner"

definition poll_world :: world where
  "poll_world = new_world\<lparr>journal := mem_put 0 (STATE ''t'') (TriggerState (JNum 60000) 0 0 ''pending'' None) (mem_put 0 (DEF ''t'') every_minute empty_journal)\<rparr>"

definition ok_env :: env where "ok_env = (\<lambda>_ _ _. Inr (JObj []))"

text \<open>A poller that has run an occurrence and is about to commit its result.\<close>

definition late_commit :: "PollResult prog" where
  "late_commit = bindp (commit full_caps ''t'' (TriggerState (JNum 60000) 0 0 ''pending'' None) (TriggerState (JNum 120000) 0 1 ''pending'' None)) (\<lambda>_. Ret no_poll)"


subsection \<open>A trigger without a next time\<close>

lemma drop_DEF: "drop (length ''sched:def:'') (DEF i) = i"
  by (simp add: DEF_def)

lemma release_returns: "\<exists>w'. run env (lock_release J l) w = (Inr (), w')"
  by (auto simp: lock_release_def prog_simps split: prod.split sum.split)

lemma acquire_free:
  assumes "has_putIfAbsent J" and "map_of (store (journal w)) (lockKey r) = None"
  shows "\<exists>l w'. run env (acquireRunLock J r ow ttl (Some now)) w = (Inr (Some l), w') \<and> lock_runId l = r"
  using assms by (auto simp: acquireRunLock_def Let_def prog_simps claim_def mem_putIfAbsent_def domIff mkLock_def)

lemma keeps_claim: "K \<noteq> k \<Longrightarrow> calls_in (keeps k) (claim J K v)"
  by (auto simp: claim_def intro!: calls_in_bindp calls_in_seqp)

lemma keeps_acquire: "K \<noteq> lockKey r \<Longrightarrow> calls_in (keeps K) (acquireRunLock J r ow ttl (Some now))"
  by (auto simp: acquireRunLock_def Let_def keeps_claim intro!: calls_in_bindp calls_in_seqp)

lemma keeps_release: "K \<noteq> lockKey (lock_runId l) \<Longrightarrow> calls_in (keeps K) (lock_release J l)"
proof -
  assume k: "K \<noteq> lockKey (lock_runId l)"
  have "calls_in (keeps K) (release_attempts J l n)" for n
    by (induction n) (use k in \<open>auto simp: Let_def intro!: calls_in_bindp\<close>)
  then show ?thesis by (auto simp: lock_release_def)
qed

text \<open>The occurrence has run, but its successor cannot be computed: nothing is written and the error leaves the poll.\<close>

lemma poll_fire_no_next:
  assumes "\<not> po_budgetGuard o1" and "js_field ''orgId'' def = JUndef" and "callerOfTrigger def = Inr c"
    and "\<And>h a. env h ''runWorkflow'' a = Inr (JObj kvs)" and "\<not> js_truthy (js_field ''suspended'' (JObj kvs))"
    and "js_field ''kind'' def \<noteq> JStr ''at''" and "computeNext def (js_int (js_field ''nextRunAt'' st)) now = Inl e"
  shows "\<exists>w'. run env (poll_fire J o1 now i def st r out) w = (Inl e, w') \<and> journal w' = journal w"
  using assms by (simp add: poll_fire_def prog_simps run_outcome run_trigger_def fire_done_def propp_def ext_def)


text \<open>The definition a refused \<open>scheduleWorkflow\<close> leaves behind, with the state a corrected second call gives it.\<close>

definition minute_61 :: js where
  "minute_61 = TriggerDef ''report'' JNull ''cron'' (JStr ''61 * * * *'') 5 ''skip'' system_owner"

definition stuck_world :: world where
  "stuck_world = new_world\<lparr>journal := mem_put 0 (STATE ''u'') (TriggerState (JNum 60000) 0 0 ''pending'' None) (mem_put 0 (DEF ''u'') every_minute
     (mem_put 0 (STATE ''t'') (TriggerState (JNum 60000) 0 0 ''pending'' None) (mem_put 0 (DEF ''t'') minute_61 empty_journal)))\<rparr>"


end
