(* ===== verification/WorkStore.thy ===== *)
theory WorkStore
  imports Journal Calls
begin

text \<open>
  The work store of the queue and of the event bus: \<open>InMemoryWorkStore\<close> of \<open>packages/durable/src/in-memory-storage.ts\<close>, append-only logs by
  namespace and a map of markers. The port is \<open>interface WorkStore\<close> of \<open>storage.ts\<close>; its calls are \<open>wop\<close>. The counter \<open>idc\<close> of the module is kept
  in the store's record.
\<close>

section \<open>Definitions\<close>

record LogRecord =
  lr_id :: string
  lr_payload :: js
  lr_ts :: int

record InMemoryWorkStore =
  logs :: "(LogRecord list) js_map"
  kv :: "js js_map"
  idc :: nat

definition empty_work :: InMemoryWorkStore where
  "empty_work = \<lparr>logs = [], kv = [], idc = 0\<rparr>"

text \<open>\<open>n.toString(36)\<close>\<close>

definition digit36 :: "nat \<Rightarrow> char" where
  "digit36 d = (if d < 10 then char_of (48 + d) else char_of (87 + d))"

fun show36 :: "nat \<Rightarrow> string" where
  "show36 n = (if n < 36 then [digit36 n] else show36 (n div 36) @ [digit36 (n mod 36)])"

declare show36.simps [simp del]

definition genId :: "string \<Rightarrow> int \<Rightarrow> nat \<Rightarrow> string" where
  "genId pre now n = pre @ ''-'' @ show36 (nat now) @ ''-'' @ show36 n"

definition log_of :: "string \<Rightarrow> InMemoryWorkStore \<Rightarrow> LogRecord list" where
  "log_of ns s = (case map_of (logs s) ns of Some l \<Rightarrow> l | None \<Rightarrow> [])"

definition ws_append :: "int \<Rightarrow> string \<Rightarrow> js \<Rightarrow> string option \<Rightarrow> InMemoryWorkStore \<Rightarrow> string \<times> InMemoryWorkStore" where
  "ws_append now ns payload i s =
     (let eid = (case i of Some e \<Rightarrow> e | None \<Rightarrow> genId ns now (idc s));
          s1 = (case i of Some e \<Rightarrow> s | None \<Rightarrow> s\<lparr>idc := idc s + 1\<rparr>) in
      if eid \<in> lr_id ` set (log_of ns s) then (eid, s1)
      else (eid, s1\<lparr>logs := js_set ns (log_of ns s @ [\<lparr>lr_id = eid, lr_payload = payload, lr_ts = now\<rparr>]) (logs s)\<rparr>))"

text \<open>\<open>paginate\<close>: the records of a page and the cursor of the next one. The cursor is a position in the list.\<close>

definition paginate :: "'a list \<Rightarrow> string option \<Rightarrow> nat option \<Rightarrow> 'a list \<times> string option" where
  "paginate items cursor limit =
     (let start = cursor_start cursor; lim = (case limit of None \<Rightarrow> 50 | Some n \<Rightarrow> n); nxt = start + lim in
      (take lim (drop start items), if nxt < length items then Some (show_nat nxt) else None))"

definition ws_list :: "string \<Rightarrow> string option \<Rightarrow> nat option \<Rightarrow> InMemoryWorkStore \<Rightarrow> LogRecord list \<times> string option" where
  "ws_list ns cursor limit s = paginate (log_of ns s) cursor limit"

definition ws_get :: "key \<Rightarrow> InMemoryWorkStore \<Rightarrow> js" where
  "ws_get k s = (case map_of (kv s) k of Some v \<Rightarrow> v | None \<Rightarrow> JUndef)"

definition ws_put :: "key \<Rightarrow> js \<Rightarrow> InMemoryWorkStore \<Rightarrow> InMemoryWorkStore" where
  "ws_put k v s = s\<lparr>kv := js_set k v (kv s)\<rparr>"

definition ws_ackOnce :: "key \<Rightarrow> InMemoryWorkStore \<Rightarrow> bool \<times> InMemoryWorkStore" where
  "ws_ackOnce k s = (if js_has (kv s) k then (False, s) else (True, ws_put k (JBool True) s))"

definition ws_deleteIdPrefix :: "string \<Rightarrow> InMemoryWorkStore \<Rightarrow> nat \<times> InMemoryWorkStore" where
  "ws_deleteIdPrefix p s =
     (sum_list (map (\<lambda>(ns, l). length (filter (\<lambda>r. prefix p (lr_id r)) l)) (logs s)),
      s\<lparr>logs := map (\<lambda>(ns, l). (ns, filter (\<lambda>r. \<not> prefix p (lr_id r)) l)) (logs s)\<rparr>)"

definition ws_deletePrefix :: "string \<Rightarrow> InMemoryWorkStore \<Rightarrow> nat \<times> InMemoryWorkStore" where
  "ws_deletePrefix p s =
     (sum_list (map (\<lambda>(ns, l). if prefix p ns then length l else 0) (logs s)) + length (filter (\<lambda>(k, v). prefix p k) (kv s)),
      s\<lparr>logs := filter (\<lambda>(ns, l). \<not> prefix p ns) (logs s), kv := filter (\<lambda>(k, v). \<not> prefix p k) (kv s)\<rparr>)"

definition ws_putIfMatch :: "key \<Rightarrow> js \<Rightarrow> js \<Rightarrow> InMemoryWorkStore \<Rightarrow> bool \<times> InMemoryWorkStore" where
  "ws_putIfMatch k expected v s =
     (if \<not> js_has (kv s) k then (False, s)
      else if stableStringify (ws_get k s) \<noteq> stableStringify expected then (False, s)
      else (True, ws_put k v s))"

subsection \<open>The calls of the port\<close>

datatype wop =
    WAppend string js "string option"
  | WList string "string option"
  | WGet key
  | WPut key js
  | WAckOnce key
  | WPutIfMatch key js js
  | WDeletePrefix string
  | WDeleteIdPrefix string

definition js_log_record :: "LogRecord \<Rightarrow> js" where
  "js_log_record r = JObj [(''id'', JStr (lr_id r)), (''payload'', lr_payload r), (''ts'', JNum (lr_ts r))]"

definition js_cursor :: "string option \<Rightarrow> js" where
  "js_cursor c = (case c of None \<Rightarrow> JUndef | Some s \<Rightarrow> JStr s)"

definition js_page :: "LogRecord list \<times> string option \<Rightarrow> js" where
  "js_page p = JObj [(''items'', JArr (map js_log_record (fst p))), (''nextCursor'', js_cursor (snd p))]"

fun work_op :: "int \<Rightarrow> wop \<Rightarrow> InMemoryWorkStore \<Rightarrow> js \<times> InMemoryWorkStore" where
  "work_op now (WAppend ns payload i) s = map_prod JStr id (ws_append now ns payload i s)"
| "work_op now (WList ns cursor) s = (js_page (ws_list ns cursor None s), s)"
| "work_op now (WGet k) s = (ws_get k s, s)"
| "work_op now (WPut k v) s = (JUndef, ws_put k v s)"
| "work_op now (WAckOnce k) s = map_prod JBool id (ws_ackOnce k s)"
| "work_op now (WPutIfMatch k e v) s = map_prod JBool id (ws_putIfMatch k e v s)"
| "work_op now (WDeletePrefix p) s = map_prod (\<lambda>n. JNum (int n)) id (ws_deletePrefix p s)"
| "work_op now (WDeleteIdPrefix p) s = map_prod (\<lambda>n. JNum (int n)) id (ws_deleteIdPrefix p s)"

text \<open>What the callers read from a page.\<close>

fun js_items :: "js \<Rightarrow> js list" where
  "js_items (JArr xs) = xs"
| "js_items _ = []"

fun cursor_of :: "js \<Rightarrow> string option" where
  "cursor_of (JStr s) = Some s"
| "cursor_of _ = None"

section \<open>Lemmas\<close>

lemma log_of_simps [simp]:
  "log_of ns (ws_put k v s) = log_of ns s" "log_of ns empty_work = []" "log_of ns (s\<lparr>idc := n\<rparr>) = log_of ns s" "log_of ns (s\<lparr>kv := m\<rparr>) = log_of ns s"
  by (simp_all add: log_of_def ws_put_def empty_work_def)

lemma log_of_append:
  "log_of m (snd (ws_append now ns payload i s)) =
     (if m = ns \<and> fst (ws_append now ns payload i s) \<notin> lr_id ` set (log_of ns s)
      then log_of ns s @ [\<lparr>lr_id = fst (ws_append now ns payload i s), lr_payload = payload, lr_ts = now\<rparr>] else log_of m s)"
  by (auto simp: ws_append_def Let_def log_of_def map_of_js_set split: option.splits)

lemma ws_get_simps [simp]:
  "ws_get k (ws_put k' v s) = (if k = k' then v else ws_get k s)" "ws_get k empty_work = JUndef"
  "ws_get k (snd (ws_append now ns payload i s)) = ws_get k s"
  by (auto simp: ws_get_def ws_put_def map_of_js_set empty_work_def ws_append_def Let_def split: option.splits)

lemma js_page_simps [simp]:
  "js_items (js_field ''items'' (js_page p)) = map js_log_record (fst p)"
  "cursor_of (js_field ''nextCursor'' (js_page p)) = snd p"
  by (simp_all add: js_page_def js_cursor_def split: option.split)

lemma js_log_record_simps [simp]:
  "js_field ''id'' (js_log_record r) = JStr (lr_id r)" "js_field ''payload'' (js_log_record r) = lr_payload r"
  by (simp_all add: js_log_record_def)

lemma paginate_none [simp]:
  "fst (paginate items c None) = take 50 (drop (cursor_start c) items)"
  "snd (paginate items c None) = (if cursor_start c + 50 < length items then Some (show_nat (cursor_start c + 50)) else None)"
  by (simp_all add: paginate_def Let_def)

lemma map_of_kept: "map_of (filter (\<lambda>(k, v). \<not> prefix p k) m) k = (if prefix p k then None else map_of m k)"
  by (induction m) auto

lemma deletePrefix_reads:
  "log_of ns (snd (ws_deletePrefix p s)) = (if prefix p ns then [] else log_of ns s)"
  "ws_get k (snd (ws_deletePrefix p s)) = (if prefix p k then JUndef else ws_get k s)"
  by (simp_all add: ws_deletePrefix_def log_of_def ws_get_def map_of_kept)

lemma log_of_deleteIdPrefix: "log_of ns (snd (ws_deleteIdPrefix p s)) = filter (\<lambda>r. \<not> prefix p (lr_id r)) (log_of ns s)"
proof -
  have "map_of (map (\<lambda>(ns, l). (ns, filter (\<lambda>r. \<not> prefix p (lr_id r)) l)) m) ns = map_option (filter (\<lambda>r. \<not> prefix p (lr_id r))) (map_of m ns)" for m
    by (induction m) auto
  from this [of "logs s"] show ?thesis by (simp add: ws_deleteIdPrefix_def log_of_def split: option.splits)
qed

lemma ws_get_deleteIdPrefix [simp]: "ws_get k (snd (ws_deleteIdPrefix p s)) = ws_get k s"
  by (simp add: ws_deleteIdPrefix_def ws_get_def)

text \<open>A record of the store is never lost by the calls that do not delete.\<close>

lemma log_extends:
  assumes "\<forall>p. c \<noteq> WDeletePrefix p" and "\<forall>p. c \<noteq> WDeleteIdPrefix p"
  shows "prefix (log_of ns s) (log_of ns (snd (work_op now c s)))"
  using assms by (cases c) (auto simp: log_of_append ws_ackOnce_def ws_putIfMatch_def)

lemma distinct_ids_append:
  "distinct (map lr_id (log_of ns s)) \<Longrightarrow> distinct (map lr_id (log_of ns (snd (ws_append now m payload i s))))"
  by (auto simp: log_of_append)

end
