(* ===== verification/WorkProg.thy ===== *)
theory WorkProg
  imports Protocol WorkStore
begin

text \<open>
  Programs over a storage: calls of the run journal and calls of the work store. The world is that of the journal with a work store beside it; the
  answers of a work-store call in an interleaved run are those of a journal call: it works, or throws without effect, or takes effect and throws.
\<close>

section \<open>Definitions\<close>

datatype sop = Runs jop | Work wop

type_synonym 'a sprog = "(sop, 'a) calls"

record sworld =
  base :: world
  work :: InMemoryWorkStore

definition new_sworld :: sworld where
  "new_sworld = \<lparr>base = new_world, work = empty_work\<rparr>"

inductive sanswer :: "sop \<Rightarrow> sworld \<Rightarrow> err + js \<Rightarrow> sworld \<Rightarrow> bool" where
  sa_runs: "answer c (base w) r b \<Longrightarrow> sanswer (Runs c) w r (w\<lparr>base := b\<rparr>)"
| sa_ok: "work_op (clock (base w)) c (work w) = (r, s) \<Longrightarrow> sanswer (Work c) w (Inr r) (w\<lparr>work := s\<rparr>)"
| sa_down: "sanswer (Work c) w (Inl e) w"
| sa_lost: "work_op (clock (base w)) c (work w) = (r, s) \<Longrightarrow> sanswer (Work c) w (Inl e) (w\<lparr>work := s\<rparr>)"

definition spasses :: "sworld \<Rightarrow> sworld \<Rightarrow> bool" where
  "spasses w w' \<longleftrightarrow> (\<exists>b. passes (base w) b \<and> w' = w\<lparr>base := b\<rparr>)"

type_synonym 'a sconfig = "(sworld, sop, 'a) gconfig"

abbreviation sstep :: "'a sprog set \<Rightarrow> 'a sconfig \<Rightarrow> 'a sconfig \<Rightarrow> bool" where
  "sstep S \<equiv> gstep sanswer spasses S"

abbreviation sreach :: "'a sprog set \<Rightarrow> sworld \<Rightarrow> 'a sconfig \<Rightarrow> bool" where
  "sreach S w \<equiv> greach sanswer spasses S w"

fun sexec :: "env \<Rightarrow> sop \<Rightarrow> sworld \<Rightarrow> (err + js) \<times> sworld" where
  "sexec env (Runs c) w = (case exec_op env c (base w) of (r, b) \<Rightarrow> (r, w\<lparr>base := b\<rparr>))"
| "sexec env (Work c) w = (case work_op (clock (base w)) c (work w) of (r, s) \<Rightarrow> (Inr r, w\<lparr>work := s\<rparr>))"

abbreviation srun :: "env \<Rightarrow> 'a sprog \<Rightarrow> sworld \<Rightarrow> (err + 'a) \<times> sworld" where
  "srun env \<equiv> grun (sexec env)"

text \<open>Code of the durable package, handed the run journal of a storage.\<close>

definition on_runs :: "'a prog \<Rightarrow> 'a sprog" where
  "on_runs p = map_calls Runs id p"

definition wget :: "key \<Rightarrow> js sprog" where "wget k = callp (Work (WGet k))"
definition wput :: "key \<Rightarrow> js \<Rightarrow> unit sprog" where "wput k v = bindp (callp (Work (WPut k v))) (\<lambda>_. Ret ())"
definition wputIfMatch :: "key \<Rightarrow> js \<Rightarrow> js \<Rightarrow> bool sprog" where
  "wputIfMatch k e v = bindp (callp (Work (WPutIfMatch k e v))) (\<lambda>r. Ret (js_truthy r))"
definition wappend :: "string \<Rightarrow> js \<Rightarrow> string option \<Rightarrow> string sprog" where
  "wappend ns payload i = bindp (callp (Work (WAppend ns payload i))) (\<lambda>r. Ret (js_string r))"
definition wlist :: "string \<Rightarrow> string option \<Rightarrow> (js list \<times> string option) sprog" where
  "wlist ns cursor = bindp (callp (Work (WList ns cursor))) (\<lambda>r. Ret (js_items (js_field ''items'' r), cursor_of (js_field ''nextCursor'' r)))"
definition wackOnce :: "key \<Rightarrow> bool sprog" where "wackOnce k = bindp (callp (Work (WAckOnce k))) (\<lambda>r. Ret (js_truthy r))"
definition wdeletePrefix :: "string \<Rightarrow> int sprog" where "wdeletePrefix p = bindp (callp (Work (WDeletePrefix p))) (\<lambda>r. Ret (js_int r))"
definition wdeleteIdPrefix :: "string \<Rightarrow> int sprog" where "wdeleteIdPrefix p = bindp (callp (Work (WDeleteIdPrefix p))) (\<lambda>r. Ret (js_int r))"

inductive_cases sanswer_RunsE: "sanswer (Runs c) w r w'"
inductive_cases sanswer_WorkE: "sanswer (Work c) w r w'"
inductive_simps sanswer_Runs: "sanswer (Runs c) w r w'"
inductive_simps sanswer_Work: "sanswer (Work c) w r w'"

section \<open>Laws\<close>

lemma on_runs_simps [simp]: "on_runs (Ret x) = Ret x" "on_runs (Raise e) = Raise e" "on_runs (Op c k) = Op (Runs c) (\<lambda>r. on_runs (k r))"
  by (simp_all add: on_runs_def o_def)

lemma srun_on_runs [prog_simps]: "srun env (on_runs p) w = (case run env p (base w) of (r, b) \<Rightarrow> (r, w\<lparr>base := b\<rparr>))"
proof (induction p arbitrary: w)
  case (Op c k)
  then show ?case by (auto split: prod.splits)
qed simp_all

lemma calls_in_on_runs [simp]: "calls_in P (on_runs p) \<longleftrightarrow> calls_in (\<lambda>c. P (Runs c)) p"
  by (induction p) auto

lemma calls_in_work [simp]:
  "calls_in P (wget k) \<longleftrightarrow> P (Work (WGet k))" "P (Work (WPut k v)) \<Longrightarrow> calls_in P (wput k v)"
  "P (Work (WPutIfMatch k e v)) \<Longrightarrow> calls_in P (wputIfMatch k e v)" "P (Work (WAppend ns payload i)) \<Longrightarrow> calls_in P (wappend ns payload i)"
  "P (Work (WList ns c)) \<Longrightarrow> calls_in P (wlist ns c)" "P (Work (WAckOnce k)) \<Longrightarrow> calls_in P (wackOnce k)"
  "P (Work (WDeletePrefix p)) \<Longrightarrow> calls_in P (wdeletePrefix p)" "P (Work (WDeleteIdPrefix p)) \<Longrightarrow> calls_in P (wdeleteIdPrefix p)"
  by (simp_all add: wget_def wput_def wputIfMatch_def wappend_def wlist_def wackOnce_def wdeletePrefix_def wdeleteIdPrefix_def calls_in_bindp)

lemma srun_work [prog_simps]:
  "srun env (wget k) w = (Inr (ws_get k (work w)), w)"
  "srun env (wput k v) w = (Inr (), w\<lparr>work := ws_put k v (work w)\<rparr>)"
  "srun env (wputIfMatch k e v) w = (case ws_putIfMatch k e v (work w) of (b, s) \<Rightarrow> (Inr b, w\<lparr>work := s\<rparr>))"
  "srun env (wappend ns payload i) w = (case ws_append (clock (base w)) ns payload i (work w) of (e, s) \<Rightarrow> (Inr e, w\<lparr>work := s\<rparr>))"
  "srun env (wlist ns c) w = (Inr (map_prod (map js_log_record) id (ws_list ns c None (work w))), w)"
  "srun env (wackOnce k) w = (case ws_ackOnce k (work w) of (b, s) \<Rightarrow> (Inr b, w\<lparr>work := s\<rparr>))"
  "srun env (wdeletePrefix p) w = (case ws_deletePrefix p (work w) of (n, s) \<Rightarrow> (Inr (int n), w\<lparr>work := s\<rparr>))"
  "srun env (wdeleteIdPrefix p) w = (case ws_deleteIdPrefix p (work w) of (n, s) \<Rightarrow> (Inr (int n), w\<lparr>work := s\<rparr>))"
  by (simp_all add: wget_def wput_def wputIfMatch_def wappend_def wlist_def wackOnce_def wdeletePrefix_def wdeleteIdPrefix_def
      prog_simps map_prod_def split: prod.split)

lemma sexec_sanswer: "sexec env c w = (r, w') \<Longrightarrow> sanswer c w r w'"
  by (cases c) (auto simp: exec_op_answer intro: sanswer.intros split: prod.splits)

lemma srun_solo: "p \<in> S \<Longrightarrow> srun env p w = (r, w') \<Longrightarrow> sreach S w (gsolo w' (gfinished r))"
  by (rule grun_solo [where ans = sanswer, OF sexec_sanswer])

lemma srun_clock: "clock (base (snd (srun env p w))) = clock (base w)"
proof (induction p arbitrary: w)
  case (Op c k)
  have "clock (base (snd (sexec env c w))) = clock (base w)"
  proof (cases c)
    case (Runs x)
    then show ?thesis by (cases x) (auto split: prod.splits)
  qed (auto split: prod.splits)
  then show ?case using Op by (auto split: prod.splits)
qed simp_all

end
