(* ===== verification/Queue.thy ===== *)
theory Queue
  imports Scheduler WorkProg
begin

text \<open>
  The job queue (\<open>packages/queue/src/index.ts\<close>): jobs are records of the log \<open>qjob\<close> of the work store, their progress is in markers beside it, and
  any number of workers scan the log and run what is neither done nor dead. Handlers and \<open>onError\<close> are outside code. The heartbeat of
  a worker is a concurrent program; what it has found out when a worker asks (\<open>lockLost\<close>) is an answer from outside. The loops over pages run on fuel.
\<close>

section \<open>Definitions\<close>

subsection \<open>Jobs and owners\<close>

type_synonym JobOwner = TriggerOwner

record EnqueueOptions =
  eo_id :: "string option"
  eo_maxDepth :: "int option"
  eo_caller :: "Caller option"
  eo_resourceId :: "string option"
  eo_orgId :: "string option"

definition no_options :: EnqueueOptions where
  "no_options = \<lparr>eo_id = None, eo_maxDepth = None, eo_caller = None, eo_resourceId = None, eo_orgId = None\<rparr>"

definition JobRecord :: "string \<Rightarrow> js \<Rightarrow> JobOwner \<Rightarrow> js" where
  "JobRecord type payload ow = JObj ([(''type'', JStr type), (''payload'', payload)] @ owner_fields ow)"

definition callerOfJob :: "js \<Rightarrow> err + Caller" where
  "callerOfJob rec =
     (let org = opt_string (js_field ''orgId'' rec) in
      case js_field ''resourceId'' rec of
        JStr r \<Rightarrow> if r \<noteq> [] then user r org
                  else if js_field ''ownerKind'' rec = JStr ''staff'' then Inr (staff org) else Inr UNKNOWN
      | _ \<Rightarrow> if js_field ''ownerKind'' rec = JStr ''staff'' then Inr (staff org) else Inr UNKNOWN)"

definition ownerOptionsOf :: "js \<Rightarrow> EnqueueOptions" where
  "ownerOptionsOf rec = no_options\<lparr>eo_resourceId := opt_string (js_field ''resourceId'' rec), eo_orgId := opt_string (js_field ''orgId'' rec),
     eo_caller := (if js_field ''ownerKind'' rec = JStr ''staff'' then Some (staff (opt_string (js_field ''orgId'' rec))) else None)\<rparr>"

definition jobOwnerOf :: "EnqueueOptions \<Rightarrow> err + JobOwner" where
  "jobOwnerOf opts =
     (let c = eo_caller opts; res = eo_resourceId opts; org = eo_orgId opts in
      if c \<noteq> None \<and> ((res \<noteq> None \<and> res \<noteq> caller_res c) \<or> (org \<noteq> None \<and> caller_org c \<noteq> None \<and> org \<noteq> caller_org c))
      then Inl (Err ''TypeError'' ''one owner per job'')
      else Inr \<lparr>to_resourceId = nullish (caller_res c) res, to_orgId = nullish (caller_org c) org,
                to_staff = (case c of Some (StaffCaller _) \<Rightarrow> True | _ \<Rightarrow> False)\<rparr>)"

definition depthNs :: "string option \<Rightarrow> string" where
  "depthNs orgId = (case orgId of None \<Rightarrow> ''qdepth'' | Some og \<Rightarrow> ''org:'' @ og @ '':qdepth'')"

definition QDONE :: "string \<Rightarrow> key" where "QDONE i = ''qdone:'' @ i"
definition QFAIL :: "string \<Rightarrow> key" where "QFAIL i = ''qfail:'' @ i"
definition QATT :: "string \<Rightarrow> key" where "QATT i = ''qatt:'' @ i"
definition QOWN :: "string \<Rightarrow> key" where "QOWN i = ''qown:'' @ i"
definition QCURSOR :: key where "QCURSOR = ''qcursor''"
definition job_run :: "string \<Rightarrow> string" where "job_run i = ''job:'' @ i"
definition job_lease :: "string \<Rightarrow> string" where "job_lease i = job_run i @ '':lease''"

definition out_of_fuel :: err where "out_of_fuel = Err ''OutOfFuel'' ''queue''"

subsection \<open>Enqueueing\<close>

primrec countUpTo :: "nat \<Rightarrow> string \<Rightarrow> int \<Rightarrow> int \<Rightarrow> string option \<Rightarrow> int sprog" where
  "countUpTo 0 ns limit cnt cursor = Raise out_of_fuel"
| "countUpTo (Suc n) ns limit cnt cursor =
     bindp (wlist ns cursor) (\<lambda>(items, nxt).
       let cnt = cnt + int (length items) in
       if cnt \<ge> limit \<or> nxt = None then Ret cnt else countUpTo n ns limit cnt nxt)"

text \<open>\<open>scope\<close> is \<open>orgStorageScopeOf(work)\<close>.\<close>

definition enqueue :: "nat \<Rightarrow> string option \<Rightarrow> string \<Rightarrow> js \<Rightarrow> EnqueueOptions \<Rightarrow> string sprog" where
  "enqueue fuel scope type payload opts =
     bindp (liftp (jobOwnerOf opts)) (\<lambda>ow.
     seqp (case scope of Some og \<Rightarrow> Raise (Err ''Error'' og) | None \<Rightarrow> Ret ())
     (seqp (case to_orgId ow of None \<Rightarrow> Ret () | Some og \<Rightarrow> bindp (liftp (orgPrefix og)) (\<lambda>_. Ret ()))
     (seqp (if to_resourceId ow = Some [] then Raise (Err ''Error'' ''invalid resourceId'') else Ret ())
     (seqp (case eo_maxDepth opts of None \<Rightarrow> Ret () | Some m \<Rightarrow>
              bindp (countUpTo fuel (depthNs (to_orgId ow)) m 0 None) (\<lambda>depth.
                if depth \<ge> m then Raise (Err ''QueueDepthExceededError'' type) else Ret ()))
     (bindp (case eo_id opts of
               Some i \<Rightarrow> Ret (Some i)
             | None \<Rightarrow> if to_resourceId ow \<noteq> None \<or> to_orgId ow \<noteq> None then bindp (on_runs randomUUID) (\<lambda>u. Ret (Some u)) else Ret None) (\<lambda>name.
      bindp (case name of None \<Rightarrow> Ret None | Some nm \<Rightarrow>
               bindp (liftp (ownedName nm \<lparr>o_orgId = to_orgId ow, o_resourceId = to_resourceId ow\<rparr>)) (\<lambda>x. Ret (Some x))) (\<lambda>stored.
      bindp (wappend ''qjob'' (JobRecord type payload ow) stored) (\<lambda>i.
      seqp (bindp (wappend (depthNs (to_orgId ow)) (JObj [(''type'', JStr type)]) (Some i)) (\<lambda>_. Ret ())) (Ret i)))))))))"

subsection \<open>Reading the log\<close>

primrec listAll :: "nat \<Rightarrow> string \<Rightarrow> js list \<Rightarrow> string option \<Rightarrow> (js list) sprog" where
  "listAll 0 ns out cursor = Raise out_of_fuel"
| "listAll (Suc n) ns out cursor =
     bindp (wlist ns cursor) (\<lambda>(items, nxt). if nxt = None then Ret (out @ items) else listAll n ns (out @ items) nxt)"

record JobStatus =
  jst_id :: string
  jst_type :: js
  jst_status :: string
  jst_attempts :: int
  jst_resourceId :: "string option"
  jst_orgId :: "string option"

definition job_id :: "js \<Rightarrow> string" where "job_id j = js_string (js_field ''id'' j)"
definition job_rec :: "js \<Rightarrow> js" where "job_rec j = js_field ''payload'' j"

definition listJobs :: "nat \<Rightarrow> (JobStatus list) sprog" where
  "listJobs fuel =
     bindp (listAll fuel ''qjob'' [] None) (\<lambda>jobs.
       foldp (\<lambda>out j.
         bindp (wget (QDONE (job_id j))) (\<lambda>d.
         bindp (wget (QFAIL (job_id j))) (\<lambda>f.
         bindp (wget (QATT (job_id j))) (\<lambda>a.
           Ret (out @ [\<lparr>jst_id = job_id j, jst_type = js_field ''type'' (job_rec j),
                        jst_status = (if js_truthy d then ''done'' else if js_truthy f then ''failed'' else ''pending''),
                        jst_attempts = js_int a, jst_resourceId = opt_string (js_field ''resourceId'' (job_rec j)),
                        jst_orgId = opt_string (js_field ''orgId'' (job_rec j))\<rparr>]))))) [] jobs)"

primrec findJob :: "nat \<Rightarrow> string \<Rightarrow> string option \<Rightarrow> (js option) sprog" where
  "findJob 0 i cursor = Raise out_of_fuel"
| "findJob (Suc n) i cursor =
     bindp (wlist ''qjob'' cursor) (\<lambda>(items, nxt).
       case find (\<lambda>j. job_id j = i) items of
         Some j \<Rightarrow> Ret (Some j)
       | None \<Rightarrow> if nxt = None then Ret None else findJob n i nxt)"

definition retryJob :: "nat \<Rightarrow> string option \<Rightarrow> string \<Rightarrow> int option \<Rightarrow> (string option) sprog" where
  "retryJob fuel scope i maxDepth =
     bindp (findJob fuel i None) (\<lambda>found.
       case found of
         None \<Rightarrow> Ret None
       | Some j \<Rightarrow> bindp (wget (QFAIL i)) (\<lambda>f.
           if \<not> js_truthy f then Ret None
           else bindp (enqueue fuel scope (js_string (js_field ''type'' (job_rec j))) (js_field ''payload'' (job_rec j))
                        ((ownerOptionsOf (job_rec j))\<lparr>eo_maxDepth := maxDepth\<rparr>)) (\<lambda>x. Ret (Some x))))"

subsection \<open>The worker\<close>

record worker_opts =
  wk_owner :: string
  wk_ttlMs :: int
  wk_maxAttempts :: int
  wk_heartbeat :: bool
  wk_putIfMatch :: bool
  wk_handlers :: "string \<Rightarrow> bool"
  wk_onError :: bool

definition lockLost :: "worker_opts \<Rightarrow> string \<Rightarrow> bool sprog" where
  "lockLost o1 i =
     (if wk_heartbeat o1 then catchp (bindp (on_runs (ext ''lockLost'' (JStr i))) (\<lambda>r. Ret (js_truthy r))) (\<lambda>_. Ret False) else Ret False)"

definition stillOwns :: "worker_opts \<Rightarrow> string \<Rightarrow> RunLock \<Rightarrow> bool sprog" where
  "stillOwns o1 i l =
     bindp (lockLost o1 i) (\<lambda>lost.
       if lost then Ret False
       else if \<not> wk_putIfMatch o1 then Ret True
       else wputIfMatch (QOWN i) (JStr (lock_token l)) (JStr (lock_token l)))"

text \<open>The \<open>try\<close> block: the journal of the job is the one of its organisation.\<close>

definition job_scope :: "js \<Rightarrow> 'a prog \<Rightarrow> 'a prog" where
  "job_scope rec p = (case js_field ''orgId'' rec of JStr og \<Rightarrow> bindp (liftp (orgPrefix og)) (\<lambda>P. withOrg P p) | _ \<Rightarrow> p)"

definition handle_job :: "caps \<Rightarrow> js \<Rightarrow> js prog" where
  "handle_job J job =
     (let rec = job_rec job; runId = job_run (job_id job) in
      bindp (case js_field ''orgId'' rec of JStr og \<Rightarrow> bindp (liftp (orgPrefix og)) (\<lambda>_. Ret ()) | _ \<Rightarrow> Ret ()) (\<lambda>_.
      bindp (liftp (callerOfJob rec)) (\<lambda>caller.
      seqp (job_scope rec (claimRunOwner J False runId caller []))
        (ext ''handler'' (JObj ([(''type'', js_field ''type'' rec), (''payload'', js_field ''payload'' rec), (''jobId'', JStr (job_id job)),
           (''runId'', JStr runId), (''caller'', js_caller caller)] @ opt_field ''orgId'' (opt_string (js_field ''orgId'' rec))))))))"

definition job_try :: "caps \<Rightarrow> worker_opts \<Rightarrow> js \<Rightarrow> RunLock \<Rightarrow> unit sprog" where
  "job_try J o1 job l =
     (let i = job_id job; type = js_string (js_field ''type'' (job_rec job)) in
      if \<not> wk_handlers o1 type then
        bindp (stillOwns o1 i l) (\<lambda>own. if own then wput (QFAIL i) (JObj [(''error'', JStr (''no handler: '' @ type))]) else Ret ())
      else seqp (on_runs (handle_job J job))
        (bindp (stillOwns o1 i l) (\<lambda>own.
          if own then bindp (on_runs date_now) (\<lambda>at. wput (QDONE i) (JObj [(''at'', JNum at), (''ok'', JBool True)])) else Ret ())))"

definition job_catch :: "worker_opts \<Rightarrow> js \<Rightarrow> RunLock \<Rightarrow> err \<Rightarrow> unit sprog" where
  "job_catch o1 job l e =
     (let i = job_id job in
      seqp (bindp (stillOwns o1 i l) (\<lambda>own.
          if own then bindp (wget (QATT i)) (\<lambda>a.
            let n = js_int a + 1 in
            seqp (wput (QATT i) (JNum n))
              (if n \<ge> wk_maxAttempts o1 then wput (QFAIL i) (JObj [(''error'', JStr (err_msg e)), (''attempts'', JNum n)]) else Ret ()))
          else Ret ()))
        (if wk_onError o1 then bindp (on_runs (ext ''onError'' (JStr i))) (\<lambda>_. Ret ()) else Ret ()))"

definition process_job :: "caps \<Rightarrow> worker_opts \<Rightarrow> js \<Rightarrow> RunLock \<Rightarrow> unit sprog" where
  "process_job J o1 job l =
     seqp (if wk_putIfMatch o1 then wput (QOWN (job_id job)) (JStr (lock_token l)) else Ret ())
       (finallyp (catchp (job_try J o1 job l) (job_catch o1 job l)) (on_runs (lock_release J l)))"

text \<open>The jobs of one page: \<open>None\<close> when one was processed, otherwise \<open>allTerminal\<close>.\<close>

primrec scan_jobs :: "caps \<Rightarrow> worker_opts \<Rightarrow> js list \<Rightarrow> bool \<Rightarrow> (bool option) sprog" where
  "scan_jobs J o1 [] allTerminal = Ret (Some allTerminal)"
| "scan_jobs J o1 (job # jobs) allTerminal =
     bindp (wget (QDONE (job_id job))) (\<lambda>d.
       if js_truthy d then scan_jobs J o1 jobs allTerminal
       else bindp (wget (QFAIL (job_id job))) (\<lambda>f.
         if js_truthy f then scan_jobs J o1 jobs allTerminal
         else bindp (on_runs (acquireRunLock J (job_lease (job_id job)) (wk_owner o1) (wk_ttlMs o1) None)) (\<lambda>lock.
           case lock of
             None \<Rightarrow> scan_jobs J o1 jobs False
           | Some l \<Rightarrow> seqp (process_job J o1 job l) (Ret None))))"

primrec scan_pages :: "nat \<Rightarrow> caps \<Rightarrow> worker_opts \<Rightarrow> string option \<Rightarrow> bool sprog" where
  "scan_pages 0 J o1 cursor = Raise out_of_fuel"
| "scan_pages (Suc n) J o1 cursor =
     bindp (wlist ''qjob'' cursor) (\<lambda>(items, nxt).
     bindp (scan_jobs J o1 items True) (\<lambda>r.
       case r of
         None \<Rightarrow> Ret True
       | Some allTerminal \<Rightarrow>
           (case nxt of
              None \<Rightarrow> Ret False
            | Some c \<Rightarrow> if allTerminal then seqp (wput QCURSOR (JStr c)) (scan_pages n J o1 nxt) else scan_pages n J o1 nxt)))"

definition runOnce :: "nat \<Rightarrow> caps \<Rightarrow> worker_opts \<Rightarrow> bool sprog" where
  "runOnce fuel J o1 = bindp (wget QCURSOR) (\<lambda>c. scan_pages fuel J o1 (cursor_of c))"

primrec drain_loop :: "nat \<Rightarrow> nat \<Rightarrow> caps \<Rightarrow> worker_opts \<Rightarrow> nat \<Rightarrow> nat sprog" where
  "drain_loop 0 fuel J o1 n = Ret n"
| "drain_loop (Suc i) fuel J o1 n =
     bindp (runOnce fuel J o1) (\<lambda>again. if again then drain_loop i fuel J o1 (n + 1) else Ret n)"

definition drain_cap :: "worker_opts \<Rightarrow> nat \<Rightarrow> int" where
  "drain_cap o1 tot = int tot * (wk_maxAttempts o1 + 1) + 1"

definition drain :: "nat \<Rightarrow> caps \<Rightarrow> worker_opts \<Rightarrow> nat sprog" where
  "drain fuel J o1 =
     bindp (listAll fuel ''qjob'' [] None) (\<lambda>jobs. drain_loop (nat (drain_cap o1 (length jobs))) fuel J o1 0)"

subsection \<open>Moving and erasing\<close>

definition move_marker :: "string \<Rightarrow> string \<Rightarrow> string \<Rightarrow> unit sprog" where
  "move_marker fromId toId m =
     bindp (wget (m @ '':'' @ fromId)) (\<lambda>v.
       if v = JUndef then Ret ()
       else bindp (wget (m @ '':'' @ toId)) (\<lambda>cur. if cur = JUndef then wput (m @ '':'' @ toId) v else Ret ()))"

definition moveJob :: "nat \<Rightarrow> string option \<Rightarrow> string \<Rightarrow> EnqueueOptions \<Rightarrow> (string option) sprog" where
  "moveJob fuel scope fromId to =
     (case ownerOfName fromId of (from, _) \<Rightarrow>
      if o_resourceId from \<noteq> None \<or> o_orgId from \<noteq> None then Raise (Err ''TypeError'' fromId)
      else bindp (liftp (jobOwnerOf to)) (\<lambda>ow.
        if to_resourceId ow = None \<and> to_orgId ow = None then Raise (Err ''TypeError'' ''moveJob needs an owner'')
        else bindp (findJob fuel fromId None) (\<lambda>old.
          case old of
            None \<Rightarrow> Ret None
          | Some j \<Rightarrow>
              bindp (liftp (ownedName fromId \<lparr>o_orgId = to_orgId ow, o_resourceId = to_resourceId ow\<rparr>)) (\<lambda>toId.
              seqp (forp [''qdone'', ''qfail'', ''qatt''] (move_marker fromId toId))
              (seqp (bindp (enqueue fuel scope (js_string (js_field ''type'' (job_rec j))) (js_field ''payload'' (job_rec j))
                        (to\<lparr>eo_id := Some fromId, eo_maxDepth := None\<rparr>)) (\<lambda>_. Ret ()))
              (bindp (wget (QDONE fromId)) (\<lambda>d.
               seqp (if d \<noteq> JUndef then Ret ()
                     else bindp (wget (QFAIL fromId)) (\<lambda>f.
                       if f \<noteq> JUndef then Ret ()
                       else bindp (on_runs date_now) (\<lambda>at. wput (QDONE fromId) (JObj [(''at'', JNum at), (''movedTo'', JStr toId)]))))
                 (Ret (Some toId)))))))))"

text \<open>Which of the optional deletions the work store and the two journals have.\<close>

record erase_caps =
  ec_workScope :: "string option"
  ec_deleteIdPrefix :: bool
  ec_workDeletePrefix :: bool
  ec_runsDeletePrefix :: bool

definition jobEraser :: "erase_caps \<Rightarrow> string \<Rightarrow> string option \<Rightarrow> int sprog" where
  "jobEraser ec resourceId orgId =
     seqp (case ec_workScope ec of Some og \<Rightarrow> Raise (Err ''Error'' og) | None \<Rightarrow> Ret ())
     (if \<not> ec_deleteIdPrefix ec \<or> \<not> ec_workDeletePrefix ec then Raise (Err ''Error'' ''deleteIdPrefix'')
      else bindp (case orgId of None \<Rightarrow> Ret None | Some og \<Rightarrow> bindp (liftp (orgPrefix og)) (\<lambda>P. Ret (Some P))) (\<lambda>P.
        if \<not> ec_runsDeletePrefix ec then Raise (Err ''Error'' ''deletePrefix'')
        else bindp (liftp (ownedPrefix \<lparr>o_orgId = orgId, o_resourceId = Some resourceId\<rparr>)) (\<lambda>pre.
          bindp (wdeleteIdPrefix pre) (\<lambda>n0.
          bindp (foldp (\<lambda>n m. bindp (wdeletePrefix (m @ '':'' @ pre)) (\<lambda>k. Ret (n + k))) n0 [''qdone'', ''qfail'', ''qatt'', ''qown'']) (\<lambda>n1.
          bindp (on_runs (deletePrefix (''job:'' @ pre))) (\<lambda>n2.
          case P of
            None \<Rightarrow> Ret (n1 + js_int n2)
          | Some Q \<Rightarrow> bindp (on_runs (withOrg Q (deletePrefix (''job:'' @ pre)))) (\<lambda>n3. Ret (n1 + js_int n2 + js_int n3))))))))"

section \<open>Keys\<close>

lemma queue_keys [simp]:
  "QDONE i = QDONE j \<longleftrightarrow> i = j" "QFAIL i = QFAIL j \<longleftrightarrow> i = j" "QATT i = QATT j \<longleftrightarrow> i = j" "QOWN i = QOWN j \<longleftrightarrow> i = j"
  "QDONE i \<noteq> QFAIL j" "QDONE i \<noteq> QATT j" "QDONE i \<noteq> QOWN j" "QFAIL i \<noteq> QATT j" "QFAIL i \<noteq> QOWN j" "QATT i \<noteq> QOWN j"
  "QFAIL i \<noteq> QDONE j" "QATT i \<noteq> QDONE j" "QOWN i \<noteq> QDONE j" "QATT i \<noteq> QFAIL j" "QOWN i \<noteq> QFAIL j" "QOWN i \<noteq> QATT j"
  "QCURSOR \<noteq> QDONE i" "QCURSOR \<noteq> QFAIL i" "QCURSOR \<noteq> QATT i" "QCURSOR \<noteq> QOWN i"
  "QDONE i \<noteq> QCURSOR" "QFAIL i \<noteq> QCURSOR" "QATT i \<noteq> QCURSOR" "QOWN i \<noteq> QCURSOR"
  by (auto simp: QDONE_def QFAIL_def QATT_def QOWN_def QCURSOR_def)

lemma lease_key_inject [simp]: "lockKey (job_lease i) = lockKey (job_lease j) \<longleftrightarrow> i = j"
  by (simp add: lockKey_def job_lease_def job_run_def)

lemma lease_key_not_input: "key_input (job_run i) \<noteq> lockKey (job_lease j)"
proof
  assume "key_input (job_run i) = lockKey (job_lease j)"
  then have "last (key_input (job_run i)) = last (lockKey (job_lease j))" by (rule arg_cong)
  then show False by (simp add: key_input_def lockKey_def)
qed

lemma lease_key_not_org: "orgPrefix og = Inr P \<Longrightarrow> \<not> prefix P (lockKey (job_lease j))"
  by (auto simp: orgPrefix_Inr lockKey_def job_lease_def job_run_def)

section \<open>The undisturbed worker\<close>

text \<open>Calls that leave a record of the journal as it is.\<close>

definition spares :: "key \<Rightarrow> jop \<Rightarrow> bool" where
  "spares K c \<longleftrightarrow> (case c of JPut k v \<Rightarrow> k \<noteq> K | JPutIfAbsent k v \<Rightarrow> k \<noteq> K | JPutIfMatch k e v \<Rightarrow> k \<noteq> K | JDeletePrefix p \<Rightarrow> \<not> prefix p K | _ \<Rightarrow> True)"

lemma spares_exec:
  "spares K c \<Longrightarrow> map_of (store (journal (snd (exec_op env c b)))) K = map_of (store (journal b)) K"
  by (cases c) (auto simp: spares_def mem_put_def mem_putIfAbsent_def mem_putIfMatch_def mem_incrBy_def Let_def
      map_of_deletePrefix mem_deletePrefix_def map_of_filter_key [of "\<lambda>k. \<not> prefix _ k"] split: prod.splits)

lemma spares_run:
  "calls_in (spares K) p \<Longrightarrow> map_of (store (journal (snd (run env p b)))) K = map_of (store (journal b)) K"
proof (induction p arbitrary: b)
  case (Op c k)
  then show ?case using spares_exec [of K c env b] by (auto split: prod.split)
qed simp_all

lemma spares_simps [simp]:
  "spares K (JGet k)" "spares K DateNow" "spares K JNow" "spares K RandomUUID" "spares K (Ext f a)"
  "spares K (JPut k v) \<longleftrightarrow> k \<noteq> K" "spares K (JPutIfAbsent k v) \<longleftrightarrow> k \<noteq> K" "spares K (JPutIfMatch k e v) \<longleftrightarrow> k \<noteq> K"
  by (simp_all add: spares_def)

lemma spares_claim: "k \<noteq> K \<Longrightarrow> calls_in (spares K) (claim J k v)"
  by (auto simp: claim_def intro!: calls_in_bindp calls_in_seqp)

lemma spares_withOrg: "\<not> prefix P K \<Longrightarrow> calls_in (spares K) (withOrg P p)"
proof (induction p)
  case (Op c k)
  then show ?case by (cases c) (auto simp: spares_def dest: append_prefixD)
qed simp_all

lemma spares_assertRaw: "calls_in (spares K) (assertRaw v)"
  by (simp add: assertRaw_def)

lemma spares_handle_job: "calls_in (spares (lockKey (job_lease j))) (handle_job J job)"
proof -
  have own: "calls_in (spares (lockKey (job_lease j))) (claimRunOwner J False (job_run i) c fs)" for i c fs
    by (auto simp: claimRunOwner_def spares_assertRaw lease_key_not_input intro!: calls_in_seqp calls_in_bindp spares_claim split: option.split)
  then have "calls_in (spares (lockKey (job_lease j))) (job_scope rec (claimRunOwner J False (job_run i) c fs))" for rec i c fs
    using spares_withOrg [OF lease_key_not_org, of _ _ j "claimRunOwner J False (job_run i) c fs"]
    by (auto simp: job_scope_def liftp_def split: js.split sum.split)
  then show ?thesis
    by (auto simp: handle_job_def Let_def intro!: calls_in_seqp calls_in_bindp split: js.split)
qed

text \<open>A lease that can be taken: there is none, or it has run out.\<close>

definition lease_free :: "string \<Rightarrow> world \<Rightarrow> bool" where
  "lease_free r b \<longleftrightarrow> (case map_of (store (journal b)) (lockKey r) of
       None \<Rightarrow> True | Some v \<Rightarrow> js_truthy v \<and> \<not> js_ge (js_field ''expires'' v) (clock b))"

lemma acquire_lease:
  assumes "has_putIfAbsent J" and "has_putIfMatch J" and "lease_free r b"
  shows "\<exists>l b'. run env (acquireRunLock J r ow ttl None) b = (Inr (Some l), b') \<and> lock_runId l = r \<and> clock b' = clock b
    \<and> map_of (store (journal b')) (lockKey r) = Some (LockRecord ow (clock b + ttl) (lock_token l))
    \<and> (\<forall>K. K \<noteq> lockKey r \<longrightarrow> map_of (store (journal b')) K = map_of (store (journal b)) K)"
  using assms
  by (auto simp: acquireRunLock_def lock_now_def lease_free_def Let_def prog_simps claim_def mem_putIfAbsent_def mem_putIfMatch_def
      mem_put_def mem_get_def domIff mkLock_def map_of_js_set split: option.splits)

lemma release_lease:
  assumes "has_putIfMatch J" and "map_of (store (journal b)) (lockKey (lock_runId l)) = Some (LockRecord ow e (lock_token l))"
  shows "\<exists>b'. run env (lock_release J l) b = (Inr (), b') \<and> clock b' = clock b
    \<and> map_of (store (journal b')) (lockKey (lock_runId l)) = Some (LockRecord (lock_owner l) 0 (lock_token l))
    \<and> (\<forall>K. K \<noteq> lockKey (lock_runId l) \<longrightarrow> map_of (store (journal b')) K = map_of (store (journal b)) K)"
  using assms
  by (auto simp: lock_release_def numeral_3_eq_3 Let_def prog_simps mem_putIfMatch_def mem_get_def LockRecord_def map_of_js_set domIff)

text \<open>The outside world of an undisturbed worker: no heartbeat reports a loss, and \<open>onError\<close> returns.\<close>

definition calm :: "worker_opts \<Rightarrow> env \<Rightarrow> bool" where
  "calm o1 env \<longleftrightarrow> (\<forall>h a v. env h ''lockLost'' a = Inr v \<longrightarrow> \<not> js_truthy v)
     \<and> (wk_onError o1 \<longrightarrow> (\<forall>h a. \<exists>v. env h ''onError'' a = Inr v))"

text \<open>Two worlds that differ in the markers and the lease of job \<open>i\<close> only.\<close>

definition job_markers :: "string \<Rightarrow> key set" where
  "job_markers i = {QDONE i, QFAIL i, QATT i, QOWN i}"

definition only_job :: "string \<Rightarrow> sworld \<Rightarrow> sworld \<Rightarrow> bool" where
  "only_job i w w' \<longleftrightarrow> logs (work w') = logs (work w) \<and> clock (base w') = clock (base w)
     \<and> (\<forall>k. k \<notin> job_markers i \<longrightarrow> map_of (kv (work w')) k = map_of (kv (work w)) k)
     \<and> (\<forall>j. j \<noteq> i \<longrightarrow> map_of (store (journal (base w'))) (lockKey (job_lease j)) = map_of (store (journal (base w))) (lockKey (job_lease j)))"

lemma only_job_refl [simp]: "only_job i w w"
  by (simp add: only_job_def)

lemma only_job_trans: "only_job i w w1 \<Longrightarrow> only_job i w1 w2 \<Longrightarrow> only_job i w w2"
  by (simp add: only_job_def)

lemma only_job_put: "k \<in> job_markers i \<Longrightarrow> only_job i w (w\<lparr>work := ws_put k v (work w)\<rparr>)"
  by (auto simp: only_job_def ws_put_def map_of_js_set)

lemma stillOwns_run:
  assumes "calm o1 env" and "wk_putIfMatch o1 \<longrightarrow> map_of (kv (work w)) (QOWN i) = Some (JStr (lock_token l))"
  shows "\<exists>w'. srun env (stillOwns o1 i l) w = (Inr True, w') \<and> only_job i w w'
    \<and> map_of (kv (work w')) = map_of (kv (work w)) \<and> store (journal (base w')) = store (journal (base w))"
  using assms
  by (auto simp: stillOwns_def lockLost_def prog_simps calm_def ws_putIfMatch_def ws_get_def ws_put_def domIff only_job_def map_of_js_set
      fun_eq_iff split: sum.splits prod.splits)

definition terminal :: "string \<Rightarrow> InMemoryWorkStore \<Rightarrow> bool" where
  "terminal i s \<longleftrightarrow> js_truthy (ws_get (QDONE i) s) \<or> js_truthy (ws_get (QFAIL i) s)"

definition attempts :: "string \<Rightarrow> InMemoryWorkStore \<Rightarrow> int" where
  "attempts i s = js_int (ws_get (QATT i) s)"

text \<open>One more attempt has been made, and the job is finished if it was the last one.\<close>

definition moved_on :: "worker_opts \<Rightarrow> string \<Rightarrow> InMemoryWorkStore \<Rightarrow> InMemoryWorkStore \<Rightarrow> bool" where
  "moved_on o1 i s s' \<longleftrightarrow> terminal i s' \<or> attempts i s' = attempts i s + 1 \<and> attempts i s' < wk_maxAttempts o1"

lemma ws_get_cong: "map_of (kv s') = map_of (kv s) \<Longrightarrow> ws_get k s' = ws_get k s"
  by (simp add: ws_get_def)

lemma only_job_handle:
  assumes "run env (handle_job J job) (base w) = (r, b')"
  shows "only_job i w (w\<lparr>base := b'\<rparr>)"
    and "map_of (store (journal b')) (lockKey (job_lease i)) = map_of (store (journal (base w))) (lockKey (job_lease i))"
  using spares_run [OF spares_handle_job, of env J job "base w"] assms srun_clock [of env "on_runs (handle_job J job)" w]
  by (auto simp: only_job_def prog_simps)

lemma job_catch_run:
  assumes "calm o1 env" and "wk_putIfMatch o1 \<longrightarrow> map_of (kv (work w)) (QOWN i) = Some (JStr (lock_token l))" and "i = job_id job"
  shows "\<exists>w'. srun env (job_catch o1 job l e) w = (Inr (), w') \<and> only_job i w w' \<and> moved_on o1 i (work w) (work w')
    \<and> store (journal (base w')) = store (journal (base w))"
proof -
  obtain w1 where w1: "srun env (stillOwns o1 i l) w = (Inr True, w1)" "only_job i w w1" "map_of (kv (work w1)) = map_of (kv (work w))"
    "store (journal (base w1)) = store (journal (base w))"
    using stillOwns_run [OF assms(1,2)] by blast
  let ?n = "attempts i (work w) + 1"
  let ?s1 = "ws_put (QATT i) (JNum ?n) (work w1)"
  let ?s2 = "if ?n \<ge> wk_maxAttempts o1 then ws_put (QFAIL i) (JObj [(''error'', JStr (err_msg e)), (''attempts'', JNum ?n)]) ?s1 else ?s1"
  let ?b = "if wk_onError o1 then (base w1)\<lparr>called := called (base w1) @ [(''onError'', JStr i)]\<rparr> else base w1"
  have "ws_get (QATT i) (work w1) = ws_get (QATT i) (work w)" by (rule ws_get_cong [OF w1(3)])
  then have "srun env (job_catch o1 job l e) w = (Inr (), w1\<lparr>base := ?b, work := ?s2\<rparr>)"
    using w1(1) assms(1) by (auto simp: job_catch_def Let_def prog_simps assms(3) [symmetric] attempts_def calm_def split: sum.splits) (metis sum.distinct(1))
  moreover have "only_job i w (w1\<lparr>base := ?b, work := ?s2\<rparr>)"
    by (rule only_job_trans [OF w1(2)]) (auto simp: only_job_def job_markers_def ws_put_def map_of_js_set)
  moreover have "moved_on o1 i (work w) ?s2" by (auto simp: moved_on_def terminal_def attempts_def)
  ultimately show ?thesis using w1(4) by (intro exI [of _ "w1\<lparr>base := ?b, work := ?s2\<rparr>"]) simp
qed

lemma job_body_run:
  assumes "calm o1 env" and own: "wk_putIfMatch o1 \<longrightarrow> map_of (kv (work w)) (QOWN i) = Some (JStr (lock_token l))" and i: "i = job_id job"
  shows "\<exists>w'. srun env (catchp (job_try J o1 job l) (job_catch o1 job l)) w = (Inr (), w') \<and> only_job i w w' \<and> moved_on o1 i (work w) (work w')
    \<and> map_of (store (journal (base w'))) (lockKey (job_lease i)) = map_of (store (journal (base w))) (lockKey (job_lease i))"
proof (cases "wk_handlers o1 (js_string (js_field ''type'' (job_rec job)))")
  case False
  obtain w1 where w1: "srun env (stillOwns o1 i l) w = (Inr True, w1)" "only_job i w w1" "store (journal (base w1)) = store (journal (base w))"
    using stillOwns_run [OF assms(1,2)] by blast
  let ?s = "ws_put (QFAIL i) (JObj [(''error'', JStr (''no handler: '' @ js_string (js_field ''type'' (job_rec job))))]) (work w1)"
  have "only_job i w (w1\<lparr>work := ?s\<rparr>)" by (rule only_job_trans [OF w1(2) only_job_put]) (simp add: job_markers_def)
  then show ?thesis using False w1 by (auto simp: job_try_def Let_def prog_simps i [symmetric] moved_on_def terminal_def)
next
  case True
  obtain r b where hb: "run env (handle_job J job) (base w) = (r, b)" by fastforce
  let ?w = "w\<lparr>base := b\<rparr>"
  note step = only_job_handle [OF hb]
  show ?thesis
  proof (cases r)
    case (Inl e)
    obtain w2 where w2: "srun env (job_catch o1 job l e) ?w = (Inr (), w2)" "only_job i ?w w2" "moved_on o1 i (work w) (work w2)"
      "store (journal (base w2)) = store (journal b)"
      using job_catch_run [of o1 env ?w i l job e] assms by auto
    then show ?thesis using True hb Inl step only_job_trans [OF step(1) w2(2)] by (auto simp: job_try_def Let_def prog_simps)
  next
    case (Inr x)
    obtain w1 where w1: "srun env (stillOwns o1 i l) ?w = (Inr True, w1)" "only_job i ?w w1" "store (journal (base w1)) = store (journal b)"
      using stillOwns_run [of o1 env ?w i l] assms(1,2) by auto
    let ?s = "ws_put (QDONE i) (JObj [(''at'', JNum (clock (base w1))), (''ok'', JBool True)]) (work w1)"
    have "only_job i w (w1\<lparr>work := ?s\<rparr>)"
      by (rule only_job_trans [OF only_job_trans [OF step(1) w1(2)] only_job_put]) (simp add: job_markers_def)
    then show ?thesis using True hb Inr w1 step(2) by (auto simp: job_try_def Let_def prog_simps i [symmetric] moved_on_def terminal_def)
  qed
qed

lemma process_job_run:
  assumes J: "has_putIfMatch J" and "calm o1 env" and i: "i = job_id job" "lock_runId l = job_lease i" and "0 < clock (base w)"
    and "map_of (store (journal (base w))) (lockKey (job_lease i)) = Some (LockRecord ow e (lock_token l))"
  shows "\<exists>w'. srun env (process_job J o1 job l) w = (Inr (), w') \<and> only_job i w w' \<and> moved_on o1 i (work w) (work w') \<and> lease_free (job_lease i) (base w')"
proof -
  let ?w = "if wk_putIfMatch o1 then w\<lparr>work := ws_put (QOWN i) (JStr (lock_token l)) (work w)\<rparr> else w"
  have own: "only_job i w ?w" "wk_putIfMatch o1 \<longrightarrow> map_of (kv (work ?w)) (QOWN i) = Some (JStr (lock_token l))" "base ?w = base w"
    using only_job_put [of "QOWN i" i w] by (auto simp: job_markers_def ws_put_def map_of_js_set)
  have same: "moved_on o1 i (work ?w) s \<longleftrightarrow> moved_on o1 i (work w) s" for s by (simp add: moved_on_def attempts_def)
  obtain w1 where w1: "srun env (catchp (job_try J o1 job l) (job_catch o1 job l)) ?w = (Inr (), w1)" "only_job i ?w w1" "moved_on o1 i (work w) (work w1)"
    "map_of (store (journal (base w1))) (lockKey (job_lease i)) = Some (LockRecord ow e (lock_token l))"
    using job_body_run [OF assms(2) own(2) i(1), of J] own(3) assms(6) same by auto
  obtain b where b: "run env (lock_release J l) (base w1) = (Inr (), b)" "clock b = clock (base w1)"
    "map_of (store (journal b)) (lockKey (job_lease i)) = Some (LockRecord (lock_owner l) 0 (lock_token l))"
    "\<And>K. K \<noteq> lockKey (job_lease i) \<Longrightarrow> map_of (store (journal b)) K = map_of (store (journal (base w1))) K"
    using release_lease [OF J, of "base w1" l ow e env] w1(4) i(2) by auto
  have w2: "only_job i w1 (w1\<lparr>base := b\<rparr>)" using b by (simp add: only_job_def)
  have "0 < clock b" using b(2) w1(2) own(1) assms(5) by (simp add: only_job_def)
  then have "lease_free (job_lease i) b" using b(3) by (simp add: lease_free_def LockRecord_def)
  moreover have "srun env (process_job J o1 job l) w = (Inr (), w1\<lparr>base := b\<rparr>)"
  proof -
    have "srun env (if wk_putIfMatch o1 then wput (QOWN i) (JStr (lock_token l)) else Ret ()) w = (Inr (), ?w)" by (simp add: srun_work)
    then show ?thesis unfolding process_job_def i(1) [symmetric] run_seqp run_finallyp using w1(1) b(1) by (simp add: srun_on_runs del: run_catchp)
  qed
  ultimately show ?thesis using only_job_trans [OF only_job_trans [OF own(1) w1(2)] w2] w1(3) by auto
qed

lemma job_id_record [simp]: "job_id (js_log_record r) = lr_id r"
  by (simp add: job_id_def)

text \<open>A worker that finds every lease free.\<close>

definition leases_free :: "string set \<Rightarrow> sworld \<Rightarrow> bool" where
  "leases_free ids w \<longleftrightarrow> 0 < clock (base w) \<and> (\<forall>i\<in>ids. lease_free (job_lease i) (base w))"

text \<open>What happens to the one job a worker takes up.\<close>

definition took_up :: "worker_opts \<Rightarrow> string \<Rightarrow> sworld \<Rightarrow> sworld \<Rightarrow> bool" where
  "took_up o1 i w w' \<longleftrightarrow> \<not> terminal i (work w) \<and> only_job i w w' \<and> moved_on o1 i (work w) (work w') \<and> lease_free (job_lease i) (base w')"

lemma scan_jobs_terminal:
  "\<forall>r\<in>set rs. terminal (lr_id r) (work w) \<Longrightarrow> srun env (scan_jobs J o1 (map js_log_record rs) t) w = (Inr (Some t), w)"
  by (induction rs) (auto simp: terminal_def prog_simps)

lemma acquired_only_job:
  assumes "map_of (store (journal b)) (lockKey (job_lease i)) = Some v" and "clock b = clock (base w)"
    and "\<And>K. K \<noteq> lockKey (job_lease i) \<Longrightarrow> map_of (store (journal b)) K = map_of (store (journal (base w))) K"
  shows "only_job i w (w\<lparr>base := b\<rparr>)"
  using assms by (simp add: only_job_def)

lemma scan_jobs_takes:
  assumes J: "has_putIfAbsent J" "has_putIfMatch J" and calm: "calm o1 env"
  shows "leases_free (lr_id ` set rs) w \<Longrightarrow> \<exists>r\<in>set rs. \<not> terminal (lr_id r) (work w) \<Longrightarrow>
    \<exists>i w'. i \<in> lr_id ` set rs \<and> srun env (scan_jobs J o1 (map js_log_record rs) t) w = (Inr None, w') \<and> took_up o1 i w w'"
proof (induction rs)
  case (Cons r rs)
  let ?i = "lr_id r"
  show ?case
  proof (cases "terminal ?i (work w)")
    case True
    then have "srun env (scan_jobs J o1 (map js_log_record (r # rs)) t) w = srun env (scan_jobs J o1 (map js_log_record rs) t) w"
      by (auto simp: terminal_def prog_simps)
    then show ?thesis using Cons True by (auto simp: leases_free_def)
  next
    case False
    obtain l b where b: "run env (acquireRunLock J (job_lease ?i) (wk_owner o1) (wk_ttlMs o1) None) (base w) = (Inr (Some l), b)"
      "lock_runId l = job_lease ?i" "clock b = clock (base w)"
      "map_of (store (journal b)) (lockKey (job_lease ?i)) = Some (LockRecord (wk_owner o1) (clock (base w) + wk_ttlMs o1) (lock_token l))"
      "\<And>K. K \<noteq> lockKey (job_lease ?i) \<Longrightarrow> map_of (store (journal b)) K = map_of (store (journal (base w))) K"
      using acquire_lease [OF J, of "job_lease ?i" "base w" env "wk_owner o1" "wk_ttlMs o1"] Cons.prems(1) by (auto simp: leases_free_def)
    have pos: "0 < clock (base (w\<lparr>base := b\<rparr>))" using b(3) Cons.prems(1) by (simp add: leases_free_def)
    obtain w' where w': "srun env (process_job J o1 (js_log_record r) l) (w\<lparr>base := b\<rparr>) = (Inr (), w')" "only_job ?i (w\<lparr>base := b\<rparr>) w'"
      "moved_on o1 ?i (work w) (work w')" "lease_free (job_lease ?i) (base w')"
      using process_job_run [OF J(2) calm _ b(2) pos, of "js_log_record r"] b(4) by auto
    have "srun env (scan_jobs J o1 (map js_log_record (r # rs)) t) w = (Inr None, w')"
      using False b(1) w'(1) by (simp add: terminal_def prog_simps)
    moreover have "took_up o1 ?i w w'"
      using False w' only_job_trans [OF acquired_only_job [OF b(4,3,5)] w'(2)] by (simp add: took_up_def)
    ultimately show ?thesis by (intro exI [of _ ?i] exI [of _ w']) simp
  qed
qed simp

subsection \<open>The work that is left\<close>

definition weight :: "worker_opts \<Rightarrow> string \<Rightarrow> InMemoryWorkStore \<Rightarrow> nat" where
  "weight o1 i s = (if terminal i s then 0 else max 1 (nat (wk_maxAttempts o1 - attempts i s)))"

definition backlog :: "worker_opts \<Rightarrow> InMemoryWorkStore \<Rightarrow> nat" where
  "backlog o1 s = sum_list (map (\<lambda>r. weight o1 (lr_id r) s) (log_of ''qjob'' s))"

lemma only_job_reads:
  assumes "only_job i w w'"
  shows "log_of ns (work w') = log_of ns (work w)" and "ws_get QCURSOR (work w') = ws_get QCURSOR (work w)"
    and "j \<noteq> i \<Longrightarrow> terminal j (work w') = terminal j (work w)" and "j \<noteq> i \<Longrightarrow> attempts j (work w') = attempts j (work w)"
    and "j \<noteq> i \<Longrightarrow> lease_free (job_lease j) (base w') = lease_free (job_lease j) (base w)"
  using assms by (auto simp: only_job_def log_of_def ws_get_def terminal_def attempts_def lease_free_def job_markers_def split: option.splits)

lemma took_up_weight:
  assumes "took_up o1 i w w'"
  shows "weight o1 i (work w') < weight o1 i (work w)" and "weight o1 j (work w') \<le> weight o1 j (work w)"
proof -
  show less: "weight o1 i (work w') < weight o1 i (work w)"
    using assms by (auto simp: took_up_def moved_on_def weight_def)
  show "weight o1 j (work w') \<le> weight o1 j (work w)"
    using less only_job_reads(3,4) [of i w w' j] assms by (cases "j = i") (auto simp: took_up_def weight_def)
qed

lemma sum_list_strict_mono_one:
  assumes "\<And>x. x \<in> set xs \<Longrightarrow> f x \<le> (g x :: nat)" and "y \<in> set xs" and "f y < g y"
  shows "sum_list (map f xs) < sum_list (map g xs)"
  using assms
proof (induction xs)
  case (Cons a xs)
  have le: "sum_list (map f xs) \<le> sum_list (map g xs)" using Cons.prems(1) by (intro sum_list_mono) simp
  show ?case
  proof (cases "y = a")
    case True
    then show ?thesis using Cons.prems(3) le by simp
  next
    case False
    then have "sum_list (map f xs) < sum_list (map g xs)" using Cons by simp
    moreover have "f a \<le> g a" using Cons.prems(1) by simp
    ultimately show ?thesis by simp
  qed
qed simp

lemma took_up_backlog:
  assumes "took_up o1 i w w'" and "i \<in> lr_id ` set (log_of ''qjob'' (work w))"
  shows "backlog o1 (work w') < backlog o1 (work w)"
proof -
  have "log_of ''qjob'' (work w') = log_of ''qjob'' (work w)" using assms(1) only_job_reads(1) by (auto simp: took_up_def)
  then show ?thesis using assms(2) took_up_weight [OF assms(1)]
    unfolding backlog_def by (auto intro!: sum_list_strict_mono_one)
qed

text \<open>The stored position lies within the log, and every job before it is finished.\<close>

definition cursor_ok :: "InMemoryWorkStore \<Rightarrow> bool" where
  "cursor_ok s \<longleftrightarrow> cursor_start (cursor_of (ws_get QCURSOR s)) \<le> length (log_of ''qjob'' s)
     \<and> (\<forall>r\<in>set (take (cursor_start (cursor_of (ws_get QCURSOR s))) (log_of ''qjob'' s)). terminal (lr_id r) s)"

abbreviation job_ids :: "InMemoryWorkStore \<Rightarrow> string set" where
  "job_ids s \<equiv> lr_id ` set (log_of ''qjob'' s)"

definition advanced :: "worker_opts \<Rightarrow> sworld \<Rightarrow> sworld \<Rightarrow> bool" where
  "advanced o1 w w' \<longleftrightarrow> log_of ''qjob'' (work w') = log_of ''qjob'' (work w) \<and> leases_free (job_ids (work w')) w' \<and> cursor_ok (work w')
     \<and> backlog o1 (work w') < backlog o1 (work w)"

lemma took_up_terminal: "took_up o1 i w w' \<Longrightarrow> terminal j (work w) \<Longrightarrow> terminal j (work w')"
  using only_job_reads(3) [of i w w' j] by (cases "j = i") (auto simp: took_up_def)

lemma took_up_advanced:
  assumes "took_up o1 i w w'" and "i \<in> job_ids (work w)" and "leases_free (job_ids (work w)) w" and "cursor_ok (work w)"
  shows "advanced o1 w w'"
proof -
  have oj: "only_job i w w'" and free: "lease_free (job_lease i) (base w')" using assms(1) by (auto simp: took_up_def)
  have "leases_free (job_ids (work w')) w'"
    using assms(3) oj free only_job_reads(1,5) [OF oj] by (auto simp: leases_free_def only_job_def) metis
  then show ?thesis
    using took_up_backlog [OF assms(1,2)] only_job_reads(1,2) [OF oj] took_up_terminal [OF assms(1)] assms(4)
    by (auto simp: advanced_def cursor_ok_def)
qed

lemma put_cursor_reads [simp]:
  "terminal i (ws_put QCURSOR v s) = terminal i s" "attempts i (ws_put QCURSOR v s) = attempts i s"
  by (simp_all add: terminal_def attempts_def)

lemma put_cursor_weight [simp]: "weight o1 i (ws_put QCURSOR v s) = weight o1 i s"
  by (simp add: weight_def)

lemma put_cursor_backlog [simp]: "backlog o1 (ws_put QCURSOR v s) = backlog o1 s"
  by (simp add: backlog_def)

lemma srun_wlist:
  "srun env (wlist ns c) w = (Inr (map js_log_record (take 50 (drop (cursor_start c) (log_of ns (work w)))),
     if cursor_start c + 50 < length (log_of ns (work w)) then Some (show_nat (cursor_start c + 50)) else None), w)"
  by (simp add: srun_work ws_list_def paginate_def Let_def)

lemma scan_pages_run:
  assumes J: "has_putIfAbsent J" "has_putIfMatch J" and calm: "calm o1 env"
  shows "length (log_of ''qjob'' (work w)) \<le> cursor_start c + 50 * fuel \<Longrightarrow> 0 < fuel \<Longrightarrow> leases_free (job_ids (work w)) w \<Longrightarrow> cursor_ok (work w) \<Longrightarrow>
    \<forall>r\<in>set (take (cursor_start c) (log_of ''qjob'' (work w))). terminal (lr_id r) (work w) \<Longrightarrow>
    (\<exists>w'. srun env (scan_pages fuel J o1 c) w = (Inr False, w') \<and> log_of ''qjob'' (work w') = log_of ''qjob'' (work w)
       \<and> (\<forall>i\<in>job_ids (work w). terminal i (work w')))
    \<or> (\<exists>w'. srun env (scan_pages fuel J o1 c) w = (Inr True, w') \<and> advanced o1 w w')"
proof (induction fuel arbitrary: c w)
  case (Suc fuel)
  let ?L = "log_of ''qjob'' (work w)" and ?n = "cursor_start c"
  let ?rs = "take 50 (drop ?n ?L)"
  have sub: "set ?rs \<subseteq> set ?L" by (meson order_trans set_drop_subset set_take_subset)
  have list: "srun env (wlist ''qjob'' c) w = (Inr (map js_log_record ?rs, if ?n + 50 < length ?L then Some (show_nat (?n + 50)) else None), w)"
    by (rule srun_wlist)
  show ?case
  proof (cases "\<forall>r\<in>set ?rs. terminal (lr_id r) (work w)")
    case False
    have "leases_free (lr_id ` set ?rs) w" using Suc.prems(3) sub by (auto simp: leases_free_def)
    with False obtain i w' where i: "i \<in> lr_id ` set ?rs" "srun env (scan_jobs J o1 (map js_log_record ?rs) True) w = (Inr None, w')" "took_up o1 i w w'"
      using scan_jobs_takes [OF J calm, of ?rs w True] by blast
    have "i \<in> job_ids (work w)" using i(1) sub by blast
    then have "advanced o1 w w'" by (rule took_up_advanced [OF i(3) _ Suc.prems(3,4)])
    then show ?thesis using list i(2) by (simp add: prog_simps)
  next
    case True
    note scan = scan_jobs_terminal [OF True, of env J o1 True]
    have upto: "\<forall>r\<in>set (take (?n + 50) ?L). terminal (lr_id r) (work w)" using True Suc.prems(5) by (auto simp: take_add)
    show ?thesis
    proof (cases "?n + 50 < length ?L")
      case False
      then have "\<forall>i\<in>job_ids (work w). terminal i (work w)" using upto by auto
      then show ?thesis using list scan False by (auto simp: prog_simps)
    next
      case more: True
      let ?w = "w\<lparr>work := ws_put QCURSOR (JStr (show_nat (?n + 50))) (work w)\<rparr>"
      have ok: "cursor_ok (work ?w)" using upto more by (simp add: cursor_ok_def)
      have free: "leases_free (job_ids (work ?w)) ?w" using Suc.prems(3) by (simp add: leases_free_def)
      have "0 < fuel" using more Suc.prems(1) by (cases fuel) auto
      moreover have "advanced o1 ?w w' = advanced o1 w w'" for w' by (simp add: advanced_def)
      moreover have "srun env (scan_pages (Suc fuel) J o1 c) w = srun env (scan_pages fuel J o1 (Some (show_nat (?n + 50)))) ?w"
        using list scan more by (simp add: prog_simps)
      ultimately show ?thesis
        using Suc.IH [of ?w "Some (show_nat (?n + 50))"] Suc.prems(1) ok free upto by auto
    qed
  qed
qed simp

lemma listAll_run:
  "length (log_of ns (work w)) \<le> cursor_start c + 50 * fuel \<Longrightarrow> 0 < fuel \<Longrightarrow>
   srun env (listAll fuel ns out c) w = (Inr (out @ map js_log_record (drop (cursor_start c) (log_of ns (work w)))), w)"
proof (induction fuel arbitrary: c out)
  case (Suc fuel)
  let ?L = "log_of ns (work w)" and ?n = "cursor_start c"
  have list: "srun env (wlist ns c) w = (Inr (map js_log_record (take 50 (drop ?n ?L)), if ?n + 50 < length ?L then Some (show_nat (?n + 50)) else None), w)"
    by (rule srun_wlist)
  show ?case
  proof (cases "?n + 50 < length ?L")
    case True
    then have "0 < fuel" using Suc.prems(1) by (cases fuel) auto
    have "take 50 (drop ?n ?L) @ drop (?n + 50) ?L = drop ?n ?L" by (metis add.commute append_take_drop_id drop_drop)
    then have "map js_log_record (take 50 (drop ?n ?L)) @ map js_log_record (drop (?n + 50) ?L) = map js_log_record (drop ?n ?L)" by (metis map_append)
    then show ?thesis using True list Suc.IH [of "Some (show_nat (?n + 50))"] Suc.prems(1) \<open>0 < fuel\<close> by (simp add: prog_simps)
  next
    case False
    then show ?thesis using list by (simp add: prog_simps)
  qed
qed simp

lemma drain_loop_run:
  assumes J: "has_putIfAbsent J" "has_putIfMatch J" and calm: "calm o1 env"
  shows "backlog o1 (work w) < k \<Longrightarrow> length (log_of ''qjob'' (work w)) \<le> 50 * fuel \<Longrightarrow> 0 < fuel \<Longrightarrow> leases_free (job_ids (work w)) w \<Longrightarrow> cursor_ok (work w) \<Longrightarrow>
    \<exists>n' w'. srun env (drain_loop k fuel J o1 n) w = (Inr n', w') \<and> n' \<le> n + backlog o1 (work w)
      \<and> log_of ''qjob'' (work w') = log_of ''qjob'' (work w) \<and> (\<forall>i\<in>job_ids (work w). terminal i (work w'))"
proof (induction k arbitrary: n w)
  case (Suc k)
  have fuel: "length (log_of ''qjob'' (work w)) \<le> cursor_start (cursor_of (ws_get QCURSOR (work w))) + 50 * fuel" using Suc.prems(2) by simp
  have behind: "\<forall>r\<in>set (take (cursor_start (cursor_of (ws_get QCURSOR (work w)))) (log_of ''qjob'' (work w))). terminal (lr_id r) (work w)"
    using Suc.prems(5) by (simp add: cursor_ok_def)
  from scan_pages_run [OF J calm fuel Suc.prems(3,4,5) behind] show ?case
  proof (elim disjE exE conjE)
    fix w' assume "srun env (scan_pages fuel J o1 (cursor_of (ws_get QCURSOR (work w)))) w = (Inr False, w')"
      "log_of ''qjob'' (work w') = log_of ''qjob'' (work w)" "\<forall>i\<in>job_ids (work w). terminal i (work w')"
    then show ?thesis by (simp add: runOnce_def prog_simps)
  next
    fix w' assume run: "srun env (scan_pages fuel J o1 (cursor_of (ws_get QCURSOR (work w)))) w = (Inr True, w')" and adv: "advanced o1 w w'"
    have "\<exists>n' w''. srun env (drain_loop k fuel J o1 (n + 1)) w' = (Inr n', w'') \<and> n' \<le> n + 1 + backlog o1 (work w')
        \<and> log_of ''qjob'' (work w'') = log_of ''qjob'' (work w') \<and> (\<forall>i\<in>job_ids (work w'). terminal i (work w''))"
      using adv Suc.prems by (intro Suc.IH) (auto simp: advanced_def)
    then show ?thesis using run adv by (fastforce simp: runOnce_def prog_simps advanced_def)
  qed
qed simp

lemma backlog_bound:
  assumes "\<forall>i\<in>job_ids s. 0 \<le> attempts i s"
  shows "backlog o1 s \<le> length (log_of ''qjob'' s) * max 1 (nat (wk_maxAttempts o1))"
proof -
  have "sum_list (map f xs) \<le> length xs * m" if "\<forall>x\<in>set xs. f x \<le> (m :: nat)" for f :: "LogRecord \<Rightarrow> nat" and xs m
    using that by (induction xs) auto
  moreover have "weight o1 i s \<le> max 1 (nat (wk_maxAttempts o1))" if "0 \<le> attempts i s" for i
    using that by (auto simp: weight_def)
  ultimately show ?thesis using assms by (simp add: backlog_def)
qed

section \<open>Properties\<close>

subsection \<open>Every job is finished\<close>


definition mail_worker :: worker_opts where
  "mail_worker = \<lparr>wk_owner = ''w'', wk_ttlMs = 30000, wk_maxAttempts = 2, wk_heartbeat = True, wk_putIfMatch = True, wk_handlers = (\<lambda>t. t = ''mail''), wk_onError = False\<rparr>"

definition mail_world :: sworld where
  "mail_world = \<lparr>base = new_world\<lparr>clock := 1000\<rparr>, work = \<lparr>logs = [(''qjob'',
     [\<lparr>lr_id = ''a'', lr_payload = JobRecord ''mail'' JNull system_owner, lr_ts = 1\<rparr>, \<lparr>lr_id = ''b'', lr_payload = JobRecord ''fax'' JNull system_owner, lr_ts = 2\<rparr>])],
     kv = [], idc = 0\<rparr>\<rparr>"

text \<open>The mail handler fails every time.\<close>

definition failing_env :: env where
  "failing_env = (\<lambda>h f a. if f = ''handler'' then Inl (Err ''Error'' ''smtp'') else Inr JUndef)"


subsection \<open>A job that is passed over\<close>

text \<open>A worker that meets only finished jobs from its position on.\<close>

lemma scan_finished_tail:
  assumes "\<forall>r\<in>set (drop n (log_of ''qjob'' (work w))). terminal (lr_id r) (work w)" and "cursor_start c = n"
    and "length (log_of ''qjob'' (work w)) \<le> n + 50 * fuel" and "0 < fuel"
  shows "\<exists>s. srun env (scan_pages fuel J o1 c) w = (Inr False, w\<lparr>work := s\<rparr>) \<and> (s = work w \<and> length (log_of ''qjob'' (work w)) \<le> n + 50
     \<or> (\<exists>m\<ge>n + 50. ws_get QCURSOR s = JStr (show_nat m)))
     \<and> log_of ''qjob'' s = log_of ''qjob'' (work w) \<and> (\<forall>i. terminal i s = terminal i (work w))"
  using assms
proof (induction fuel arbitrary: c n w)
  case (Suc fuel)
  let ?L = "log_of ''qjob'' (work w)" and ?rs = "take 50 (drop n (log_of ''qjob'' (work w)))"
  have "\<forall>r\<in>set ?rs. terminal (lr_id r) (work w)" using Suc.prems(1) by (meson in_set_takeD)
  note scan = scan_jobs_terminal [OF this, of env J o1 True]
  show ?case
  proof (cases "n + 50 < length ?L")
    case False
    have "srun env (scan_pages (Suc fuel) J o1 c) w = (Inr False, w)"
      using scan False by (simp add: prog_simps ws_list_def paginate_def Let_def Suc.prems(2))
    then show ?thesis using False by (intro exI [of _ "work w"]) simp
  next
    case True
    let ?w = "w\<lparr>work := ws_put QCURSOR (JStr (show_nat (n + 50))) (work w)\<rparr>"
    have run: "srun env (scan_pages (Suc fuel) J o1 c) w = srun env (scan_pages fuel J o1 (Some (show_nat (n + 50)))) ?w"
      using scan True by (simp add: prog_simps ws_list_def paginate_def Let_def Suc.prems(2))
    have "0 < fuel" using True Suc.prems(3) by (cases fuel) auto
    moreover have "\<forall>r\<in>set (drop (n + 50) ?L). terminal (lr_id r) (work ?w)"
      using Suc.prems(1) set_drop_subset_set_drop [of n "n + 50" ?L] by auto
    ultimately obtain s where s: "srun env (scan_pages fuel J o1 (Some (show_nat (n + 50)))) ?w = (Inr False, ?w\<lparr>work := s\<rparr>)"
      "s = work ?w \<or> (\<exists>m\<ge>n + 50 + 50. ws_get QCURSOR s = JStr (show_nat m))" "log_of ''qjob'' s = ?L" "\<forall>i. terminal i s = terminal i (work w)"
      using Suc.IH [of "n + 50" ?w "Some (show_nat (n + 50))"] Suc.prems(3) by auto
    have "\<exists>m\<ge>n + 50. ws_get QCURSOR s = JStr (show_nat m)" using s(2) by (auto intro: exI [of _ "n + 50"])
    then show ?thesis using run s(1,3,4) by (intro exI [of _ s]) simp
  qed
qed simp

lemma acquire_held:
  assumes "map_of (store (journal b)) (lockKey r) = Some v" and "js_truthy v" and "js_ge (js_field ''expires'' v) (clock b)" and "has_putIfAbsent J"
  shows "\<exists>b'. run env (acquireRunLock J r ow ttl None) b = (Inr None, b') \<and> store (journal b') = store (journal b) \<and> clock b' = clock b"
  using assms
  by (auto simp: acquireRunLock_def lock_now_def Let_def prog_simps claim_def mem_putIfAbsent_def mem_get_def domIff)

lemma scan_jobs_held:
  assumes J: "has_putIfAbsent J" and i: "\<not> terminal i (work w)"
  shows "\<forall>r\<in>set rs. lr_id r \<noteq> i \<longrightarrow> terminal (lr_id r) (work w) \<Longrightarrow>
    map_of (store (journal b)) (lockKey (job_lease i)) = Some v \<Longrightarrow> js_truthy v \<Longrightarrow> js_ge (js_field ''expires'' v) (clock b) \<Longrightarrow>
    \<exists>b'. srun env (scan_jobs J o1 (map js_log_record rs) t) (w\<lparr>base := b\<rparr>) = (Inr (Some (t \<and> i \<notin> lr_id ` set rs)), w\<lparr>base := b'\<rparr>)"
proof (induction rs arbitrary: t b)
  case (Cons r rs)
  show ?case
  proof (cases "lr_id r = i")
    case True
    obtain b' where b': "run env (acquireRunLock J (job_lease i) (wk_owner o1) (wk_ttlMs o1) None) b = (Inr None, b')"
      "store (journal b') = store (journal b)" "clock b' = clock b"
      using acquire_held [OF Cons.prems(2-4) J] by blast
    obtain b'' where "srun env (scan_jobs J o1 (map js_log_record rs) False) (w\<lparr>base := b'\<rparr>) = (Inr (Some False), w\<lparr>base := b''\<rparr>)"
      using Cons.IH [of b' False] Cons.prems b' by auto
    then show ?thesis using True b'(1) i by (auto simp: prog_simps terminal_def)
  next
    case False
    then have "terminal (lr_id r) (work w)" using Cons.prems(1) by simp
    then have "srun env (scan_jobs J o1 (map js_log_record (r # rs)) t) (w\<lparr>base := b\<rparr>) = srun env (scan_jobs J o1 (map js_log_record rs) t) (w\<lparr>base := b\<rparr>)"
      by (auto simp: prog_simps terminal_def)
    then show ?thesis using Cons.IH [of b t] Cons.prems False by auto
  qed
qed auto

text \<open>A job that is not finished, while every job from the stored position on is.\<close>

definition stranded :: "string \<Rightarrow> InMemoryWorkStore \<Rightarrow> bool" where
  "stranded i s \<longleftrightarrow> i \<in> job_ids s \<and> \<not> terminal i s
     \<and> (\<forall>r\<in>set (drop (cursor_start (cursor_of (ws_get QCURSOR s))) (log_of ''qjob'' s)). terminal (lr_id r) s)"

lemma stranded_stays:
  assumes "stranded i (work w)" and "length (log_of ''qjob'' (work w)) \<le> 50 * fuel" and "0 < fuel"
  shows "\<exists>s. srun env (runOnce fuel J o1) w = (Inr False, w\<lparr>work := s\<rparr>) \<and> stranded i s"
proof -
  let ?n = "cursor_start (cursor_of (ws_get QCURSOR (work w)))"
  obtain s where s: "srun env (scan_pages fuel J o1 (cursor_of (ws_get QCURSOR (work w)))) w = (Inr False, w\<lparr>work := s\<rparr>)"
    "s = work w \<or> (\<exists>m\<ge>?n. ws_get QCURSOR s = JStr (show_nat m))"
    "log_of ''qjob'' s = log_of ''qjob'' (work w)" "\<forall>i. terminal i s = terminal i (work w)"
    using scan_finished_tail [of ?n w "cursor_of (ws_get QCURSOR (work w))" fuel env J o1] assms by (auto simp: stranded_def)
  then have "stranded i s"
    using assms(1) set_drop_subset_set_drop [of ?n _ "log_of ''qjob'' (work w)"] by (auto simp: stranded_def) blast
  then show ?thesis using s(1) by (auto simp: runOnce_def prog_simps)
qed


definition long_log :: "LogRecord list" where
  "long_log = map (\<lambda>n. \<lparr>lr_id = show_nat n, lr_payload = JobRecord ''mail'' JNull system_owner, lr_ts = int n\<rparr>) [0..<101]"

definition long_world :: sworld where
  "long_world = \<lparr>base = new_world\<lparr>clock := 1000, journal := mem_put 0 (lockKey (job_lease (show_nat 0))) (LockRecord ''other'' 31000 ''t'') empty_journal\<rparr>,
     work = \<lparr>logs = [(''qjob'', long_log)], kv = map (\<lambda>n. (QDONE (show_nat n), JObj [])) [1..<101], idc = 0\<rparr>\<rparr>"

lemma long_world_facts:
  "log_of ''qjob'' (work long_world) = long_log" "ws_get QCURSOR (work long_world) = JUndef"
  "0 < n \<Longrightarrow> n < 101 \<Longrightarrow> terminal (show_nat n) (work long_world)" "\<not> terminal (show_nat 0) (work long_world)"
proof -
  let ?m = "map (\<lambda>n. (QDONE (show_nat n), JObj [])) [1..<101]"
  have marked: "map_of ?m (QDONE (show_nat n)) = (if 0 < n \<and> n < 101 then Some (JObj []) else None)" for n
  proof (cases "0 < n \<and> n < 101")
    case True
    then have "(QDONE (show_nat n), JObj []) \<in> set ?m" by auto
    then obtain v where "map_of ?m (QDONE (show_nat n)) = Some v" by (meson weak_map_of_SomeI)
    then show ?thesis using True by (auto dest: map_of_SomeD)
  next
    case False
    then show ?thesis by (auto simp: map_of_eq_None_iff)
  qed
  have other: "map_of ?m k = None" if "\<And>n. k \<noteq> QDONE n" for k using that by (fastforce simp: map_of_eq_None_iff)
  show "log_of ''qjob'' (work long_world) = long_log" by (simp add: long_world_def log_of_def)
  show "ws_get QCURSOR (work long_world) = JUndef" using other [of QCURSOR] by (simp add: long_world_def ws_get_def)
  show "terminal (show_nat n) (work long_world)" if "0 < n" "n < 101" using that marked [of n] by (simp add: long_world_def terminal_def ws_get_def)
  show "\<not> terminal (show_nat 0) (work long_world)"
    using marked [of 0] other [of "QFAIL (show_nat 0)"] by (simp add: long_world_def terminal_def ws_get_def)
qed


end
