(* ===== verification/Events.thy ===== *)
theory Events
  imports Organization OwnedName WorkProg
begin

text \<open>
  The event bus (\<open>packages/events/src/index.ts\<close>): events are records of one log per topic in the work store, and every consumer keeps its own
  position, acknowledgements, retry records and dead letters beside it. Handlers and a \<open>retryDelayMs\<close> function are outside code. Any number of
  processes may poll under one consumer name. The loops over pages run on fuel.
\<close>

section \<open>Definitions\<close>

subsection \<open>Keys\<close>

definition enc_char :: "char \<Rightarrow> string" where
  "enc_char c = (if c = CHR ''%'' then ''%25'' else if c = CHR '':'' then ''%3A'' else [c])"

definition enc :: "string \<Rightarrow> string" where
  "enc part = concat (map enc_char part)"

definition logNsOf :: "string \<Rightarrow> string" where
  "logNsOf topic = ''evt:'' @ enc topic"

definition isOwnedId :: "string \<Rightarrow> bool" where
  "isOwnedId i = (case ownerOfName i of (ow, _) \<Rightarrow> o_orgId ow \<noteq> None \<or> o_resourceId ow \<noteq> None)"

definition markerKey :: "string \<Rightarrow> string \<Rightarrow> string \<Rightarrow> string \<Rightarrow> key" where
  "markerKey fam topic consumer i =
     (if isOwnedId i then fam @ '':'' @ enc i @ '':'' @ enc topic @ '':'' @ enc consumer
      else fam @ '':'' @ enc topic @ '':'' @ enc consumer @ '':'' @ enc i)"

definition ackKey :: "string \<Rightarrow> string \<Rightarrow> string \<Rightarrow> key" where "ackKey = markerKey ''evtack''"
definition attKey :: "string \<Rightarrow> string \<Rightarrow> string \<Rightarrow> key" where "attKey = markerKey ''evtatt''"
definition deadKey :: "string \<Rightarrow> string \<Rightarrow> string \<Rightarrow> key" where "deadKey = markerKey ''evtdead''"

definition depthNsOf :: "string \<Rightarrow> string option \<Rightarrow> string" where
  "depthNsOf topic orgId =
     (case orgId of None \<Rightarrow> ''evtdepth:'' @ enc topic | Some og \<Rightarrow> ''org:'' @ og @ '':evtdepth:'' @ enc topic)"

definition cursorKeyOf :: "string \<Rightarrow> string \<Rightarrow> key" where
  "cursorKeyOf topic consumer = ''evtcursor:'' @ enc topic @ '':'' @ enc consumer"

definition rescanKeyOf :: "string \<Rightarrow> string \<Rightarrow> key" where
  "rescanKeyOf topic consumer = ''evtrescan:'' @ enc topic @ '':'' @ enc consumer"

definition assertTopic :: "string \<Rightarrow> err + unit" where
  "assertTopic topic = (if topic = [] then Inl (Err ''TypeError'' ''topic'') else assertSystemName topic)"

definition owner_meta :: "string \<Rightarrow> (string \<times> js) list" where
  "owner_meta i = (case ownerOfName i of (ow, _) \<Rightarrow> opt_field ''orgId'' (o_orgId ow) @ opt_field ''resourceId'' (o_resourceId ow))"

subsection \<open>Emitting\<close>

record EmitOptions =
  em_id :: "string option"
  em_maxDepth :: "int option"
  em_resourceId :: "string option"
  em_orgId :: "string option"

definition no_fuel :: err where "no_fuel = Err ''OutOfFuel'' ''events''"

primrec countUpTo :: "nat \<Rightarrow> string \<Rightarrow> int \<Rightarrow> int \<Rightarrow> string option \<Rightarrow> int sprog" where
  "countUpTo 0 ns limit cnt cursor = Raise no_fuel"
| "countUpTo (Suc n) ns limit cnt cursor =
     bindp (wlist ns cursor) (\<lambda>(items, nxt).
       let cnt = cnt + int (length items) in
       if cnt \<ge> limit \<or> nxt = None then Ret cnt else countUpTo n ns limit cnt nxt)"

text \<open>\<open>scope\<close> is \<open>orgStorageScopeOf(work)\<close>.\<close>

definition emit :: "nat \<Rightarrow> string option \<Rightarrow> string \<Rightarrow> js \<Rightarrow> EmitOptions \<Rightarrow> string sprog" where
  "emit fuel scope topic payload opts =
     seqp (case scope of Some og \<Rightarrow> Raise (Err ''Error'' og) | None \<Rightarrow> Ret ())
     (seqp (liftp (assertTopic topic))
     (seqp (case em_orgId opts of None \<Rightarrow> Ret () | Some og \<Rightarrow> bindp (liftp (orgPrefix og)) (\<lambda>_. Ret ()))
     (seqp (if em_resourceId opts = Some [] then Raise (Err ''Error'' ''invalid resourceId'') else Ret ())
     (seqp (case em_maxDepth opts of None \<Rightarrow> Ret () | Some m \<Rightarrow>
              bindp (countUpTo fuel (depthNsOf topic (em_orgId opts)) m 0 None) (\<lambda>depth.
                if depth \<ge> m then Raise (Err ''EventDepthExceededError'' topic) else Ret ()))
     (bindp (case em_id opts of
               Some i \<Rightarrow> Ret (Some i)
             | None \<Rightarrow> if em_resourceId opts \<noteq> None \<or> em_orgId opts \<noteq> None then bindp (on_runs randomUUID) (\<lambda>u. Ret (Some u)) else Ret None) (\<lambda>name.
      bindp (case name of None \<Rightarrow> Ret None | Some nm \<Rightarrow>
               bindp (liftp (ownedName nm \<lparr>o_orgId = em_orgId opts, o_resourceId = em_resourceId opts\<rparr>)) (\<lambda>x. Ret (Some x))) (\<lambda>stored.
      bindp (wappend (logNsOf topic) payload stored) (\<lambda>i.
      seqp (bindp (wappend (depthNsOf topic (em_orgId opts)) (JObj []) (Some i)) (\<lambda>_. Ret ())) (Ret i)))))))))"

subsection \<open>Records of a delivery\<close>

record StoredAttempts =
  sa_n :: int
  sa_firstAt :: int
  sa_nextAt :: int
  sa_gen :: js

definition js_attempts :: "StoredAttempts \<Rightarrow> js" where
  "js_attempts a = JObj ([(''n'', JNum (sa_n a)), (''firstAt'', JNum (sa_firstAt a)), (''nextAt'', JNum (sa_nextAt a))]
     @ (if sa_gen a = JUndef then [] else [(''gen'', sa_gen a)]))"

definition readAttempts :: "js \<Rightarrow> StoredAttempts option" where
  "readAttempts raw =
     (case raw of
        JUndef \<Rightarrow> None
      | JNull \<Rightarrow> None
      | JNum n \<Rightarrow> Some \<lparr>sa_n = n, sa_firstAt = 0, sa_nextAt = 0, sa_gen = JUndef\<rparr>
      | _ \<Rightarrow> Some \<lparr>sa_n = js_int (js_field ''n'' raw), sa_firstAt = js_int (js_field ''firstAt'' raw),
                  sa_nextAt = js_int (js_field ''nextAt'' raw), sa_gen = js_field ''gen'' raw\<rparr>)"

text \<open>\<open>\<sim>{error, attempts, at, releasedAt?, releases?}\<close>: a dead record is read by its fields.\<close>

definition StoredDead :: "string \<Rightarrow> int \<Rightarrow> int \<Rightarrow> js \<Rightarrow> js" where
  "StoredDead error attempts at releases =
     JObj ([(''error'', JStr error), (''attempts'', JNum attempts), (''at'', JNum at)]
       @ (if releases = JUndef \<or> releases = JNull then [] else [(''releases'', releases)]))"

definition releaseStamp :: "js \<Rightarrow> string" where
  "releaseStamp rec = show_int (js_int (js_field ''releases'' rec)) @ ''@'' @ show_int (js_int (js_field ''releasedAt'' rec))"

definition defaultRetryDelay :: "int \<Rightarrow> int" where
  "defaultRetryDelay attempt = min (60000 * 2 ^ nat (attempt - 1)) 3600000"

subsection \<open>The consumer\<close>

datatype RetryDelay = DefaultDelay | FixedDelay js | DelayFunction

text \<open>\<open>co_maxAttempts = None\<close> is \<open>Infinity\<close>; \<open>co_putIfMatch\<close> says whether the work store has the method.\<close>

record ConsumerOptions =
  co_name :: string
  co_maxAttempts :: "int option"
  co_retryDelayMs :: RetryDelay
  co_putIfMatch :: bool

fun checked_delay :: "int \<Rightarrow> js \<Rightarrow> int" where
  "checked_delay attempt (JNum d) = max 0 d"
| "checked_delay attempt _ = defaultRetryDelay attempt"

definition delayFor :: "ConsumerOptions \<Rightarrow> int \<Rightarrow> int sprog" where
  "delayFor o1 attempt =
     (case co_retryDelayMs o1 of
        DefaultDelay \<Rightarrow> Ret (max 0 (defaultRetryDelay attempt))
      | FixedDelay v \<Rightarrow> Ret (checked_delay attempt v)
      | DelayFunction \<Rightarrow>
          catchp (bindp (on_runs (ext ''retryDelayMs'' (JNum attempt))) (\<lambda>raw. Ret (checked_delay attempt raw)))
            (\<lambda>_. Ret (defaultRetryDelay attempt)))"

definition at_limit :: "ConsumerOptions \<Rightarrow> int \<Rightarrow> bool" where
  "at_limit o1 n = (case co_maxAttempts o1 of None \<Rightarrow> False | Some m \<Rightarrow> n \<ge> m)"

text \<open>A conditional write of a record that was read as \<open>old\<close>: plain when there was none, or when the store has no \<open>putIfMatch\<close>.\<close>

definition put_over :: "ConsumerOptions \<Rightarrow> key \<Rightarrow> js \<Rightarrow> js \<Rightarrow> bool sprog" where
  "put_over o1 k old v =
     (if old = JUndef \<or> \<not> co_putIfMatch o1 then seqp (wput k v) (Ret True) else wputIfMatch k old v)"

text \<open>What becomes of one event in a pass: the cursor is frozen or not, and one delivery is counted or not.\<close>

datatype seen_event = Passed | Frozen | Delivered | NotCounted

text \<open>The \<open>catch\<close> of the handler; \<open>dead\<close> and \<open>attRaw\<close> were read before it ran.\<close>

definition failed_attempt :: "string \<Rightarrow> ConsumerOptions \<Rightarrow> string \<Rightarrow> js \<Rightarrow> js \<Rightarrow> err \<Rightarrow> seen_event sprog" where
  "failed_attempt topic o1 i dead attRaw err =
     (let ack = ackKey topic (co_name o1) i; dk = deadKey topic (co_name o1) i; ak = attKey topic (co_name o1) i; att = readAttempts attRaw in
      bindp (wget dk) (\<lambda>fresh.
      if releaseStamp fresh \<noteq> releaseStamp dead then Ret Frozen
      else bindp (on_runs date_now) (\<lambda>now.
        let n = (case att of None \<Rightarrow> 0 | Some a \<Rightarrow> sa_n a) + 1 in
        bindp (if at_limit o1 n then bindp (wget ack) (\<lambda>v. Ret (v \<noteq> JUndef)) else Ret False) (\<lambda>acked.
        if acked then Ret Passed
        else bindp (delayFor o1 n) (\<lambda>delay.
          let nxt = \<lparr>sa_n = n, sa_firstAt = (case att of None \<Rightarrow> now | Some a \<Rightarrow> if sa_firstAt a = 0 then now else sa_firstAt a),
                     sa_nextAt = now + delay, sa_gen = (case att of None \<Rightarrow> JUndef | Some a \<Rightarrow> sa_gen a)\<rparr> in
          bindp (put_over o1 ak attRaw (js_attempts nxt)) (\<lambda>wroteAtt.
          if \<not> wroteAtt then Ret Frozen
          else if at_limit o1 n then
            bindp (put_over o1 dk fresh (StoredDead (err_msg err) n now (js_field ''releases'' fresh))) (\<lambda>wrote.
              if wrote then Ret Passed else Ret Frozen)
          else Ret Frozen))))))"

definition process_event :: "string \<Rightarrow> ConsumerOptions \<Rightarrow> js \<Rightarrow> seen_event sprog" where
  "process_event topic o1 e =
     (let i = js_string (js_field ''id'' e); ack = ackKey topic (co_name o1) i in
      bindp (wget ack) (\<lambda>a.
      if a \<noteq> JUndef then Ret Passed
      else bindp (wget (deadKey topic (co_name o1) i)) (\<lambda>dead.
      if js_truthy dead \<and> \<not> js_truthy (js_field ''releasedAt'' dead) then Ret Passed
      else bindp (wget (attKey topic (co_name o1) i)) (\<lambda>attRaw.
      bindp (case readAttempts attRaw of None \<Rightarrow> Ret False | Some t \<Rightarrow> bindp (on_runs date_now) (\<lambda>now. Ret (sa_nextAt t > now))) (\<lambda>waiting.
      if waiting then Ret Frozen
      else bindp (outcome (on_runs (ext ''handler'' (JObj ([(''payload'', js_field ''payload'' e), (''id'', JStr i), (''topic'', JStr topic)] @ owner_meta i))))) (\<lambda>r.
        case r of
          Inl err \<Rightarrow> failed_attempt topic o1 i dead attRaw err
        | Inr _ \<Rightarrow> bindp (wackOnce ack) (\<lambda>first. Ret (if first then Delivered else NotCounted))))))))"

primrec poll_page :: "string \<Rightarrow> ConsumerOptions \<Rightarrow> js list \<Rightarrow> nat \<Rightarrow> bool \<Rightarrow> (nat \<times> bool) sprog" where
  "poll_page topic o1 [] delivered frozen = Ret (delivered, frozen)"
| "poll_page topic o1 (e # es) delivered frozen =
     bindp (process_event topic o1 e) (\<lambda>r.
       poll_page topic o1 es (if r = Delivered then delivered + 1 else delivered) (frozen \<or> r = Frozen))"

primrec poll_pages :: "nat \<Rightarrow> string \<Rightarrow> ConsumerOptions \<Rightarrow> bool \<Rightarrow> string option \<Rightarrow> nat \<Rightarrow> bool \<Rightarrow> nat sprog" where
  "poll_pages 0 topic o1 rescan cursor delivered frozen = Raise no_fuel"
| "poll_pages (Suc n) topic o1 rescan cursor delivered frozen =
     bindp (wlist (logNsOf topic) cursor) (\<lambda>(items, nxt).
     bindp (poll_page topic o1 items delivered frozen) (\<lambda>(delivered, frozen).
       case nxt of
         None \<Rightarrow> seqp (if rescan then wput (rescanKeyOf topic (co_name o1)) (JBool False) else Ret ()) (Ret delivered)
       | Some c \<Rightarrow> seqp (if frozen then Ret () else wput (cursorKeyOf topic (co_name o1)) (JStr c))
                     (poll_pages n topic o1 rescan nxt delivered frozen)))"

definition nonempty_cursor :: "js \<Rightarrow> string option" where
  "nonempty_cursor v = (case v of JStr s \<Rightarrow> if s = [] then None else Some s | _ \<Rightarrow> None)"

text \<open>\<open>createConsumer(...).poll()\<close>\<close>

definition poll :: "nat \<Rightarrow> string \<Rightarrow> ConsumerOptions \<Rightarrow> nat sprog" where
  "poll fuel topic o1 =
     seqp (liftp (assertTopic topic))
     (bindp (wget (rescanKeyOf topic (co_name o1))) (\<lambda>f.
      let rescan = (f = JBool True) in
      seqp (if rescan then wput (cursorKeyOf topic (co_name o1)) (JStr []) else Ret ())
      (bindp (if rescan then Ret None else bindp (wget (cursorKeyOf topic (co_name o1))) (\<lambda>c. Ret (nonempty_cursor c))) (\<lambda>cursor.
        poll_pages fuel topic o1 rescan cursor 0 False))))"

subsection \<open>Dead letters\<close>

record DeadEvent =
  de_rec :: js
  de_id :: string
  de_payload :: js
  de_owner :: "(string \<times> js) list"
  de_status :: string

primrec listDeadEvents :: "nat \<Rightarrow> string \<Rightarrow> string \<Rightarrow> DeadEvent list \<Rightarrow> string option \<Rightarrow> (DeadEvent list) sprog" where
  "listDeadEvents 0 topic consumer out cursor = Raise no_fuel"
| "listDeadEvents (Suc n) topic consumer out cursor =
     bindp (wlist (logNsOf topic) cursor) (\<lambda>(items, nxt).
     bindp (foldp (\<lambda>out e.
       let i = js_string (js_field ''id'' e) in
       bindp (wget (deadKey topic consumer i)) (\<lambda>rec.
         if \<not> js_truthy rec then Ret out
         else bindp (wget (ackKey topic consumer i)) (\<lambda>a.
           Ret (out @ [\<lparr>de_rec = rec, de_id = i, de_payload = js_field ''payload'' e, de_owner = owner_meta i,
             de_status = (if a \<noteq> JUndef then ''delivered'' else if js_truthy (js_field ''releasedAt'' rec) then ''released'' else ''quarantined'')\<rparr>])))) out items) (\<lambda>out.
       if nxt = None then Ret out else listDeadEvents n topic consumer out nxt))"

definition RELEASE_CAS_TRIES :: nat where "RELEASE_CAS_TRIES = 5"

text \<open>\<open>{ ...rec, releasedAt, releases }\<close>\<close>

definition released_rec :: "js \<Rightarrow> int \<Rightarrow> js" where
  "released_rec rec now =
     JObj (js_set ''releases'' (JNum (js_int (js_field ''releases'' rec) + 1)) (js_set ''releasedAt'' (JNum now) (js_props rec)))"

primrec release_loop :: "nat \<Rightarrow> bool \<Rightarrow> string \<Rightarrow> string \<Rightarrow> string \<Rightarrow> bool sprog" where
  "release_loop 0 cas topic consumer i = Ret False"
| "release_loop (Suc tries) cas topic consumer i =
     bindp (wget (deadKey topic consumer i)) (\<lambda>rec.
     if \<not> js_truthy rec then Ret False
     else bindp (wget (ackKey topic consumer i)) (\<lambda>a.
     if a \<noteq> JUndef then Ret False
     else bindp (on_runs date_now) (\<lambda>now.
       let released = released_rec rec now in
       seqp (wput (attKey topic consumer i) (js_attempts \<lparr>sa_n = 0, sa_firstAt = 0, sa_nextAt = 0, sa_gen = JStr (releaseStamp released)\<rparr>))
       (bindp (if \<not> cas then seqp (wput (deadKey topic consumer i) released) (Ret True)
               else wputIfMatch (deadKey topic consumer i) rec released) (\<lambda>wrote.
        if \<not> wrote then release_loop tries cas topic consumer i
        else seqp (wput (rescanKeyOf topic consumer) (JBool True)) (Ret True))))))"

definition retryDeadEvent :: "bool \<Rightarrow> string \<Rightarrow> string \<Rightarrow> string \<Rightarrow> bool sprog" where
  "retryDeadEvent cas topic consumer i = release_loop RELEASE_CAS_TRIES cas topic consumer i"

subsection \<open>Erasure\<close>

definition eventEraser :: "string option \<Rightarrow> bool \<Rightarrow> bool \<Rightarrow> string \<Rightarrow> string option \<Rightarrow> int sprog" where
  "eventEraser scope can_deleteIds can_deleteKeys resourceId orgId =
     seqp (case scope of Some og \<Rightarrow> Raise (Err ''Error'' og) | None \<Rightarrow> Ret ())
     (if \<not> can_deleteIds \<or> \<not> can_deleteKeys then Raise (Err ''Error'' ''deleteIdPrefix'')
      else bindp (liftp (ownedPrefix \<lparr>o_orgId = orgId, o_resourceId = Some resourceId\<rparr>)) (\<lambda>pre.
        bindp (wdeleteIdPrefix pre) (\<lambda>n0.
          foldp (\<lambda>n fam. bindp (wdeletePrefix (fam @ '':'' @ enc pre)) (\<lambda>k. Ret (n + k))) n0 [''evtack'', ''evtatt'', ''evtdead''])))"

section \<open>Keys\<close>

lemma enc_Nil [simp]: "enc [] = []" and enc_append [simp]: "enc (a @ b) = enc a @ enc b" and enc_Cons: "enc (c # s) = enc_char c @ enc s"
  by (simp_all add: enc_def)

lemma enc_no_colon [simp]: "CHR '':'' \<notin> set (enc s)"
  by (induction s) (auto simp: enc_def enc_char_def)

lemma enc_char_prefix: "enc_char c @ x = enc_char d @ y \<Longrightarrow> c = d \<and> x = y"
  by (auto simp: enc_char_def split: if_splits)

lemma enc_inject [simp]: "enc a = enc b \<longleftrightarrow> a = b"
proof
  show "enc a = enc b \<Longrightarrow> a = b"
  proof (induction a arbitrary: b)
    case Nil
    then show ?case by (cases b) (auto simp: enc_Cons enc_char_def split: if_splits)
  next
    case (Cons c a)
    then obtain d b' where b: "b = d # b'" by (cases b) (auto simp: enc_Cons enc_char_def split: if_splits)
    with Cons.prems enc_char_prefix have "c = d" "enc a = enc b'" by (metis enc_Cons)+
    with b Cons.IH show ?case by simp
  qed
qed simp

lemma colon_split: "CHR '':'' \<notin> set a \<Longrightarrow> CHR '':'' \<notin> set b \<Longrightarrow> a @ CHR '':'' # x = b @ CHR '':'' # y \<longleftrightarrow> a = b \<and> x = y"
  by (metis cut_colon_append option.inject prod.inject)

lemma cursorKey_inject [simp]: "cursorKeyOf t c = cursorKeyOf t' c' \<longleftrightarrow> t = t' \<and> c = c'"
  by (simp add: cursorKeyOf_def colon_split)

lemma marker_family:
  "markerKey fam t c i = fam @ CHR '':'' # tl (drop (length fam) (markerKey fam t c i))"
  by (simp add: markerKey_def)

lemma marker_keys [simp]:
  "ackKey t c i \<noteq> cursorKeyOf t' c'" "deadKey t c i \<noteq> cursorKeyOf t' c'" "attKey t c i \<noteq> cursorKeyOf t' c'" "rescanKeyOf t c \<noteq> cursorKeyOf t' c'"
  "\<not> prefix ''evtdead:'' (attKey t c i)" "\<not> prefix ''evtdead:'' (cursorKeyOf t c)" "\<not> prefix ''evtdead:'' (rescanKeyOf t c)" "\<not> prefix ''evtdead:'' (ackKey t c i)"
  "prefix ''evtdead:'' (deadKey t c i)" "ackKey t c i \<noteq> attKey t' c' j" "ackKey t c i \<noteq> deadKey t' c' j" "attKey t c i \<noteq> deadKey t' c' j"
  "cursorKeyOf t c \<noteq> ackKey t' c' j" "cursorKeyOf t c \<noteq> attKey t' c' j" "cursorKeyOf t c \<noteq> deadKey t' c' j" "cursorKeyOf t c \<noteq> rescanKeyOf t' c'"
  "ackKey t c i \<noteq> rescanKeyOf t' c'" "attKey t c i \<noteq> rescanKeyOf t' c'" "deadKey t c i \<noteq> rescanKeyOf t' c'"
  "rescanKeyOf t c \<noteq> ackKey t' c' j" "rescanKeyOf t c \<noteq> attKey t' c' j" "rescanKeyOf t c \<noteq> deadKey t' c' j"
  "attKey t c i \<noteq> ackKey t' c' j" "deadKey t c i \<noteq> ackKey t' c' j" "deadKey t c i \<noteq> attKey t' c' j"
  by (auto simp: ackKey_def attKey_def deadKey_def markerKey_def cursorKeyOf_def rescanKeyOf_def)

section \<open>No event is skipped\<close>

text \<open>A consumer is done with an event: it has acknowledged it, or there is a dead letter for it.\<close>

definition settled :: "string \<Rightarrow> string \<Rightarrow> string \<Rightarrow> InMemoryWorkStore \<Rightarrow> bool" where
  "settled T C i s \<longleftrightarrow> ws_get (ackKey T C i) s \<noteq> JUndef \<or> js_truthy (ws_get (deadKey T C i) s)"

definition settled_below :: "string \<Rightarrow> string \<Rightarrow> nat \<Rightarrow> InMemoryWorkStore \<Rightarrow> bool" where
  "settled_below T C m s \<longleftrightarrow>
     (\<forall>p<m. p < length (log_of (logNsOf T) s) \<and> settled T C (lr_id (log_of (logNsOf T) s ! p)) s)"

definition position :: "string \<Rightarrow> string \<Rightarrow> InMemoryWorkStore \<Rightarrow> nat" where
  "position T C s = cursor_start (nonempty_cursor (ws_get (cursorKeyOf T C) s))"

text \<open>What a poller knows: a position below which all is settled, records it has listed, and events it has found settled.\<close>

record pass =
  pa_low :: nat
  pa_at :: "(nat \<times> string) set"
  pa_ok :: "string set"

definition pass0 :: pass where "pass0 = \<lparr>pa_low = 0, pa_at = {}, pa_ok = {}\<rparr>"

definition pass_true :: "string \<Rightarrow> string \<Rightarrow> InMemoryWorkStore \<Rightarrow> pass \<Rightarrow> bool" where
  "pass_true T C s g \<longleftrightarrow> settled_below T C (pa_low g) s
     \<and> (\<forall>(p, i)\<in>pa_at g. p < length (log_of (logNsOf T) s) \<and> lr_id (log_of (logNsOf T) s ! p) = i)
     \<and> (\<forall>i\<in>pa_ok g. settled T C i s)"

definition passable :: "pass \<Rightarrow> nat \<Rightarrow> bool" where
  "passable g m \<longleftrightarrow> (\<forall>p<m. p < pa_low g \<or> (\<exists>i. (p, i) \<in> pa_at g \<and> i \<in> pa_ok g))"

definition defined_kv :: "InMemoryWorkStore \<Rightarrow> bool" where
  "defined_kv s \<longleftrightarrow> (\<forall>k. map_of (kv s) k \<noteq> Some JUndef)"

definition poll_inv :: "string \<Rightarrow> string \<Rightarrow> sworld \<Rightarrow> (nat \<Rightarrow> pass) \<Rightarrow> bool" where
  "poll_inv T C w gs \<longleftrightarrow> defined_kv (work w) \<and> settled_below T C (position T C (work w)) (work w) \<and> (\<forall>i. pass_true T C (work w) (gs i))"

definition marks :: "key \<Rightarrow> js \<Rightarrow> bool" where
  "marks k v \<longleftrightarrow> v \<noteq> JUndef \<and> (prefix ''evtdead:'' k \<longrightarrow> js_truthy v)"

definition poll_allowed :: "string \<Rightarrow> string \<Rightarrow> pass \<Rightarrow> sop \<Rightarrow> bool" where
  "poll_allowed T C g c \<longleftrightarrow>
     (case c of
        Work (WPut k v) \<Rightarrow> marks k v \<and> (k = cursorKeyOf T C \<longrightarrow> passable g (cursor_start (nonempty_cursor v)))
      | Work (WPutIfMatch k e v) \<Rightarrow> marks k v \<and> k \<noteq> cursorKeyOf T C
      | Work (WDeletePrefix p) \<Rightarrow> False
      | Work (WDeleteIdPrefix p) \<Rightarrow> False
      | _ \<Rightarrow> True)"

definition found :: "string \<Rightarrow> string \<Rightarrow> key \<Rightarrow> js \<Rightarrow> string set" where
  "found T C k v = {i. k = ackKey T C i \<and> v \<noteq> JUndef \<or> k = deadKey T C i \<and> js_truthy v}"

definition listed :: "nat \<Rightarrow> js list \<Rightarrow> (nat \<times> string) set" where
  "listed n es = {(n + j, js_string (js_field ''id'' (es ! j))) | j. j < length es}"

definition poll_upd :: "string \<Rightarrow> string \<Rightarrow> pass \<Rightarrow> sop \<Rightarrow> err + js \<Rightarrow> pass" where
  "poll_upd T C g c r =
     (case (c, r) of
        (Work (WGet k), Inr v) \<Rightarrow>
          (if k = cursorKeyOf T C then g\<lparr>pa_low := max (pa_low g) (cursor_start (nonempty_cursor v))\<rparr> else g\<lparr>pa_ok := pa_ok g \<union> found T C k v\<rparr>)
      | (Work (WPut k v), Inr _) \<Rightarrow> g\<lparr>pa_ok := pa_ok g \<union> found T C k v\<rparr>
      | (Work (WPutIfMatch k e v), Inr b) \<Rightarrow> (if js_truthy b then g\<lparr>pa_ok := pa_ok g \<union> found T C k v\<rparr> else g)
      | (Work (WAckOnce k), Inr _) \<Rightarrow> g\<lparr>pa_ok := pa_ok g \<union> {i. k = ackKey T C i}\<rparr>
      | (Work (WList ns cur), Inr v) \<Rightarrow>
          (if ns = logNsOf T then g\<lparr>pa_at := pa_at g \<union> listed (cursor_start cur) (js_items (js_field ''items'' v))\<rparr> else g)
      | _ \<Rightarrow> g)"

text \<open>A page holds fifty records unless it is the last one.\<close>

definition poll_resp :: "pass \<Rightarrow> sop \<Rightarrow> err + js \<Rightarrow> bool" where
  "poll_resp g c r \<longleftrightarrow>
     (\<forall>ns cur v n. c = Work (WList ns cur) \<and> r = Inr v \<and> cursor_of (js_field ''nextCursor'' v) = Some n \<longrightarrow>
        length (js_items (js_field ''items'' v)) = 50 \<and> n = show_nat (cursor_start cur + 50))"

abbreviation poll_wp :: "string \<Rightarrow> string \<Rightarrow> 'a sprog \<Rightarrow> pass \<Rightarrow> (pass \<Rightarrow> err + 'a \<Rightarrow> bool) \<Rightarrow> bool" where
  "poll_wp T C \<equiv> wp poll_resp (poll_allowed T C) (poll_upd T C)"

text \<open>Nothing that was settled or listed is lost by a permitted call.\<close>

lemma settled_put: "marks k v \<Longrightarrow> settled T C i s \<Longrightarrow> settled T C i (ws_put k v s)"
  by (auto simp: settled_def marks_def)

lemma ackOnce_put: "ws_ackOnce k s = (b, s') \<Longrightarrow> s' = s \<or> s' = ws_put k (JBool True) s"
  by (auto simp: ws_ackOnce_def split: if_splits)

lemma putIfMatch_put: "ws_putIfMatch k e v s = (b, s') \<Longrightarrow> (s' = s \<and> \<not> b) \<or> (s' = ws_put k v s \<and> b)"
  by (auto simp: ws_putIfMatch_def split: if_splits)

lemma marks_true [simp]: "marks k (JBool True)"
  by (simp add: marks_def)

lemma allowed_effect:
  assumes "poll_allowed T C g (Work c)" and "work_op now c s = (r, s')"
  shows "prefix (log_of ns s) (log_of ns s')" and "settled T C i s \<Longrightarrow> settled T C i s'"
proof -
  have "\<forall>p. c \<noteq> WDeletePrefix p" "\<forall>p. c \<noteq> WDeleteIdPrefix p" using assms(1) by (auto simp: poll_allowed_def)
  from log_extends [OF this, of ns s now] show "prefix (log_of ns s) (log_of ns s')" using assms(2) by simp
  show "settled T C i s'" if "settled T C i s"
  proof (cases c)
    case (WAppend ns payload j)
    then have "s' = snd (ws_append now ns payload j s)" using assms(2) by (cases "ws_append now ns payload j s") auto
    then show ?thesis using that by (simp add: settled_def)
  next
    case (WAckOnce k)
    then show ?thesis using assms(2) that ackOnce_put by (cases "ws_ackOnce k s") (force simp: settled_put)
  next
    case (WPutIfMatch k e v)
    then show ?thesis using assms that putIfMatch_put by (cases "ws_putIfMatch k e v s") (force simp: poll_allowed_def settled_put)
  qed (use assms that in \<open>auto simp: poll_allowed_def settled_put\<close>)
qed

lemma settled_below_effect:
  assumes "\<And>ns. prefix (log_of ns s) (log_of ns s')" and "\<And>i. settled T C i s \<Longrightarrow> settled T C i s'" and "settled_below T C m s"
  shows "settled_below T C m s'"
proof -
  obtain zs where "log_of (logNsOf T) s' = log_of (logNsOf T) s @ zs" using assms(1) by (auto simp: prefix_def)
  then show ?thesis using assms(2,3) by (auto simp: settled_below_def nth_append)
qed

lemma pass_true_effect:
  assumes "\<And>ns. prefix (log_of ns s) (log_of ns s')" and "\<And>i. settled T C i s \<Longrightarrow> settled T C i s'" and "pass_true T C s g"
  shows "pass_true T C s' g"
proof -
  obtain zs where "log_of (logNsOf T) s' = log_of (logNsOf T) s @ zs" using assms(1) by (auto simp: prefix_def)
  then show ?thesis using assms(2,3) settled_below_effect [OF assms(1,2), of "pa_low g"] by (auto simp: pass_true_def nth_append)
qed

lemma passable_settled: "pass_true T C s g \<Longrightarrow> passable g m \<Longrightarrow> settled_below T C m s"
  by (fastforce simp: pass_true_def passable_def settled_below_def)

lemma position_effect:
  assumes "settled_below T C (position T C s) s" and "pass_true T C s g" and al: "poll_allowed T C g (Work c)" and op: "work_op now c s = (r, s')"
  shows "settled_below T C (position T C s') s'"
proof -
  have m: "settled_below T C m s'" if "settled_below T C m s" for m
    using settled_below_effect [OF allowed_effect [OF al op] that] .
  have same: ?thesis if "ws_get (cursorKeyOf T C) s' = ws_get (cursorKeyOf T C) s"
    using m [OF assms(1)] that by (simp add: position_def)
  show ?thesis
  proof (cases c)
    case (WAppend ns payload j)
    then have "s' = snd (ws_append now ns payload j s)" using op by (cases "ws_append now ns payload j s") auto
    then show ?thesis using same by simp
  next
    case (WPut k v)
    then have "s' = ws_put k v s" using op by simp
    moreover have "k = cursorKeyOf T C \<Longrightarrow> settled_below T C (cursor_start (nonempty_cursor v)) s'"
      using al WPut m passable_settled [OF assms(2)] by (simp add: poll_allowed_def)
    ultimately show ?thesis using same by (cases "k = cursorKeyOf T C") (auto simp: position_def)
  next
    case (WAckOnce k)
    then have "s' = s \<or> s' = ws_put k (JBool True) s" using op ackOnce_put by (cases "ws_ackOnce k s") force
    then show ?thesis using same by (cases "k = cursorKeyOf T C") (auto simp: position_def nonempty_cursor_def cursor_start_def settled_below_def)
  next
    case (WPutIfMatch k e v)
    then have "s' = s \<or> s' = ws_put k v s" "k \<noteq> cursorKeyOf T C"
      using op al putIfMatch_put by (cases "ws_putIfMatch k e v s"; force simp: poll_allowed_def)+
    then show ?thesis using same by auto
  qed (use op al same in \<open>auto simp: poll_allowed_def\<close>)
qed

lemma pass_true_found: "pass_true T C s g \<Longrightarrow> (\<And>i. i \<in> F \<Longrightarrow> settled T C i s) \<Longrightarrow> pass_true T C s (g\<lparr>pa_ok := pa_ok g \<union> F\<rparr>)"
  by (auto simp: pass_true_def)

lemma found_settled: "i \<in> found T C k v \<Longrightarrow> ws_get k s = v \<Longrightarrow> settled T C i s"
  by (auto simp: found_def settled_def)

lemma listed_page:
  "(p, i) \<in> listed n (map js_log_record (take 50 (drop n L))) \<Longrightarrow> p < length L \<and> lr_id (L ! p) = i"
  by (auto simp: listed_def)

lemma defined_kv_effect:
  assumes "defined_kv s" and "poll_allowed T C g (Work c)" and "work_op now c s = (r, s')"
  shows "defined_kv s'"
proof -
  have put: "v \<noteq> JUndef \<Longrightarrow> defined_kv (ws_put k v s)" for k v using assms(1) by (simp add: defined_kv_def ws_put_def map_of_js_set)
  show ?thesis
    using assms put by (cases c) (auto simp: poll_allowed_def marks_def ws_append_def ws_ackOnce_def ws_putIfMatch_def Let_def defined_kv_def split: if_splits option.splits)
qed

lemma knowledge_effect:
  assumes def: "defined_kv s" and inv: "settled_below T C (position T C s) s" and g: "pass_true T C s g" and al: "poll_allowed T C g (Work c)" and op: "work_op now c s = (r, s')"
  shows "pass_true T C s' (poll_upd T C g (Work c) (Inr r))"
proof -
  have g': "pass_true T C s' g" using pass_true_effect [OF allowed_effect [OF al op] g] .
  show ?thesis
  proof (cases c)
    case (WGet k)
    have "pass_true T C s (g\<lparr>pa_low := max (pa_low g) (position T C s)\<rparr>)"
      using g inv by (auto simp: pass_true_def max_def)
    then show ?thesis using WGet op g' pass_true_found [OF g', of "found T C k r"] found_settled [of _ T C k r s]
      by (auto simp: poll_upd_def position_def)
  next
    case (WPut k v)
    then have "ws_get k s' = v" using op by auto
    then show ?thesis using WPut pass_true_found [OF g', of "found T C k v"] found_settled [of _ T C k v s'] by (auto simp: poll_upd_def)
  next
    case (WPutIfMatch k e v)
    then have "js_truthy r \<Longrightarrow> ws_get k s' = v" using op putIfMatch_put by (cases "ws_putIfMatch k e v s") force
    then show ?thesis using WPutIfMatch g' pass_true_found [OF g', of "found T C k v"] found_settled [of _ T C k v s'] by (auto simp: poll_upd_def)
  next
    case (WAckOnce k)
    have "ws_get k s' \<noteq> JUndef"
    proof (cases "js_has (kv s) k")
      case True
      then show ?thesis using WAckOnce op def by (force simp: ws_ackOnce_def ws_get_def defined_kv_def)
    qed (use WAckOnce op in \<open>auto simp: ws_ackOnce_def\<close>)
    then show ?thesis using WAckOnce pass_true_found [OF g', of "{i. k = ackKey T C i}"] by (auto simp: poll_upd_def settled_def)
  next
    case (WList ns cur)
    then show ?thesis using op g' listed_page [of _ _ "cursor_start cur" "log_of ns s"]
      by (auto simp: poll_upd_def pass_true_def ws_list_def)
  qed (use g' in \<open>auto simp: poll_upd_def\<close>)
qed

lemma poll_inv_call:
  assumes inv: "poll_inv T C w gs" and al: "poll_allowed T C (gs i) c" and ans: "sanswer c w r w'"
  shows "poll_inv T C w' (gs(i := poll_upd T C (gs i) c r))"
proof (cases c)
  case (Runs x)
  then have "work w' = work w" "poll_upd T C (gs i) c r = gs i" using ans by (auto simp: sanswer_Runs poll_upd_def split: sum.splits)
  then show ?thesis using inv by (simp add: poll_inv_def)
next
  case (Work x)
  obtain r0 s where op: "work_op (clock (base w)) x (work w) = (r0, s)" by fastforce
  have w: "defined_kv (work w)" "settled_below T C (position T C (work w)) (work w)" "pass_true T C (work w) (gs j)" for j
    using inv by (auto simp: poll_inv_def)
  note al' = al [unfolded Work]
  have s: "defined_kv s" "settled_below T C (position T C s) s" "pass_true T C s (gs j)" for j
    using defined_kv_effect [OF w(1) al' op] position_effect [OF w(2) w(3) al' op] pass_true_effect [OF allowed_effect [OF al' op] w(3)] by auto
  have k: "pass_true T C s (poll_upd T C (gs i) c (Inr r0))" using knowledge_effect [OF w(1,2) w(3) al' op] Work by simp
  have e: "poll_upd T C (gs i) c (Inl e) = gs i" for e by (simp add: poll_upd_def Work split: wop.split)
  from ans [unfolded Work] show ?thesis
    by (cases rule: sanswer_WorkE) (use op s k e w in \<open>auto simp: poll_inv_def Work\<close>)
qed

lemma poll_inv_resp: "sanswer c w r w' \<Longrightarrow> poll_resp g c r"
  by (auto simp: poll_resp_def sanswer_Work ws_list_def split: if_splits)

interpretation bus: call_protocol sanswer spasses "poll_allowed T C" "poll_upd T C" pass0 "poll_inv T C" poll_resp for T C
  by unfold_locales (rule poll_inv_call, assumption+, auto simp: spasses_def poll_inv_def intro: poll_inv_resp)


subsection \<open>The programs of the bus\<close>

definition pass_le :: "pass \<Rightarrow> pass \<Rightarrow> bool" where
  "pass_le g g' \<longleftrightarrow> pa_low g \<le> pa_low g' \<and> pa_at g \<subseteq> pa_at g' \<and> pa_ok g \<subseteq> pa_ok g'"

lemma pass_le_refl [simp]: "pass_le g g" and pass_le_trans: "pass_le a b \<Longrightarrow> pass_le b c \<Longrightarrow> pass_le a c"
  by (auto simp: pass_le_def)

lemma pass_le_upd: "pass_le g (poll_upd T C g c r)"
  by (auto simp: pass_le_def poll_upd_def split: sop.split wop.split sum.split)

lemma passable_mono: "passable g m \<Longrightarrow> pass_le g g' \<Longrightarrow> passable g' m"
  by (fastforce simp: passable_def pass_le_def)

lemma wp_knowledge: "poll_wp T C p g Q \<Longrightarrow> pass_le g0 g \<Longrightarrow> poll_wp T C p g (\<lambda>g' r. pass_le g0 g' \<and> Q g' r)"
proof (induction p arbitrary: g)
  case (Op c k)
  then show ?case using pass_le_trans [OF _ pass_le_upd] by (simp add: Op.IH)
qed auto

lemma wp_of_runs: "(\<And>r. Q g r) \<Longrightarrow> poll_wp T C (on_runs p) g Q"
  by (rule wp_calls_in [where P = "\<lambda>c. \<exists>x. c = Runs x"]) (auto simp: poll_allowed_def poll_upd_def calls_in_mono [where P = "\<lambda>_. True"] split: sum.split, induction p, auto)

lemma wp_work:
  "poll_wp T C (wget k) g Q = ((\<forall>e. Q g (Inl e)) \<and> (\<forall>v. Q (poll_upd T C g (Work (WGet k)) (Inr v)) (Inr v)))"
  "poll_wp T C (wackOnce k) g B = ((\<forall>e. B g (Inl e)) \<and> (\<forall>v. B (poll_upd T C g (Work (WAckOnce k)) (Inr v)) (Inr (js_truthy v))))"
  "poll_wp T C (wput k v) g U = (poll_allowed T C g (Work (WPut k v)) \<and> (\<forall>e. U g (Inl e)) \<and> U (poll_upd T C g (Work (WPut k v)) (Inr JUndef)) (Inr ()))"
  "poll_wp T C (wputIfMatch k e v) g B =
     (poll_allowed T C g (Work (WPutIfMatch k e v)) \<and> (\<forall>e. B g (Inl e)) \<and> B g (Inr False) \<and> B (g\<lparr>pa_ok := pa_ok g \<union> found T C k v\<rparr>) (Inr True))"
proof -
  have e: "poll_upd T C g (Work c) (Inl e) = g" for c e by (simp add: poll_upd_def split: wop.split)
  have b: "(\<forall>v. P (js_truthy v)) \<longleftrightarrow> P True \<and> P False" for P by (metis (full_types) js_truthy.simps(3))
  show "poll_wp T C (wget k) g Q = ((\<forall>e. Q g (Inl e)) \<and> (\<forall>v. Q (poll_upd T C g (Work (WGet k)) (Inr v)) (Inr v)))"
    "poll_wp T C (wackOnce k) g B = ((\<forall>e. B g (Inl e)) \<and> (\<forall>v. B (poll_upd T C g (Work (WAckOnce k)) (Inr v)) (Inr (js_truthy v))))"
    "poll_wp T C (wput k v) g U = (poll_allowed T C g (Work (WPut k v)) \<and> (\<forall>e. U g (Inl e)) \<and> U (poll_upd T C g (Work (WPut k v)) (Inr JUndef)) (Inr ()))"
    by (auto simp: wget_def wackOnce_def wput_def vc_intros poll_resp_def e all_sum [of "\<lambda>r. _ r \<longrightarrow> _ r"] poll_allowed_def poll_upd_def split: sum.split)
  show "poll_wp T C (wputIfMatch k e v) g B =
     (poll_allowed T C g (Work (WPutIfMatch k e v)) \<and> (\<forall>e. B g (Inl e)) \<and> B g (Inr False) \<and> B (g\<lparr>pa_ok := pa_ok g \<union> found T C k v\<rparr>) (Inr True))"
    using b [of "\<lambda>t. B (if t then g\<lparr>pa_ok := pa_ok g \<union> found T C k v\<rparr> else g) (Inr t)"]
    by (simp add: wputIfMatch_def vc_intros poll_resp_def e all_sum) (auto simp: poll_upd_def)
qed


lemma poll_marks [simp]:
  "marks (attKey T C i) (js_attempts a)" "marks (deadKey T C i) (StoredDead er n at rl)" "marks (deadKey T C i) (released_rec rec now)"
  "js_truthy (StoredDead er n at rl)" "marks (cursorKeyOf T C) (JStr c)" "marks (rescanKeyOf T C) (JBool b)"
  by (simp_all add: marks_def js_attempts_def StoredDead_def released_rec_def)

lemma wp_put_over:
  assumes "marks k v" and "k \<noteq> cursorKeyOf T C" and "\<And>e. Q g (Inl e)" and "Q g (Inr False)" and "Q (g\<lparr>pa_ok := pa_ok g \<union> found T C k v\<rparr>) (Inr True)"
  shows "poll_wp T C (put_over o1 k old v) g Q"
  using assms by (auto simp: put_over_def vc_intros wp_work poll_allowed_def poll_upd_def)

lemma wp_delayFor: "(\<And>r. Q g r) \<Longrightarrow> poll_wp T C (delayFor o1 n) g Q"
  by (auto simp: delayFor_def vc_intros intro!: wp_of_runs split: RetryDelay.split sum.split)

text \<open>The \<open>catch\<close> leaves the cursor free only if the event is settled.\<close>

definition frees :: "string \<Rightarrow> pass \<Rightarrow> err + seen_event \<Rightarrow> bool" where
  "frees i g r \<longleftrightarrow> (\<forall>x. r = Inr x \<and> x \<noteq> Frozen \<longrightarrow> i \<in> pa_ok g)"

lemma frees_simps [simp]: "frees i g (Inl e)" "frees i g (Inr Frozen)" "i \<in> pa_ok g \<Longrightarrow> frees i g r"
  by (auto simp: frees_def)

lemma wp_failed_attempt: "poll_wp T (co_name o1) (failed_attempt T o1 i dead attRaw err) g (frees i)"
  unfolding failed_attempt_def Let_def
  by (auto simp: vc_intros wp_work poll_upd_def found_def split: sum.split intro!: wp_of_runs wp_delayFor wp_put_over)

lemma wp_process_event:
  "poll_wp T (co_name o1) (process_event T o1 e) g (\<lambda>g' r. pass_le g g' \<and> frees (js_string (js_field ''id'' e)) g' r)"
  by (rule wp_knowledge)
    (auto simp: process_event_def Let_def vc_intros wp_work poll_upd_def found_def outcome_def wp_failed_attempt split: sum.split option.split intro!: wp_of_runs)

lemma wp_poll_page:
  "poll_wp T (co_name o1) (poll_page T o1 es d f) g (\<lambda>g' r. pass_le g g' \<and>
     (\<forall>d' f'. r = Inr (d', f') \<and> \<not> f' \<longrightarrow> \<not> f \<and> (\<forall>e\<in>set es. js_string (js_field ''id'' e) \<in> pa_ok g')))"
proof (induction es arbitrary: d f g)
  case (Cons e es)
  show ?case
    unfolding poll_page.simps wp_bindp
  proof (rule wp_mono [OF wp_process_event], goal_cases)
    case (1 g1 r)
    show ?case
    proof (cases r)
      case (Inr x)
      have "poll_wp T (co_name o1) (poll_page T o1 es (if x = Delivered then d + 1 else d) (f \<or> x = Frozen)) g1
          (\<lambda>g' r. pass_le g g' \<and> (\<forall>d' f'. r = Inr (d', f') \<and> \<not> f' \<longrightarrow> \<not> f \<and> (\<forall>e\<in>set (e # es). js_string (js_field ''id'' e) \<in> pa_ok g')))"
        using 1 Inr by (intro wp_mono [OF Cons.IH]) (auto simp: frees_def pass_le_def)
      then show ?thesis using Inr by simp
    qed (use 1 in simp)
  qed
qed simp


lemma wp_wlist:
  assumes "\<And>e. Q g (Inl e)"
    and "\<And>items nxt. (\<forall>n. nxt = Some n \<longrightarrow> length items = 50 \<and> n = show_nat (cursor_start cur + 50)) \<Longrightarrow>
      Q (if ns = logNsOf T then g\<lparr>pa_at := pa_at g \<union> listed (cursor_start cur) items\<rparr> else g) (Inr (items, nxt))"
  shows "poll_wp T C (wlist ns cur) g Q"
  using assms(1) assms(2) [where items = "js_items (js_field ''items'' _)" and nxt = "cursor_of (js_field ''nextCursor'' _)"]
  by (auto simp: wlist_def vc_intros poll_resp_def poll_allowed_def poll_upd_def split: sum.split)

lemma passable_page:
  assumes "passable g (cursor_start cur)" and "pass_le g g'" and "listed (cursor_start cur) items \<subseteq> pa_at g'" and "length items = 50"
    and "\<forall>e\<in>set items. js_string (js_field ''id'' e) \<in> pa_ok g'"
  shows "passable g' (cursor_start cur + 50)"
  unfolding passable_def
proof (intro allI impI)
  fix p assume p: "p < cursor_start cur + 50"
  show "p < pa_low g' \<or> (\<exists>i. (p, i) \<in> pa_at g' \<and> i \<in> pa_ok g')"
  proof (cases "p < cursor_start cur")
    case True
    then show ?thesis using passable_mono [OF assms(1,2)] by (simp add: passable_def)
  next
    case False
    let ?i = "js_string (js_field ''id'' (items ! (p - cursor_start cur)))"
    have "p - cursor_start cur < length items" using False p assms(4) by simp
    then have "(p, ?i) \<in> pa_at g'" "?i \<in> pa_ok g'" using assms(3,5) False by (auto simp: listed_def intro!: subsetD [OF assms(3)] exI [of _ "p - cursor_start cur"])
    then show ?thesis by blast
  qed
qed

lemma wp_poll_pages:
  "\<not> f \<longrightarrow> passable g (cursor_start cur) \<Longrightarrow> poll_wp T (co_name o1) (poll_pages n T o1 rescan cur d f) g (\<lambda>_ _. True)"
proof (induction n arbitrary: cur d f g)
  case (Suc n)
  show ?case
    unfolding poll_pages.simps wp_bindp
  proof (rule wp_wlist, goal_cases)
    case (2 items nxt)
    let ?g = "g\<lparr>pa_at := pa_at g \<union> listed (cursor_start cur) items\<rparr>"
    have "poll_wp T (co_name o1) (poll_page T o1 items d f) ?g (\<lambda>g' r. case r of Inl e \<Rightarrow> True | Inr df \<Rightarrow> case df of (d', f') \<Rightarrow>
        poll_wp T (co_name o1) (case nxt of
            None \<Rightarrow> seqp (if rescan then wput (rescanKeyOf T (co_name o1)) (JBool False) else Ret ()) (Ret d')
          | Some c \<Rightarrow> seqp (if f' then Ret () else wput (cursorKeyOf T (co_name o1)) (JStr c)) (poll_pages n T o1 rescan nxt d' f')) g' (\<lambda>_ _. True))"
    proof (rule wp_mono [OF wp_poll_page], goal_cases)
      case (1 g' r)
      show ?case
      proof (cases r)
        case (Inr x)
        obtain d' f' where x: "x = (d', f')" by fastforce
        have next_page: "passable g' (cursor_start nxt)" if "nxt = Some c" "\<not> f'" for c
        proof -
          have "passable ?g (cursor_start cur)" using Suc.prems 1 Inr x that by (auto simp: passable_def)
          then have "passable g' (cursor_start cur + 50)"
            using 1 Inr x 2 that by (intro passable_page [of ?g cur g' items]) (auto simp: pass_le_def)
          then show ?thesis using 2 that by simp
        qed
        have "nonempty_cursor (JStr c) = Some c" if "nxt = Some c" for c using 2 that by (auto simp: nonempty_cursor_def)
        moreover have "poll_wp T (co_name o1) (poll_pages n T o1 rescan nxt d' f') g2 (\<lambda>_ _. True)" if "nxt = Some c" "pass_le g' g2" for g2 c
          using next_page passable_mono that by (intro Suc.IH) auto
        ultimately show ?thesis
          using Inr x next_page pass_le_upd by (auto simp: vc_intros wp_work poll_allowed_def split: option.split)
      qed simp
    qed
    then show ?case
      unfolding sum.case prod.case wp_bindp if_P [OF refl] by (rule wp_mono) (simp split: sum.splits prod.splits split del: if_split)
  qed simp
qed simp

lemma wp_poll: "poll_wp T (co_name o1) (poll fuel T o1) g (\<lambda>_ _. True)"
proof -
  have "poll_wp T (co_name o1) (poll_pages fuel T o1 rescan cur 0 False) g' (\<lambda>_ _. True)" if "cur = None \<or> cursor_start cur \<le> pa_low g'" for cur rescan g'
    using that by (intro wp_poll_pages) (auto simp: passable_def cursor_start_def)
  then show ?thesis
    by (auto simp: poll_def Let_def vc_intros wp_work poll_allowed_def poll_upd_def nonempty_cursor_def cursor_start_def passable_def split: sum.split)
qed


text \<open>Calls any program of the bus may make whatever it knows: everything but a deletion and a write to this consumer's position.\<close>

definition bus_call :: "string \<Rightarrow> string \<Rightarrow> sop \<Rightarrow> bool" where
  "bus_call T C c \<longleftrightarrow> (\<forall>g. poll_allowed T C g c)"

lemma bus_call_simps [simp]:
  "bus_call T C (Runs x)" "bus_call T C (Work (WGet k))" "bus_call T C (Work (WList ns cur))" "bus_call T C (Work (WAckOnce k))"
  "bus_call T C (Work (WAppend ns payload j))" "marks k v \<Longrightarrow> k \<noteq> cursorKeyOf T C \<Longrightarrow> bus_call T C (Work (WPut k v))"
  "marks k v \<Longrightarrow> k \<noteq> cursorKeyOf T C \<Longrightarrow> bus_call T C (Work (WPutIfMatch k e v))"
  by (simp_all add: bus_call_def poll_allowed_def)

lemmas bus_call_intros = calls_in_bindp calls_in_seqp calls_in_foldp calls_in_outcome calls_in_catchp

lemma calls_in_True [simp]: "calls_in (\<lambda>_. True) p"
  by (induction p) auto

lemma bus_calls_wp: "calls_in (bus_call T C) p \<Longrightarrow> poll_wp T C (seqp p (Ret ())) g (\<lambda>_ _. True)"
  by (intro wp_calls_any [where P = "bus_call T C"]) (auto simp: bus_call_def)

lemma emit_calls: "calls_in (bus_call T C) (emit fuel scope topic payload opts)"
proof -
  have "calls_in (bus_call T C) (countUpTo n ns limit cnt cursor)" for n ns limit cnt cursor
    by (induction n arbitrary: cnt cursor) (auto simp: Let_def intro!: bus_call_intros)
  note count = this
  show ?thesis
    unfolding emit_def by (intro bus_call_intros) (simp_all add: count bus_call_intros split: option.split)
qed

lemma listDeadEvents_calls: "calls_in (bus_call T C) (listDeadEvents n topic consumer out cursor)"
  by (induction n arbitrary: out cursor) (auto simp: Let_def intro!: bus_call_intros)

lemma retryDeadEvent_calls: "calls_in (bus_call T C) (retryDeadEvent cas topic consumer i)"
proof -
  have "calls_in (bus_call T C) (release_loop n cas topic consumer i)" for n
    by (induction n) (auto simp: Let_def intro!: bus_call_intros)
  then show ?thesis by (simp add: retryDeadEvent_def)
qed

lemma put_over_calls: "marks k v \<Longrightarrow> k \<noteq> cursorKeyOf T C \<Longrightarrow> calls_in (bus_call T C) (put_over o1 k old v)"
  by (auto simp: put_over_def intro!: bus_call_intros)

lemma poll_calls:
  assumes "topic \<noteq> T \<or> co_name o1 \<noteq> C"
  shows "calls_in (bus_call T C) (poll fuel topic o1)"
proof -
  have d: "calls_in (bus_call T C) (delayFor o1 n)" for n
    by (auto simp: delayFor_def intro!: bus_call_intros split: RetryDelay.split)
  have f: "calls_in (bus_call T C) (failed_attempt topic o1 i dead attRaw er)" for i dead attRaw er
    unfolding failed_attempt_def Let_def by (simp add: bus_call_intros put_over_calls d)
  have e: "calls_in (bus_call T C) (process_event topic o1 e)" for e
    unfolding process_event_def Let_def by (simp add: bus_call_intros f split: option.split sum.split)
  have p: "calls_in (bus_call T C) (poll_page topic o1 es dl fr)" for es dl fr
    by (induction es arbitrary: dl fr) (auto intro!: bus_call_intros e)
  have k: "cursorKeyOf topic (co_name o1) \<noteq> cursorKeyOf T C" using assms by auto
  have "calls_in (bus_call T C) (poll_pages n topic o1 rescan cur dl fr)" for n rescan cur dl fr
    using k by (induction n arbitrary: cur dl fr) (auto intro!: bus_call_intros p split: option.split)
  then show ?thesis using k by (auto simp: poll_def Let_def intro!: bus_call_intros)
qed

definition bus_programs :: "unit sprog set" where
  "bus_programs =
     {seqp (emit fuel scope topic payload opts) (Ret ()) | fuel scope topic payload opts. True}
     \<union> {seqp (poll fuel topic o1) (Ret ()) | fuel topic o1. True}
     \<union> {seqp (retryDeadEvent cas topic consumer i) (Ret ()) | cas topic consumer i. True}
     \<union> {seqp (listDeadEvents fuel topic consumer [] None) (Ret ()) | fuel topic consumer. True}"

lemma bus_programs_wp: "p \<in> bus_programs \<Longrightarrow> poll_wp T C p pass0 (\<lambda>_ _. True)"
proof -
  have poll: "poll_wp T C (seqp (poll fuel topic o1) (Ret ())) pass0 (\<lambda>_ _. True)" for fuel topic o1
  proof (cases "topic = T \<and> co_name o1 = C")
    case True
    then show ?thesis using wp_poll [of T o1 fuel pass0] by (simp add: vc_intros sum.case_eq_if)
  qed (auto intro!: bus_calls_wp poll_calls)
  assume "p \<in> bus_programs"
  then show ?thesis unfolding bus_programs_def
    by (elim UnE CollectE exE conjE) (simp_all only: poll bus_calls_wp emit_calls retryDeadEvent_calls listDeadEvents_calls)
qed

text \<open>
  C32: no event is skipped silently. In every interleaving of emitters, pollers (any number under one consumer name, crashing and failing anywhere),
  operators who release dead letters and ones who list them, every event before a consumer's stored position has been
  acknowledged by this consumer or has a dead letter, which \<open>listDeadEvents\<close> shows. So a pass that starts at the stored position misses no live event.
\<close>

theorem no_event_is_skipped:
  assumes "sreach bus_programs w c" and "defined_kv (work w)" and "settled_below T C (position T C (work w)) (work w)"
    and "p < position T C (work (cworld c))"
  shows "p < length (log_of (logNsOf T) (work (cworld c))) \<and> settled T C (lr_id (log_of (logNsOf T) (work (cworld c)) ! p)) (work (cworld c))"
proof -
  have "poll_inv T C w (\<lambda>_. pass0)" using assms(2,3) by (auto simp: poll_inv_def pass_true_def pass0_def settled_below_def)
  then obtain gs where "poll_inv T C (cworld c) gs" by (rule bus.reachable_inv [OF assms(1) _ bus_programs_wp])
  then show ?thesis using assms(4) by (simp add: poll_inv_def settled_below_def)
qed


section \<open>An undisturbed pass\<close>

definition acked :: "string \<Rightarrow> string \<Rightarrow> string \<Rightarrow> InMemoryWorkStore \<Rightarrow> bool" where
  "acked T C i s \<longleftrightarrow> ws_get (ackKey T C i) s \<noteq> JUndef"

definition quarantined :: "string \<Rightarrow> string \<Rightarrow> string \<Rightarrow> InMemoryWorkStore \<Rightarrow> bool" where
  "quarantined T C i s \<longleftrightarrow>
     (let d = ws_get (deadKey T C i) s in js_truthy d \<and> \<not> js_truthy (js_field ''releasedAt'' d))"

definition retry_record :: "string \<Rightarrow> string \<Rightarrow> string \<Rightarrow> InMemoryWorkStore \<Rightarrow> StoredAttempts option" where
  "retry_record T C i s = readAttempts (ws_get (attKey T C i) s)"

text \<open>An event to be handed to the handler now, and one a pass leaves behind in order.\<close>

definition due :: "string \<Rightarrow> string \<Rightarrow> string \<Rightarrow> sworld \<Rightarrow> bool" where
  "due T C i w \<longleftrightarrow> \<not> acked T C i (work w) \<and> \<not> quarantined T C i (work w)
     \<and> (\<forall>a. retry_record T C i (work w) = Some a \<longrightarrow> sa_nextAt a \<le> clock (base w))"

definition disposed :: "string \<Rightarrow> string \<Rightarrow> string \<Rightarrow> sworld \<Rightarrow> bool" where
  "disposed T C i w \<longleftrightarrow> acked T C i (work w) \<or> quarantined T C i (work w)
     \<or> (\<exists>a. retry_record T C i (work w) = Some a \<and> clock (base w) \<le> sa_nextAt a)"

definition handed :: "string \<Rightarrow> LogRecord \<Rightarrow> string \<times> js" where
  "handed T r = (''handler'', JObj ([(''payload'', lr_payload r), (''id'', JStr (lr_id r)), (''topic'', JStr T)] @ owner_meta (lr_id r)))"

definition event_keys :: "string \<Rightarrow> string \<Rightarrow> string \<Rightarrow> key set" where
  "event_keys T C i = {ackKey T C i, attKey T C i, deadKey T C i}"

text \<open>What happened between two worlds of one pass: the log and the time stand still, and only keys of \<open>K\<close> change.\<close>

definition moved :: "key set \<Rightarrow> sworld \<Rightarrow> sworld \<Rightarrow> bool" where
  "moved K w w' \<longleftrightarrow> (\<forall>ns. log_of ns (work w') = log_of ns (work w)) \<and> clock (base w') = clock (base w)
     \<and> prefix (called (base w)) (called (base w')) \<and> (defined_kv (work w) \<longrightarrow> defined_kv (work w')) \<and> (\<forall>k. k \<notin> K \<longrightarrow> ws_get k (work w') = ws_get k (work w))"

lemma moved_refl [simp]: "moved K w w"
  by (simp add: moved_def)

lemma moved_trans: "moved K w w1 \<Longrightarrow> moved L w1 w2 \<Longrightarrow> moved (K \<union> L) w w2"
  by (auto simp: moved_def intro: prefix_order.trans)

lemma moved_put: "k \<in> K \<Longrightarrow> marks k v \<Longrightarrow> moved K w (w\<lparr>work := ws_put k v (work w)\<rparr>)"
  by (auto simp: moved_def marks_def defined_kv_def ws_put_def map_of_js_set log_of_def ws_get_def)

lemma isOwnedId_prefix: "isOwnedId i \<Longrightarrow> prefix OWNED i"
  by (auto simp: isOwnedId_def ownerOfName_def Let_def split: if_splits)

lemma markerKey_inject:
  assumes "\<not> prefix OWNED T" and "markerKey fam T C i = markerKey fam T C j"
  shows "i = j"
  using assms isOwnedId_prefix
  by (auto simp: markerKey_def colon_split split: if_splits)

lemma read_js_attempts [simp]: "readAttempts (js_attempts a) = Some a"
  by (simp add: readAttempts_def js_attempts_def)

lemma StoredDead_unreleased [simp]: "js_field ''releasedAt'' (StoredDead er n at rl) = JUndef"
  by (simp add: StoredDead_def)

lemma run_delayFor: "\<exists>d w'. srun env (delayFor o1 n) w = (Inr d, w') \<and> 0 \<le> d \<and> moved {} w w' \<and> work w' = work w"
proof -
  have d: "0 \<le> defaultRetryDelay n" "0 \<le> checked_delay n v" for v by (cases v; simp add: defaultRetryDelay_def)+
  show ?thesis
  proof (cases "co_retryDelayMs o1")
    case DelayFunction
    then show ?thesis using d by (auto simp: delayFor_def prog_simps moved_def split: sum.split)
  qed (use d in \<open>auto simp: delayFor_def\<close>)
qed

lemma run_put_over:
  "ws_get k (work w) = old \<Longrightarrow> srun env (put_over o1 k old v) w = (Inr True, w\<lparr>work := ws_put k v (work w)\<rparr>)"
  by (auto simp: put_over_def prog_simps ws_putIfMatch_def ws_get_def domIff split: option.splits)

lemma run_failed_attempt:
  assumes "dead = ws_get (deadKey T (co_name o1) i) (work w)" and "attRaw = ws_get (attKey T (co_name o1) i) (work w)"
  shows "\<exists>x w'. srun env (failed_attempt T o1 i dead attRaw er) w = (Inr x, w') \<and> moved (event_keys T (co_name o1) i) w w' \<and> disposed T (co_name o1) i w'"
proof -
  let ?C = "co_name o1" and ?n = "(case readAttempts attRaw of None \<Rightarrow> 0 | Some a \<Rightarrow> sa_n a) + 1"
  show ?thesis
  proof (cases "at_limit o1 ?n \<and> ws_get (ackKey T ?C i) (work w) \<noteq> JUndef")
    case True
    then show ?thesis by (auto simp: failed_attempt_def Let_def prog_simps assms disposed_def acked_def)
  next
    case False
    obtain d w1 where d: "srun env (delayFor o1 ?n) w = (Inr d, w1)" "0 \<le> d" "moved {} w w1" "work w1 = work w" using run_delayFor by blast
    let ?now = "clock (base w)"
    let ?a = "\<lparr>sa_n = ?n, sa_firstAt = (case readAttempts attRaw of None \<Rightarrow> ?now | Some a \<Rightarrow> if sa_firstAt a = 0 then ?now else sa_firstAt a),
        sa_nextAt = ?now + d, sa_gen = (case readAttempts attRaw of None \<Rightarrow> JUndef | Some a \<Rightarrow> sa_gen a)\<rparr>"
    let ?w2 = "w1\<lparr>work := ws_put (attKey T ?C i) (js_attempts ?a) (work w1)\<rparr>"
    let ?w3 = "?w2\<lparr>work := ws_put (deadKey T ?C i) (StoredDead (err_msg er) ?n ?now (js_field ''releases'' dead)) (work ?w2)\<rparr>"
    have p1: "srun env (put_over o1 (attKey T ?C i) attRaw (js_attempts ?a)) w1 = (Inr True, ?w2)" by (rule run_put_over) (simp add: assms d(4))
    have p2: "srun env (put_over o1 (deadKey T ?C i) dead v) ?w2 = (Inr True, ?w2\<lparr>work := ws_put (deadKey T ?C i) v (work ?w2)\<rparr>)" for v
      by (rule run_put_over) (simp add: assms d(4))
    have m2: "moved (event_keys T ?C i) w ?w2" using moved_trans [OF d(3) moved_put [of "attKey T ?C i" "event_keys T ?C i"]] by (simp add: event_keys_def)
    have m3: "moved (event_keys T ?C i) w ?w3" using moved_trans [OF m2 moved_put [of "deadKey T ?C i" "event_keys T ?C i"]] by (simp add: event_keys_def)
    have "disposed T ?C i ?w2" using d(2,3) by (auto simp: disposed_def retry_record_def moved_def)
    moreover have "disposed T ?C i ?w3" by (simp add: disposed_def quarantined_def)
    moreover have "srun env (failed_attempt T o1 i dead attRaw er) w = (if at_limit o1 ?n then (Inr Passed, ?w3) else (Inr Frozen, ?w2))"
      using False d(1) p1 p2 by (simp add: failed_attempt_def Let_def prog_simps assms(1) [symmetric])
    ultimately show ?thesis using m2 m3 by (cases "at_limit o1 ?n") auto
  qed
qed


lemma event_keys_disjoint: "\<not> prefix OWNED T \<Longrightarrow> i \<noteq> j \<Longrightarrow> event_keys T C i \<inter> event_keys T C j = {}"
proof -
  assume "\<not> prefix OWNED T" "i \<noteq> j"
  then have "ackKey T C i \<noteq> ackKey T C j" "attKey T C i \<noteq> attKey T C j" "deadKey T C i \<noteq> deadKey T C j"
    unfolding ackKey_def attKey_def deadKey_def using markerKey_inject by blast+
  then show ?thesis by (simp add: event_keys_def)
qed

lemma moved_disposed:
  assumes "moved K w w'" and "K \<inter> event_keys T C i = {}"
  shows "disposed T C i w' = disposed T C i w" and "due T C i w' = due T C i w"
proof -
  have "ws_get k (work w') = ws_get k (work w)" if "k \<in> event_keys T C i" for k using assms that by (auto simp: moved_def)
  then show "disposed T C i w' = disposed T C i w" "due T C i w' = due T C i w"
    using assms(1) by (simp_all add: disposed_def due_def acked_def quarantined_def retry_record_def event_keys_def moved_def)
qed

lemma ackOnce_fresh: "defined_kv s \<Longrightarrow> ws_get k s = JUndef \<Longrightarrow> ws_ackOnce k s = (True, ws_put k (JBool True) s)"
  by (auto simp: ws_ackOnce_def ws_get_def defined_kv_def domIff split: option.splits)

lemma run_process_event:
  assumes "defined_kv (work w)"
  shows "\<exists>x w'. srun env (process_event T o1 (js_log_record r)) w = (Inr x, w') \<and> moved (event_keys T (co_name o1) (lr_id r)) w w'
     \<and> disposed T (co_name o1) (lr_id r) w' \<and> (due T (co_name o1) (lr_id r) w \<longrightarrow> handed T r \<in> set (drop (length (called (base w))) (called (base w'))))"
proof -
  let ?C = "co_name o1" and ?i = "lr_id r"
  let ?dead = "ws_get (deadKey T ?C ?i) (work w)" and ?att = "ws_get (attKey T ?C ?i) (work w)"
  show ?thesis
  proof (cases "due T ?C ?i w")
    case False
    then have "srun env (process_event T o1 (js_log_record r)) w = (Inr (if acked T ?C ?i (work w) \<or> quarantined T ?C ?i (work w) then Passed else Frozen), w)"
      by (auto simp: process_event_def prog_simps due_def acked_def quarantined_def retry_record_def Let_def split: option.splits)
    moreover have "disposed T ?C ?i w" using False by (auto simp: due_def disposed_def)
    ultimately show ?thesis using False by auto
  next
    case True
    let ?w = "w\<lparr>base := (base w)\<lparr>called := called (base w) @ [handed T r]\<rparr>\<rparr>"
    let ?res = "env (called (base w)) (fst (handed T r)) (snd (handed T r))"
    have run: "srun env (process_event T o1 (js_log_record r)) w =
        (case ?res of Inl e \<Rightarrow> srun env (failed_attempt T o1 ?i ?dead ?att e) ?w
         | Inr _ \<Rightarrow> (Inr Delivered, ?w\<lparr>work := ws_put (ackKey T ?C ?i) (JBool True) (work w)\<rparr>))"
      using True ackOnce_fresh [OF assms, of "ackKey T ?C ?i"]
      by (auto simp: process_event_def prog_simps due_def acked_def quarantined_def retry_record_def Let_def handed_def split: option.split sum.split)
    have m: "moved {} w ?w" by (simp add: moved_def)
    show ?thesis
    proof (cases ?res)
      case (Inl e)
      obtain x w' where f: "srun env (failed_attempt T o1 ?i ?dead ?att e) ?w = (Inr x, w')" "moved (event_keys T ?C ?i) ?w w'" "disposed T ?C ?i w'"
        using run_failed_attempt [of ?dead T o1 ?i ?w ?att env e] by auto
      have "handed T r \<in> set (drop (length (called (base w))) (called (base w')))" using f(2) by (auto simp: moved_def prefix_def)
      then show ?thesis using run Inl f moved_trans [OF m f(2)] by auto
    next
      case (Inr v)
      let ?w' = "?w\<lparr>work := ws_put (ackKey T ?C ?i) (JBool True) (work w)\<rparr>"
      have "moved (event_keys T ?C ?i) ?w ?w'" using moved_put [of "ackKey T ?C ?i" "event_keys T ?C ?i" _ ?w] by (simp add: event_keys_def)
      then show ?thesis using run Inr moved_trans [OF m] by (auto simp: disposed_def acked_def)
    qed
  qed
qed


text \<open>The records of one page, or of a whole log, after a pass over them.\<close>

definition page_done :: "string \<Rightarrow> string \<Rightarrow> LogRecord list \<Rightarrow> sworld \<Rightarrow> sworld \<Rightarrow> bool" where
  "page_done T C rs w w' \<longleftrightarrow>
     (\<forall>r\<in>set rs. disposed T C (lr_id r) w' \<and> (due T C (lr_id r) w \<longrightarrow> handed T r \<in> set (drop (length (called (base w))) (called (base w')))))"

abbreviation keys_of :: "string \<Rightarrow> string \<Rightarrow> LogRecord list \<Rightarrow> key set" where
  "keys_of T C rs \<equiv> \<Union>(event_keys T C ` lr_id ` set rs)"

lemma called_mono: "moved K w w' \<Longrightarrow> x \<in> set (drop n (called (base w))) \<Longrightarrow> x \<in> set (drop n (called (base w')))"
  by (auto simp: moved_def prefix_def)

lemma called_later: "moved K w w' \<Longrightarrow> x \<in> set (drop (length (called (base w'))) l) \<Longrightarrow> x \<in> set (drop (length (called (base w))) l)"
  using set_drop_subset_set_drop [of "length (called (base w))" "length (called (base w'))" l] by (auto simp: moved_def dest: prefix_length_le)

lemma keys_disjoint:
  assumes "\<not> prefix OWNED T" and "lr_id ` set rs \<inter> lr_id ` set rs' = {}"
  shows "keys_of T C rs' \<inter> keys_of T C rs = {}"
proof (rule Int_emptyI)
  fix k assume "k \<in> keys_of T C rs'" "k \<in> keys_of T C rs"
  then obtain i j where ij: "i \<in> lr_id ` set rs" "j \<in> lr_id ` set rs'" and k: "k \<in> event_keys T C i" "k \<in> event_keys T C j" by blast
  have "i \<noteq> j" using ij assms(2) by (meson disjoint_iff)
  then show False using event_keys_disjoint [OF assms(1)] k by (meson disjoint_iff)
qed

lemma page_done_append:
  assumes m: "moved K w w1" "moved K' w1 w2" and K: "K \<inter> keys_of T C rs' = {}" "K' \<inter> keys_of T C rs = {}"
    and d: "page_done T C rs w w1" "page_done T C rs' w1 w2"
  shows "page_done T C (rs @ rs') w w2"
proof -
  have "disposed T C (lr_id r) w2 \<and> (due T C (lr_id r) w \<longrightarrow> handed T r \<in> set (drop (length (called (base w))) (called (base w2))))"
    if "r \<in> set rs" for r
  proof -
    have "K' \<inter> event_keys T C (lr_id r) = {}" using K(2) that by auto
    then show ?thesis using that d(1) moved_disposed [OF m(2)] called_mono [OF m(2)] by (auto simp: page_done_def)
  qed
  moreover have "disposed T C (lr_id r) w2 \<and> (due T C (lr_id r) w \<longrightarrow> handed T r \<in> set (drop (length (called (base w))) (called (base w2))))"
    if "r \<in> set rs'" for r
  proof -
    have "K \<inter> event_keys T C (lr_id r) = {}" using K(1) that by auto
    then show ?thesis
      using that d(2) moved_disposed(2) [OF m(1)] called_later [OF m(1), of "handed T r" "called (base w2)"] by (simp add: page_done_def)
  qed
  ultimately show ?thesis by (auto simp: page_done_def)
qed

lemma run_poll_page:
  assumes "\<not> prefix OWNED T"
  shows "defined_kv (work w) \<Longrightarrow> distinct (map lr_id rs) \<Longrightarrow>
    \<exists>x w'. srun env (poll_page T o1 (map js_log_record rs) d f) w = (Inr x, w') \<and> moved (keys_of T (co_name o1) rs) w w' \<and> page_done T (co_name o1) rs w w'"
proof (induction rs arbitrary: d f w)
  case (Cons r rs)
  let ?C = "co_name o1"
  obtain x w1 where e: "srun env (process_event T o1 (js_log_record r)) w = (Inr x, w1)" "moved (keys_of T ?C [r]) w w1" "page_done T ?C [r] w w1"
    using run_process_event [OF Cons.prems(1), of env T o1 r] by (auto simp: page_done_def)
  have "defined_kv (work w1)" using e(2) Cons.prems(1) by (simp add: moved_def)
  then obtain y w' where rest: "srun env (poll_page T o1 (map js_log_record rs) (if x = Delivered then d + 1 else d) (f \<or> x = Frozen)) w1 = (Inr y, w')"
    "moved (keys_of T ?C rs) w1 w'" "page_done T ?C rs w1 w'"
    using Cons.IH [of w1] Cons.prems(2) by force
  have "page_done T ?C ([r] @ rs) w w'"
    using Cons.prems(2) keys_disjoint [OF assms, of "[r]" rs] keys_disjoint [OF assms, of rs "[r]"]
    by (intro page_done_append [OF e(2) rest(2) _ _ e(3) rest(3)]) auto
  then show ?case using e(1) rest(1) moved_trans [OF e(2) rest(2)] by (auto simp: prog_simps)
qed (simp add: page_done_def)

lemma run_poll_pages:
  assumes own: "\<not> prefix OWNED T"
  shows "defined_kv (work w) \<Longrightarrow> distinct (map lr_id (log_of (logNsOf T) (work w))) \<Longrightarrow> cursor_start cur = n \<Longrightarrow>
    length (log_of (logNsOf T) (work w)) \<le> n + 50 * fuel \<Longrightarrow> 0 < fuel \<Longrightarrow>
    \<exists>d' w'. srun env (poll_pages fuel T o1 rescan cur d f) w = (Inr d', w')
      \<and> moved ({cursorKeyOf T (co_name o1), rescanKeyOf T (co_name o1)} \<union> keys_of T (co_name o1) (drop n (log_of (logNsOf T) (work w)))) w w'
      \<and> page_done T (co_name o1) (drop n (log_of (logNsOf T) (work w))) w w'"
proof (induction fuel arbitrary: cur n d f w)
  case (Suc fuel)
  let ?C = "co_name o1" and ?L = "log_of (logNsOf T) (work w)" and ?rs = "take 50 (drop n (log_of (logNsOf T) (work w)))"
  let ?P = "{cursorKeyOf T (co_name o1), rescanKeyOf T (co_name o1)}"
  have dist: "distinct (map lr_id ?rs)" using Suc.prems(2) by (simp add: take_map [symmetric] drop_map [symmetric])
  obtain x w1 where x: "srun env (poll_page T o1 (map js_log_record ?rs) d f) w = (Inr x, w1)"
    "moved (keys_of T ?C ?rs) w w1" "page_done T ?C ?rs w w1"
    using run_poll_page [OF own Suc.prems(1) dist, of env o1 d f] by (elim exE conjE)
  obtain d1 f1 where "x = (d1, f1)" by fastforce
  note p = x [unfolded this]
  define w2 where "w2 = (if n + 50 < length ?L then (if f1 then w1 else w1\<lparr>work := ws_put (cursorKeyOf T ?C) (JStr (show_nat (n + 50))) (work w1)\<rparr>)
     else (if rescan then w1\<lparr>work := ws_put (rescanKeyOf T ?C) (JBool False) (work w1)\<rparr> else w1))"
  have m2: "moved ?P w1 w2" by (auto simp: w2_def intro!: moved_put)
  have m: "moved (?P \<union> keys_of T ?C ?rs) w w2" using moved_trans [OF p(2) m2] unfolding Un_commute [of "keys_of T ?C ?rs"] .
  have P: "?P \<inter> keys_of T ?C rs = {}" for rs by (auto simp: event_keys_def)
  have d2: "page_done T ?C ?rs w w2"
    using page_done_append [OF p(2) m2 _ _ p(3), where rs' = "[]"] P by (simp add: page_done_def)
  have log2: "log_of (logNsOf T) (work w2) = ?L" and kv2: "defined_kv (work w2)" using m Suc.prems(1) by (simp_all add: moved_def)
  show ?case
  proof (cases "n + 50 < length ?L")
    case False
    then have "drop n ?L = ?rs" by simp
    moreover have "srun env (poll_pages (Suc fuel) T o1 rescan cur d f) w = (Inr d1, w2)"
      using p(1) False by (simp add: w2_def prog_simps ws_list_def paginate_def Let_def Suc.prems(3))
    ultimately show ?thesis using m d2 by (intro exI [of _ d1] exI [of _ w2]) (simp only: simp_thms)
  next
    case True
    have fuel: "0 < fuel" using True Suc.prems(4) by (cases fuel) auto
    obtain d3 w3 where r: "srun env (poll_pages fuel T o1 rescan (Some (show_nat (n + 50))) d1 f1) w2 = (Inr d3, w3)"
      "moved (?P \<union> keys_of T ?C (drop (n + 50) ?L)) w2 w3" "page_done T ?C (drop (n + 50) ?L) w2 w3"
      using Suc.IH [of w2 "Some (show_nat (n + 50))" "n + 50" d1 f1] kv2 Suc.prems(2,4) fuel unfolding log2 by auto
    have split: "drop n ?L = ?rs @ drop (n + 50) ?L" using append_take_drop_id [of 50 "drop n ?L"] by (simp add: add.commute)
    have "lr_id ` set ?rs \<inter> lr_id ` set (drop (n + 50) ?L) = {}"
    proof -
      have "distinct (map lr_id (?rs @ drop (n + 50) ?L))" using distinct_drop [OF Suc.prems(2), of n] unfolding drop_map split [symmetric] .
      then show ?thesis unfolding map_append distinct_append by simp
    qed
    from keys_disjoint [OF own this, of ?C] have dj: "keys_of T ?C (drop (n + 50) ?L) \<inter> keys_of T ?C ?rs = {}" "keys_of T ?C ?rs \<inter> keys_of T ?C (drop (n + 50) ?L) = {}"
      by (simp_all only: Int_commute)
    have "page_done T ?C (?rs @ drop (n + 50) ?L) w w3"
      by (intro page_done_append [OF m r(2) _ _ d2 r(3)]) (simp_all only: Int_Un_distrib2 P dj Un_empty_left)
    moreover have "moved (?P \<union> keys_of T ?C (?rs @ drop (n + 50) ?L)) w w3"
      using moved_trans [OF m r(2)] by (simp add: Un_ac)
    moreover have "srun env (poll_pages (Suc fuel) T o1 rescan cur d f) w = (Inr d3, w3)"
      using p(1) True r(1) by (cases f1) (simp_all add: w2_def prog_simps ws_list_def paginate_def Let_def Suc.prems(3))
    ultimately show ?thesis unfolding split [symmetric] by (intro exI conjI)
  qed
qed simp

lemma run_poll:
  assumes "assertTopic T = Inr ()" and "defined_kv (work w)" and "distinct (map lr_id (log_of (logNsOf T) (work w)))"
    and "length (log_of (logNsOf T) (work w)) \<le> 50 * fuel" and "0 < fuel"
    and "ws_get (rescanKeyOf T (co_name o1)) (work w) = JBool True
      \<or> (\<forall>r\<in>set (take (position T (co_name o1) (work w)) (log_of (logNsOf T) (work w))). disposed T (co_name o1) (lr_id r) w \<and> \<not> due T (co_name o1) (lr_id r) w)"
  shows "\<exists>n w'. srun env (poll fuel T o1) w = (Inr n, w') \<and> log_of (logNsOf T) (work w') = log_of (logNsOf T) (work w)
    \<and> page_done T (co_name o1) (log_of (logNsOf T) (work w)) w w'"
proof -
  let ?C = "co_name o1" and ?L = "log_of (logNsOf T) (work w)"
  have own: "\<not> prefix OWNED T" using assms(1) by (auto simp: assertTopic_def assertSystemName_def split: if_splits)
  let ?P = "{cursorKeyOf T ?C, rescanKeyOf T ?C}"
  have P: "?P \<inter> keys_of T ?C rs = {}" for rs by (auto simp: event_keys_def)
  show ?thesis
  proof (cases "ws_get (rescanKeyOf T ?C) (work w) = JBool True")
    case True
    let ?w = "w\<lparr>work := ws_put (cursorKeyOf T ?C) (JStr []) (work w)\<rparr>"
    have m: "moved ?P w ?w" by (rule moved_put) simp_all
    then have "defined_kv (work ?w)" using assms(2) by (simp add: moved_def)
    then obtain n w' where p: "srun env (poll_pages fuel T o1 True None 0 False) ?w = (Inr n, w')"
      "moved (?P \<union> keys_of T ?C ?L) ?w w'" "page_done T ?C ?L ?w w'"
      using run_poll_pages [OF own, of ?w None 0 fuel env o1 True 0 False] assms(3-5) by (auto simp: cursor_start_def)
    have "page_done T ?C ([] @ ?L) w w'" using P by (intro page_done_append [OF m p(2) _ _ _ p(3)]) (simp_all add: page_done_def)
    then show ?thesis using p(1,2) True assms(1) by (auto simp: poll_def prog_simps Let_def moved_def)
  next
    case False
    let ?n = "position T ?C (work w)" and ?cur = "nonempty_cursor (ws_get (cursorKeyOf T ?C) (work w))"
    obtain n w' where p: "srun env (poll_pages fuel T o1 False ?cur 0 False) w = (Inr n, w')"
      "moved (?P \<union> keys_of T ?C (drop ?n ?L)) w w'" "page_done T ?C (drop ?n ?L) w w'"
      using run_poll_pages [OF own assms(2,3), of ?cur ?n fuel env o1 False 0 False] assms(4,5) by (auto simp: position_def)
    have "lr_id ` set (take ?n ?L) \<inter> lr_id ` set (drop ?n ?L) = {}"
    proof -
      have "distinct (map lr_id (take ?n ?L @ drop ?n ?L))" using assms(3) by simp
      then show ?thesis unfolding map_append distinct_append by simp
    qed
    from keys_disjoint [OF own this] have "(?P \<union> keys_of T ?C (drop ?n ?L)) \<inter> keys_of T ?C (take ?n ?L) = {}"
      by (simp only: Int_Un_distrib2 P Un_empty_left)
    moreover have "page_done T ?C (take ?n ?L) w w" using assms(6) False by (simp add: page_done_def)
    ultimately have "page_done T ?C (take ?n ?L @ drop ?n ?L) w w'"
      by (intro page_done_append [OF moved_refl [of "{}"] p(2) _ _ _ p(3)]) simp_all
    then have "page_done T ?C ?L w w'" by (simp only: append_take_drop_id)
    then show ?thesis using p(1,2) False assms(1) by (auto simp: poll_def prog_simps Let_def moved_def)
  qed
qed

text \<open>
  C33: a pass hands over every event that is due. An undisturbed \<open>poll\<close> returns, and every event of the topic that was neither acknowledged nor
  quarantined nor waiting for its retry has been handed to the handler, in whatever pages it lies and however many others fail; afterwards every event is
  acknowledged, quarantined, or has a retry time that is not in the past. The position must be one before which all is in this state, or a
  release must have asked for a scan from the start.
\<close>

theorem poll_hands_over_due_events:
  assumes "assertTopic T = Inr ()" and "defined_kv (work w)" and "distinct (map lr_id (log_of (logNsOf T) (work w)))"
    and "length (log_of (logNsOf T) (work w)) \<le> 50 * fuel" and "0 < fuel"
    and "ws_get (rescanKeyOf T (co_name o1)) (work w) = JBool True
      \<or> (\<forall>r\<in>set (take (position T (co_name o1) (work w)) (log_of (logNsOf T) (work w))). disposed T (co_name o1) (lr_id r) w \<and> \<not> due T (co_name o1) (lr_id r) w)"
  shows "\<exists>n w'. srun env (poll fuel T o1) w = (Inr n, w') \<and> log_of (logNsOf T) (work w') = log_of (logNsOf T) (work w)
    \<and> (\<forall>r\<in>set (log_of (logNsOf T) (work w)). disposed T (co_name o1) (lr_id r) w'
        \<and> (due T (co_name o1) (lr_id r) w \<longrightarrow> handed T r \<in> set (drop (length (called (base w))) (called (base w')))))"
  using run_poll [OF assms, of env] unfolding page_done_def .

text \<open>
  C34: a released dead letter is delivered again. \<open>retryDeadEvent\<close> on an event with a dead letter and no acknowledgement answers \<open>true\<close>, and the next
  pass of the consumer hands the event to the handler, wherever the stored position is: the release asks for a scan from the start.
\<close>

theorem released_event_is_handed_over:
  assumes "assertTopic T = Inr ()" and "defined_kv (work w)" and "distinct (map lr_id (log_of (logNsOf T) (work w)))"
    and "length (log_of (logNsOf T) (work w)) \<le> 50 * fuel" and "0 < clock (base w)"
    and "r \<in> set (log_of (logNsOf T) (work w))" and "js_truthy (ws_get (deadKey T (co_name o1) (lr_id r)) (work w))"
    and "ws_get (ackKey T (co_name o1) (lr_id r)) (work w) = JUndef"
  shows "\<exists>w1 n w2. srun env (retryDeadEvent cas T (co_name o1) (lr_id r)) w = (Inr True, w1) \<and> srun env (poll fuel T o1) w1 = (Inr n, w2)
    \<and> handed T r \<in> set (drop (length (called (base w))) (called (base w2))) \<and> disposed T (co_name o1) (lr_id r) w2"
proof -
  let ?C = "co_name o1" and ?i = "lr_id r"
  let ?rec = "released_rec (ws_get (deadKey T ?C ?i) (work w)) (clock (base w))"
  let ?s = "ws_put (rescanKeyOf T ?C) (JBool True) (ws_put (deadKey T ?C ?i) ?rec
      (ws_put (attKey T ?C ?i) (js_attempts \<lparr>sa_n = 0, sa_firstAt = 0, sa_nextAt = 0, sa_gen = JStr (releaseStamp ?rec)\<rparr>) (work w)))"
  let ?w = "w\<lparr>work := ?s\<rparr>"
  have has: "js_has (kv (ws_put k v (work w))) (deadKey T ?C ?i)" for k v
    using assms(7) by (auto simp: ws_get_def ws_put_def map_of_js_set domIff split: option.splits)
  have run: "srun env (retryDeadEvent cas T ?C ?i) w = (Inr True, ?w)"
    using assms(7,8) has by (simp add: retryDeadEvent_def RELEASE_CAS_TRIES_def numeral_eq_Suc Let_def prog_simps ws_putIfMatch_def)
  have "js_field ''releasedAt'' ?rec = JNum (clock (base w))" by (simp add: released_rec_def map_of_js_set)
  then have due: "due T ?C ?i ?w" using assms(5,8) by (simp add: due_def acked_def quarantined_def retry_record_def Let_def)
  have log: "log_of (logNsOf T) ?s = log_of (logNsOf T) (work w)" by simp
  have kv: "defined_kv ?s" using assms(2) by (simp add: defined_kv_def ws_put_def map_of_js_set js_attempts_def released_rec_def)
  have "0 < fuel" using assms(4,6) by (cases fuel) auto
  then obtain n w2 where p: "srun env (poll fuel T o1) ?w = (Inr n, w2)" "page_done T ?C (log_of (logNsOf T) (work w)) ?w w2"
    using run_poll [of T ?w fuel o1 env] assms(1,3,4) kv by (auto simp: log)
  then show ?thesis using run due assms(6) by (intro exI [of _ ?w] exI [of _ n] exI [of _ w2]) (simp add: page_done_def)
qed

section \<open>Erasure\<close>

lemma enc_char_prefix_iff: "prefix (enc_char c @ x) (enc_char d @ y) \<longleftrightarrow> c = d \<and> prefix x y"
  by (auto simp: enc_char_def)

lemma prefix_enc: "prefix (enc a) (enc b @ CHR '':'' # x) \<longleftrightarrow> prefix a b"
proof (induction a arbitrary: b)
  case (Cons c a)
  show ?case
  proof (cases b)
    case Nil
    then show ?thesis by (auto simp: enc_Cons enc_char_def)
  next
    case (Cons d b')
    then show ?thesis using Cons.IH enc_char_prefix_iff [of c "enc a" d "enc b' @ CHR '':'' # x"] by (simp add: enc_Cons)
  qed
qed simp


definition erased_keys :: "string \<Rightarrow> key \<Rightarrow> bool" where
  "erased_keys pre k \<longleftrightarrow> (\<exists>fam\<in>{''evtack'', ''evtatt'', ''evtdead''}. prefix (fam @ '':'' @ enc pre) k)"

lemma run_eventEraser:
  assumes "ownedPrefix \<lparr>o_orgId = og, o_resourceId = Some res\<rparr> = Inr pre"
  shows "\<exists>n s'. srun env (eventEraser None True True res og) w = (Inr n, w\<lparr>work := s'\<rparr>)
    \<and> (\<forall>ns. log_of ns s' = (if erased_keys pre ns then [] else filter (\<lambda>r. \<not> prefix pre (lr_id r)) (log_of ns (work w))))
    \<and> (\<forall>k. ws_get k s' = (if erased_keys pre k then JUndef else ws_get k (work w)))"
  by (auto simp: eventEraser_def assms prog_simps case_prod_unfold deletePrefix_reads log_of_deleteIdPrefix erased_keys_def)

text \<open>Which keys of the bus carry the prefix of an owner.\<close>

lemma erased_family: "fam \<in> {''evtack'', ''evtatt'', ''evtdead''} \<Longrightarrow> erased_keys pre (fam @ '':'' @ rest) \<longleftrightarrow> prefix (enc pre) rest"
  by (elim insertE) (simp_all add: erased_keys_def)

lemma erased_marker:
  assumes "ownedName nm o2 = Inr i" and "ownedPrefix ow = Inr pre" and "assertTopic T = Inr ()" and "o_resourceId ow \<noteq> None"
    and "fam \<in> {''evtack'', ''evtatt'', ''evtdead''}"
  shows "erased_keys pre (markerKey fam T C i) \<longleftrightarrow> o2 = ow" and "prefix pre i \<longleftrightarrow> o2 = ow"
proof -
  have T: "\<not> prefix OWNED T" using assms(3) by (auto simp: assertTopic_def assertSystemName_def split: if_splits)
  have pre: "prefix OWNED pre" using assms(2) ownerPart_Inr by (fastforce simp: ownedPrefix_def)
  show p: "prefix pre i \<longleftrightarrow> o2 = ow"
  proof
    show "prefix pre i \<Longrightarrow> o2 = ow" by (drule ownedPrefix_owner(1) [OF assms(1,2)]) (rule sym)
    show "o2 = ow \<Longrightarrow> prefix pre i" by (rule ownedPrefix_owner(2) [OF assms(1,2)]) (use assms(4) in simp_all)
  qed
  have own: "isOwnedId i" if "prefix pre i" using that p assms(4) ownerOfName_ownedName [OF assms(1)] by (simp add: isOwnedId_def)
  have "erased_keys pre (markerKey fam T C i) \<longleftrightarrow> prefix (enc pre) (drop (length fam + 1) (markerKey fam T C i))"
    by (subst erased_family [OF assms(5), symmetric]) (simp add: markerKey_def)
  also have "\<dots> \<longleftrightarrow> prefix pre (if isOwnedId i then i else T)" by (simp add: markerKey_def prefix_enc)
  also have "\<dots> \<longleftrightarrow> prefix pre i"
  proof (cases "isOwnedId i")
    case False
    then have "\<not> prefix pre i" using own by blast
    moreover have "\<not> prefix pre T" using T prefix_order.trans [OF pre] by blast
    ultimately show ?thesis using False by simp
  qed simp
  finally show "erased_keys pre (markerKey fam T C i) \<longleftrightarrow> o2 = ow" using p by simp
qed


lemma erased_namespace: "\<not> erased_keys pre (logNsOf T)" "\<not> erased_keys pre (depthNsOf T og)"
  by (simp_all add: erased_keys_def logNsOf_def depthNsOf_def split: option.split)

text \<open>
  C35: erasing a person removes that person's events and nothing else. After \<open>eventEraser\<close>, for an event that was emitted under the name \<open>nm\<close> for the owner
  \<open>o2\<close>: if it is the erased owner's, it is in no topic log and no depth index, and no consumer of any topic has an acknowledgement, a retry record or a dead
  letter of it; if it is anybody else's (another user's, the same user's in another organisation, or the system's), the logs and all its markers are as they were.
\<close>

theorem event_erasure_is_exact:
  assumes "ownedPrefix \<lparr>o_orgId = og, o_resourceId = Some res\<rparr> = Inr pre" and "ownedName nm o2 = Inr i" and "assertTopic T = Inr ()"
    and "fam \<in> {''evtack'', ''evtatt'', ''evtdead''}" and "ns = logNsOf T \<or> ns = depthNsOf T og2"
  shows "\<exists>n w'. srun env (eventEraser None True True res og) w = (Inr n, w')
    \<and> (if o2 = \<lparr>o_orgId = og, o_resourceId = Some res\<rparr>
       then i \<notin> lr_id ` set (log_of ns (work w')) \<and> ws_get (markerKey fam T C i) (work w') = JUndef
       else filter (\<lambda>r. lr_id r = i) (log_of ns (work w')) = filter (\<lambda>r. lr_id r = i) (log_of ns (work w))
         \<and> ws_get (markerKey fam T C i) (work w') = ws_get (markerKey fam T C i) (work w))"
proof -
  obtain n s' where run: "srun env (eventEraser None True True res og) w = (Inr n, w\<lparr>work := s'\<rparr>)"
    and log: "\<And>ns. log_of ns s' = (if erased_keys pre ns then [] else filter (\<lambda>r. \<not> prefix pre (lr_id r)) (log_of ns (work w)))"
    and get: "\<And>k. ws_get k s' = (if erased_keys pre k then JUndef else ws_get k (work w))"
    using run_eventEraser [OF assms(1), of env w] by blast
  note m = erased_marker [OF assms(2,1,3) _ assms(4), simplified]
  have "log_of ns s' = filter (\<lambda>r. \<not> prefix pre (lr_id r)) (log_of ns (work w))" using log erased_namespace assms(5) by auto
  then show ?thesis using run get m by (auto simp: intro!: filter_cong)
qed


section \<open>A topic with one delivered and one dead event\<close>

definition ev1 :: LogRecord where "ev1 = \<lparr>lr_id = ''e1'', lr_payload = JNum 1, lr_ts = 10\<rparr>"
definition ev2 :: LogRecord where "ev2 = \<lparr>lr_id = ''e2'', lr_payload = JNum 2, lr_ts = 20\<rparr>"

definition mail_consumer :: ConsumerOptions where
  "mail_consumer = \<lparr>co_name = ''mail'', co_maxAttempts = Some 8, co_retryDelayMs = DefaultDelay, co_putIfMatch = True\<rparr>"

definition bus_world :: sworld where
  "bus_world = \<lparr>base = new_world\<lparr>clock := 1000\<rparr>,
     work = \<lparr>logs = [(logNsOf ''orders'', [ev1, ev2])],
       kv = [(ackKey ''orders'' ''mail'' ''e1'', JBool True), (deadKey ''orders'' ''mail'' ''e2'', StoredDead ''boom'' 8 900 JUndef),
             (cursorKeyOf ''orders'' ''mail'', JStr ''1'')], idc = 0\<rparr>\<rparr>"

definition silent_env :: env where "silent_env = (\<lambda>_ _ _. Inr JUndef)"

lemma bus_world_log [simp]: "log_of (logNsOf ''orders'') (work bus_world) = [ev1, ev2]"
  by (simp add: bus_world_def log_of_def)

lemma bus_world_defined: "defined_kv (work bus_world)"
  by (auto simp: defined_kv_def bus_world_def StoredDead_def)

lemma bus_world_get:
  "ws_get (ackKey ''orders'' ''mail'' ''e1'') (work bus_world) = JBool True" "ws_get (ackKey ''orders'' ''mail'' ''e2'') (work bus_world) = JUndef"
  "js_truthy (ws_get (deadKey ''orders'' ''mail'' ''e2'') (work bus_world))" "position ''orders'' ''mail'' (work bus_world) = 1"
  "clock (base bus_world) = 1000" "called (base bus_world) = []"
  by code_simp+

lemma orders_topic: "assertTopic ''orders'' = Inr ()"
  by code_simp

theorem no_event_is_skipped_witness:
  "\<exists>c. sreach bus_programs bus_world c \<and> position ''orders'' ''mail'' (work (cworld c)) = 1
     \<and> settled ''orders'' ''mail'' (lr_id (log_of (logNsOf ''orders'') (work (cworld c)) ! 0)) (work (cworld c))"
proof -
  let ?p = "seqp (poll 1 ''orders'' mail_consumer) (Ret ())"
  let ?c = "gsolo (snd (srun silent_env ?p bus_world)) (gfinished (fst (srun silent_env ?p bus_world)))"
  have "?p \<in> bus_programs" unfolding bus_programs_def by blast
  then have r: "sreach bus_programs bus_world ?c" by (rule srun_solo) simp
  have pos: "position ''orders'' ''mail'' (work (snd (srun silent_env ?p bus_world))) = 1" by code_simp
  have "settled_below ''orders'' ''mail'' (position ''orders'' ''mail'' (work bus_world)) (work bus_world)"
    by (simp add: settled_below_def bus_world_get settled_def ev1_def)
  from no_event_is_skipped [OF r bus_world_defined this, of 0] pos show ?thesis using r by (auto simp: gsolo_def intro!: exI [of _ ?c])
qed

theorem poll_hands_over_due_events_witness:
  "\<exists>n w'. srun silent_env (poll 1 ''orders'' mail_consumer) bus_world = (Inr n, w') \<and> disposed ''orders'' ''mail'' ''e2'' w'"
proof -
  have C: "co_name mail_consumer = ''mail''" by (simp add: mail_consumer_def)
  have "\<forall>r\<in>set (take (position ''orders'' (co_name mail_consumer) (work bus_world)) [ev1, ev2]).
      disposed ''orders'' (co_name mail_consumer) (lr_id r) bus_world \<and> \<not> due ''orders'' (co_name mail_consumer) (lr_id r) bus_world"
    using bus_world_get by (simp add: C ev1_def due_def disposed_def acked_def)
  then show ?thesis
    using poll_hands_over_due_events [of "''orders''" bus_world 1 mail_consumer silent_env, OF orders_topic bus_world_defined]
    by (auto simp: C ev1_def ev2_def)
qed

theorem released_event_is_handed_over_witness:
  "\<exists>w1 n w2. srun silent_env (retryDeadEvent True ''orders'' ''mail'' ''e2'') bus_world = (Inr True, w1)
     \<and> srun silent_env (poll 1 ''orders'' mail_consumer) w1 = (Inr n, w2) \<and> handed ''orders'' ev2 \<in> set (called (base w2))"
proof -
  have "co_name mail_consumer = ''mail''" "lr_id ev2 = ''e2''" by (simp_all add: mail_consumer_def ev2_def)
  then show ?thesis
    using released_event_is_handed_over [of "''orders''" bus_world 1 ev2 mail_consumer silent_env True, OF orders_topic bus_world_defined]
      bus_world_get by (fastforce simp: ev1_def dest: in_set_dropD)
qed

theorem event_erasure_is_exact_witness:
  "\<exists>n w'. srun silent_env (eventEraser None True True ''ann'' (Some ''acme'')) bus_world = (Inr n, w')
     \<and> ws_get (ackKey ''orders'' ''mail'' ''e1'') (work w') = JBool True"
proof -
  have pre: "ownedPrefix \<lparr>o_orgId = Some ''acme'', o_resourceId = Some ''ann''\<rparr> = Inr ''~o~acme:ann:''" by code_simp
  have nm: "ownedName ''e1'' \<lparr>o_orgId = None, o_resourceId = None\<rparr> = Inr ''e1''" by code_simp
  show ?thesis
    using event_erasure_is_exact [OF pre nm orders_topic, of "''evtack''" "logNsOf ''orders''" None silent_env bus_world "''mail''"] bus_world_get(1)
    by (auto simp: ackKey_def)
qed

end
