(* ===== verification/Polling.thy ===== *)
theory Polling
  imports Prelude
begin

text \<open>
  The poll loop shared by the queue, the event bus and the scheduler (\<open>packages/durable/src/polling.ts\<close>). \<open>createPollLoop\<close> keeps its variables in
  a closure; here they are a record, together with the timers that are pending in the event loop of the process. A call of \<open>fn\<close> is in flight
  from \<open>fire\<close> to \<open>finish\<close>; \<open>start\<close> and \<open>stop\<close> may be called at any time in between.
\<close>

section \<open>Definitions\<close>

record PollLoopOptions =
  pl_pollMs :: int
  pl_backoff :: bool
  pl_maxPollMs :: int

text \<open>The defaults of \<open>createPollLoop\<close>.\<close>

definition poll_options :: "int option \<Rightarrow> bool option \<Rightarrow> int option \<Rightarrow> PollLoopOptions" where
  "poll_options pollMs backoff maxPollMs =
     (let ms = (case pollMs of None \<Rightarrow> 200 | Some n \<Rightarrow> n) in
      \<lparr>pl_pollMs = ms, pl_backoff = (case backoff of None \<Rightarrow> True | Some b \<Rightarrow> b), pl_maxPollMs = (case maxPollMs of None \<Rightarrow> ms * 32 | Some n \<Rightarrow> n)\<rparr>)"

record PollLoop =
  timer :: "nat option"
  polling :: bool
  currentPollMs :: int
  pending :: "(nat \<times> int) list"
  timers_made :: nat

definition createPollLoop :: "PollLoopOptions \<Rightarrow> PollLoop" where
  "createPollLoop opts = \<lparr>timer = None, polling = False, currentPollMs = pl_pollMs opts, pending = [], timers_made = 0\<rparr>"

text \<open>\<open>timer = setTimeout(tick, currentPollMs)\<close> and \<open>clearTimeout\<close>.\<close>

definition set_timer :: "PollLoop \<Rightarrow> PollLoop" where
  "set_timer l = l\<lparr>timer := Some (timers_made l), pending := pending l @ [(timers_made l, currentPollMs l)], timers_made := Suc (timers_made l)\<rparr>"

definition clear_timer :: "nat \<Rightarrow> PollLoop \<Rightarrow> PollLoop" where
  "clear_timer t l = l\<lparr>pending := filter (\<lambda>(u, ms). u \<noteq> t) (pending l)\<rparr>"

definition loop_start :: "PollLoopOptions \<Rightarrow> PollLoop \<Rightarrow> PollLoop" where
  "loop_start opts l = (if timer l \<noteq> None then l else set_timer (l\<lparr>currentPollMs := pl_pollMs opts\<rparr>))"

definition loop_stop :: "PollLoop \<Rightarrow> PollLoop" where
  "loop_stop l = (case timer l of None \<Rightarrow> l | Some t \<Rightarrow> (clear_timer t l)\<lparr>timer := None\<rparr>)"

text \<open>\<open>tick\<close> up to the call of \<open>fn\<close>, and from its end; a throwing \<open>fn\<close> counts as no progress.\<close>

definition tick_begin :: "PollLoop \<Rightarrow> PollLoop" where
  "tick_begin l = (if polling l then l else l\<lparr>polling := True\<rparr>)"

definition tick_end :: "PollLoopOptions \<Rightarrow> (err + bool) \<Rightarrow> PollLoop \<Rightarrow> PollLoop" where
  "tick_end opts r l =
     (let progressed = (case r of Inl _ \<Rightarrow> False | Inr b \<Rightarrow> b);
          l1 = l\<lparr>polling := False, currentPollMs := (if \<not> pl_backoff opts then pl_pollMs opts else if progressed then pl_pollMs opts
                  else min (currentPollMs l * 2) (pl_maxPollMs opts))\<rparr> in
      if timer l1 \<noteq> None then set_timer l1 else l1)"

text \<open>One step of the process: a call of \<open>start\<close> or \<open>stop\<close>, a timer that fires, the end of \<open>fn\<close>.\<close>

datatype loop_event = Start | Stop | Fire nat | Finish "err + bool"

inductive loop_step :: "PollLoopOptions \<Rightarrow> PollLoop \<Rightarrow> loop_event \<Rightarrow> PollLoop \<Rightarrow> bool" for opts where
  l_start: "loop_step opts l Start (loop_start opts l)"
| l_stop: "loop_step opts l Stop (loop_stop l)"
| l_fire: "t \<in> fst ` set (pending l) \<Longrightarrow> loop_step opts l (Fire t) (tick_begin (clear_timer t l))"
| l_finish: "polling l \<Longrightarrow> loop_step opts l (Finish r) (tick_end opts r l)"

text \<open>What a loop comes to by a sequence of steps; \<open>ok\<close> says which steps are taken in which state.\<close>

inductive loop_run :: "(PollLoop \<Rightarrow> loop_event \<Rightarrow> bool) \<Rightarrow> PollLoopOptions \<Rightarrow> loop_event list \<Rightarrow> PollLoop \<Rightarrow> bool" for ok opts where
  run_new: "loop_run ok opts [] (createPollLoop opts)"
| run_step: "loop_run ok opts es l \<Longrightarrow> ok l e \<Longrightarrow> loop_step opts l e l' \<Longrightarrow> loop_run ok opts (es @ [e]) l'"

inductive_cases loop_stepE: "loop_step opts l e l'"

abbreviation any_step :: "PollLoop \<Rightarrow> loop_event \<Rightarrow> bool" where
  "any_step \<equiv> \<lambda>_ _. True"

text \<open>\<open>start\<close> is not called while \<open>fn\<close> is in flight.\<close>

definition no_restart :: "PollLoop \<Rightarrow> loop_event \<Rightarrow> bool" where
  "no_restart l e \<longleftrightarrow> (e = Start \<longrightarrow> \<not> polling l)"

section \<open>Invariants\<close>

text \<open>A started loop goes on: it is in a call of \<open>fn\<close>, or a timer for the next one is pending.\<close>

definition loop_alive :: "PollLoopOptions \<Rightarrow> PollLoop \<Rightarrow> bool" where
  "loop_alive opts l \<longleftrightarrow> (timer l \<noteq> None \<longrightarrow> polling l \<or> pending l \<noteq> [])
     \<and> (\<forall>t. timer l = Some t \<longrightarrow> t < timers_made l) \<and> (\<forall>(t, ms)\<in>set (pending l). t < timers_made l \<and> pl_pollMs opts \<le> ms \<and> ms \<le> pl_maxPollMs opts)
     \<and> pl_pollMs opts \<le> currentPollMs l \<and> currentPollMs l \<le> pl_maxPollMs opts"

lemma alive_step:
  assumes "0 \<le> pl_pollMs opts" and "pl_pollMs opts \<le> pl_maxPollMs opts" and "loop_alive opts l" and "loop_step opts l e l'"
  shows "loop_alive opts l'"
  using assms(4)
proof cases
  case (l_finish r)
  then show ?thesis using assms(1-3) by (auto simp: loop_alive_def tick_end_def set_timer_def Let_def)
qed (use assms(1-3) in \<open>auto simp: loop_alive_def loop_start_def loop_stop_def tick_begin_def clear_timer_def set_timer_def split: option.splits\<close>)

text \<open>One chain: while \<open>fn\<close> is in flight no timer is pending, otherwise at most the one that \<open>stop\<close> would clear.\<close>

definition one_chain :: "PollLoop \<Rightarrow> bool" where
  "one_chain l \<longleftrightarrow> (if polling l then pending l = [] else case timer l of None \<Rightarrow> pending l = [] | Some t \<Rightarrow> map fst (pending l) = [t])"

lemma one_chain_step:
  assumes "one_chain l" and "no_restart l e" and "loop_step opts l e l'"
  shows "one_chain l'"
  using assms(3)
proof cases
  case (l_fire t)
  then show ?thesis using assms(1) by (auto simp: one_chain_def tick_begin_def clear_timer_def split: if_splits option.splits)
next
  case l_start
  then show ?thesis using assms(1,2) by (auto simp: one_chain_def no_restart_def loop_start_def set_timer_def split: option.splits)
next
  case l_stop
  then show ?thesis using assms(1) by (auto simp: one_chain_def loop_stop_def clear_timer_def split: if_splits option.splits)
next
  case (l_finish r)
  then show ?thesis using assms(1) by (auto simp: one_chain_def tick_end_def set_timer_def Let_def split: option.splits)
qed

lemma loop_alive_run:
  assumes "0 \<le> pl_pollMs opts" and "pl_pollMs opts \<le> pl_maxPollMs opts" and "loop_run ok opts es l"
  shows "loop_alive opts l"
  using assms(3)
proof induction
  case run_new
  then show ?case using assms(1,2) by (simp add: createPollLoop_def loop_alive_def)
qed (rule alive_step [OF assms(1,2)])

lemma one_chain_run: "loop_run no_restart opts es l \<Longrightarrow> one_chain l"
proof (induction rule: loop_run.induct)
  case run_new
  then show ?case by (simp add: createPollLoop_def one_chain_def)
qed (rule one_chain_step)

text \<open>The run that leaves a second chain: \<open>stop\<close> and \<open>start\<close> while \<open>fn\<close> is in flight, then \<open>stop\<close>.\<close>

lemma stray_timer:
  "\<exists>l. loop_run any_step opts [Start, Fire 0, Stop, Start, Finish (Inr True), Stop] l \<and> timer l = None \<and> \<not> polling l \<and> map fst (pending l) = [1]
     \<and> loop_step opts l (Fire 1) (l\<lparr>polling := True, pending := []\<rparr>)"
proof -
  let ?l0 = "createPollLoop opts" and ?t = "pl_pollMs opts"
  let ?l1 = "\<lparr>timer = Some 0, polling = False, currentPollMs = ?t, pending = [(0, ?t)], timers_made = 1\<rparr>"
  let ?l2 = "?l1\<lparr>polling := True, pending := []\<rparr>"
  let ?l3 = "?l2\<lparr>timer := None\<rparr>"
  let ?l4 = "?l3\<lparr>timer := Some 1, pending := [(1, ?t)], timers_made := 2\<rparr>"
  let ?l5 = "?l4\<lparr>polling := False, timer := Some 2, pending := [(1, ?t), (2, ?t)], timers_made := 3\<rparr>"
  let ?l6 = "?l5\<lparr>timer := None, pending := [(1, ?t)]\<rparr>"
  note defs = eval_nat_numeral createPollLoop_def loop_start_def loop_stop_def set_timer_def clear_timer_def tick_begin_def tick_end_def
  have "loop_run any_step opts [] ?l0" by (rule run_new)
  moreover have "loop_step opts ?l0 Start ?l1" using l_start [of opts ?l0] by (simp add: defs)
  moreover have "loop_step opts ?l1 (Fire 0) ?l2" using l_fire [of 0 ?l1 opts] by (simp add: defs)
  moreover have "loop_step opts ?l2 Stop ?l3" using l_stop [of opts ?l2] by (simp add: defs)
  moreover have "loop_step opts ?l3 Start ?l4" using l_start [of opts ?l3] by (simp add: defs)
  moreover have "loop_step opts ?l4 (Finish (Inr True)) ?l5" using l_finish [of ?l4 opts "Inr True"] by (cases "pl_backoff opts") (simp_all add: defs)
  moreover have "loop_step opts ?l5 Stop ?l6" using l_stop [of opts ?l5] by (simp add: defs)
  ultimately have "loop_run any_step opts ([] @ [Start] @ [Fire 0] @ [Stop] @ [Start] @ [Finish (Inr True)] @ [Stop]) ?l6"
    unfolding append_assoc [symmetric] by (blast intro: run_step)
  moreover have "loop_step opts ?l6 (Fire 1) (?l6\<lparr>polling := True, pending := []\<rparr>)" using l_fire [of 1 ?l6 opts] by (simp add: defs)
  ultimately show ?thesis by (intro exI [of _ ?l6]) simp
qed

section \<open>Properties\<close>

text \<open>
  C38: the poll loop. Whatever is called when, and whether \<open>fn\<close> returns or throws, a started loop never dies (a call is in flight or a timer is pending) and
  the interval stays between \<open>pollMs\<close> and \<open>maxPollMs\<close>. As long as \<open>start\<close> is not called during a call of \<open>fn\<close> there is one chain: no timer is
  pending during a call, and none after \<open>stop\<close>. A \<open>stop\<close> and \<open>start\<close> during a call, however, leave two chains, and one of their timers outlives the next \<open>stop\<close>:
  it calls \<open>fn\<close> on a stopped loop.
\<close>

theorem poll_loop_chain:
  assumes "0 \<le> pl_pollMs opts" and "pl_pollMs opts \<le> pl_maxPollMs opts"
  shows "(\<forall>es l. loop_run any_step opts es l \<longrightarrow> (timer l \<noteq> None \<longrightarrow> polling l \<or> pending l \<noteq> [])
        \<and> (\<forall>(t, ms)\<in>set (pending l). pl_pollMs opts \<le> ms \<and> ms \<le> pl_maxPollMs opts))
    \<and> (\<forall>es l. loop_run no_restart opts es l \<longrightarrow> length (pending l) \<le> 1 \<and> (polling l \<longrightarrow> pending l = []) \<and> (timer l = None \<longrightarrow> pending l = []))
    \<and> (\<exists>es l t. loop_run any_step opts (es @ [Stop]) l \<and> timer l = None \<and> \<not> polling l
        \<and> (\<exists>l'. loop_step opts l (Fire t) l' \<and> polling l'))"
proof (intro conjI)
  show "\<forall>es l. loop_run any_step opts es l \<longrightarrow> (timer l \<noteq> None \<longrightarrow> polling l \<or> pending l \<noteq> [])
      \<and> (\<forall>(t, ms)\<in>set (pending l). pl_pollMs opts \<le> ms \<and> ms \<le> pl_maxPollMs opts)"
    using loop_alive_run [OF assms, where ok = any_step] by (fastforce simp: loop_alive_def)
  show "\<forall>es l. loop_run no_restart opts es l \<longrightarrow> length (pending l) \<le> 1 \<and> (polling l \<longrightarrow> pending l = []) \<and> (timer l = None \<longrightarrow> pending l = [])"
  proof (intro allI impI)
    fix es l assume "loop_run no_restart opts es l"
    then show "length (pending l) \<le> 1 \<and> (polling l \<longrightarrow> pending l = []) \<and> (timer l = None \<longrightarrow> pending l = [])"
      by (auto dest!: one_chain_run simp: one_chain_def split: if_splits option.splits)
  qed
  obtain l where "loop_run any_step opts ([Start, Fire 0, Stop, Start, Finish (Inr True)] @ [Stop]) l" "timer l = None" "\<not> polling l"
    "loop_step opts l (Fire 1) (l\<lparr>polling := True, pending := []\<rparr>)"
    using stray_timer [of opts] by auto
  then show "\<exists>es l t. loop_run any_step opts (es @ [Stop]) l \<and> timer l = None \<and> \<not> polling l \<and> (\<exists>l'. loop_step opts l (Fire t) l' \<and> polling l')"
    by fastforce
qed

theorem poll_loop_chain_witness:
  "\<exists>es l t. loop_run any_step (poll_options None None None) (es @ [Stop]) l \<and> timer l = None \<and> (\<exists>l'. loop_step (poll_options None None None) l (Fire t) l' \<and> polling l')"
  using poll_loop_chain [of "poll_options None None None"] by (auto simp: poll_options_def)

end
