(* ===== verification/Workflow.thy ===== *)
theory Workflow
  imports JournalOps Ticket
begin

text \<open>
  Workflows (\<open>packages/workflow/src/workflow.ts\<close>): a workflow is a list of steps, each with a journal key of its own; a run that is
  called again replays the steps that have a record and executes the others. A step is a record with its body as a function into programs, so the
  step builders (\<open>retry\<close>, \<open>sleep\<close>, \<open>asStep\<close>, the combinators) are functions on steps as in the source.

  \<open>WorkflowSuspended\<close>, the one thrown value the engine looks into, is the constructor \<open>Suspended\<close> of the type of completions; every other error
  is raised. Bodies written by the host are outside code: they answer \<open>{return: v}\<close> or \<open>{suspend: waitId, reason}\<close>, or throw. The branches of
  \<open>parallel\<close> are performed one after the other; waiting is the passing of time.
\<close>

section \<open>Definitions\<close>

subsection \<open>Steps\<close>

record StepCtx =
  cx_runId :: string
  cx_identity :: js
  cx_keyPrefix :: "string option"
  cx_resumable :: bool
  cx_idempotencyKey :: "string option"
  cx_strictSideEffects :: bool

definition withIdentity :: "StepCtx \<Rightarrow> StepCtx" where
  "withIdentity entry =
     (if js_truthy (cx_identity entry) then entry
      else entry\<lparr>cx_identity := JObj [(''kind'', JStr ''unknown''), (''runId'', JStr (cx_runId entry))]\<rparr>)"

datatype completion = Returned js | Suspended string js

record StepDurability =
  sd_sideEffect :: bool
  sd_recover :: "(js \<Rightarrow> string \<Rightarrow> js prog) option"
  sd_claimTtlMs :: "int option"

record Step =
  st_id :: string
  st_run :: "js \<Rightarrow> StepCtx \<Rightarrow> completion prog"
  st_durability :: "StepDurability option"

definition step :: "string \<Rightarrow> (js \<Rightarrow> StepCtx \<Rightarrow> completion prog) \<Rightarrow> StepDurability option \<Rightarrow> Step" where
  "step i body opts = \<lparr>st_id = i, st_run = body, st_durability = opts\<rparr>"

text \<open>A body of the host.\<close>

definition completion_of :: "js \<Rightarrow> completion" where
  "completion_of a = (case js_field ''suspend'' a of JStr s \<Rightarrow> Suspended s (js_field ''reason'' a) | _ \<Rightarrow> Returned (js_field ''return'' a))"

definition host_body :: "string \<Rightarrow> js \<Rightarrow> StepCtx \<Rightarrow> completion prog" where
  "host_body name input ctx =
     bindp (ext ''step'' (JObj [(''name'', JStr name), (''input'', input), (''key'', case cx_idempotencyKey ctx of None \<Rightarrow> JUndef | Some k \<Rightarrow> JStr k)]))
       (\<lambda>a. Ret (completion_of a))"

subsection \<open>Keys\<close>

definition prefix_text :: "string option \<Rightarrow> string" where
  "prefix_text p = (case p of None \<Rightarrow> [] | Some s \<Rightarrow> s)"

definition step_key :: "StepCtx \<Rightarrow> string \<Rightarrow> key" where
  "step_key ctx i = cx_runId ctx @ '':wf:'' @ prefix_text (cx_keyPrefix ctx) @ i"

definition claim_key :: "key \<Rightarrow> key" where "claim_key key = key @ '':_claim''"
definition resumeKey :: "string \<Rightarrow> string \<Rightarrow> key" where "resumeKey runId waitId = runId @ '':wf:_resume:'' @ waitId"
definition canceledKey :: "string \<Rightarrow> key" where "canceledKey runId = runId @ '':wf:_canceled''"
definition suspendKey :: "string \<Rightarrow> key" where "suspendKey runId = runId @ '':wf:_suspend''"
definition fallbackMarkerKey :: "string \<Rightarrow> string option \<Rightarrow> string \<Rightarrow> key" where
  "fallbackMarkerKey runId pre stepId = runId @ '':wf:'' @ prefix_text pre @ stepId @ '':_fallback''"
definition WFRUN_PRE :: string where "WFRUN_PRE = ''wfrun:''"
definition statusKey :: "string \<Rightarrow> key" where "statusKey runId = WFRUN_PRE @ runId"

subsection \<open>Running one step\<close>

text \<open>\<open>if (await claim(journal, key, out)) return out; \<dots> winner\<close>\<close>

definition record_output :: "caps \<Rightarrow> key \<Rightarrow> js \<Rightarrow> js prog" where
  "record_output J key out =
     bindp (claim J key out) (\<lambda>won.
       if won then Ret out else bindp (get key) (\<lambda>winner. Ret (if winner = JUndef then out else winner)))"

definition clockOf :: "caps \<Rightarrow> int prog" where
  "clockOf J = (if has_now J then journal_now else date_now)"

definition DEFAULT_CLAIM_TTL_MS :: int where "DEFAULT_CLAIM_TTL_MS = 60000"

definition StepClaimRecord :: "int \<Rightarrow> js" where
  "StepClaimRecord startedAt = JObj [(''startedAt'', JNum startedAt)]"

definition stamped :: "int \<Rightarrow> string \<Rightarrow> js" where
  "stamped startedAt flag = JObj [(''startedAt'', JNum startedAt), (flag, JBool True)]"

definition StepRetryBlockedError :: "string \<Rightarrow> string \<Rightarrow> err" where
  "StepRetryBlockedError stepId state = Err ''StepRetryBlockedError'' (stepId @ '':'' @ state)"

definition adoptClaim :: "caps \<Rightarrow> key \<Rightarrow> js \<Rightarrow> js \<Rightarrow> string \<Rightarrow> unit prog" where
  "adoptClaim J claimKey cur nxt stepId =
     (if has_putIfMatch J then
        bindp (putIfMatch claimKey cur nxt) (\<lambda>ok. if ok then Ret () else Raise (StepRetryBlockedError stepId ''in-flight''))
      else put claimKey nxt)"

definition assertRecoverShape :: "js \<Rightarrow> string \<Rightarrow> err + unit" where
  "assertRecoverShape r stepId =
     (if (case r of JObj _ \<Rightarrow> (if js_field ''done'' r = JBool True then js_has_field ''output'' r else js_field ''done'' r = JBool False) | _ \<Rightarrow> False)
      then Inr () else Inl (Err ''Error'' stepId))"

text \<open>The \<open>catch\<close> of the body: what is known of the attempt is written onto the claim, if it is still ours.\<close>

definition stamp_claim :: "caps \<Rightarrow> key \<Rightarrow> int \<Rightarrow> string \<Rightarrow> unit prog" where
  "stamp_claim J claimKey startedAt flag =
     catchp
       (if has_putIfMatch J then bindp (putIfMatch claimKey (StepClaimRecord startedAt) (stamped startedAt flag)) (\<lambda>_. Ret ())
        else bindp (get claimKey) (\<lambda>cur.
          if js_truthy cur \<and> js_field ''startedAt'' cur = JNum startedAt \<and> \<not> js_truthy (js_field ''released'' cur) \<and> \<not> js_truthy (js_field ''failed'' cur)
          then put claimKey (stamped startedAt flag) else Ret ()))
       (\<lambda>_. Ret ())"

definition side_effect_body :: "caps \<Rightarrow> Step \<Rightarrow> js \<Rightarrow> StepCtx \<Rightarrow> key \<Rightarrow> int \<Rightarrow> completion prog" where
  "side_effect_body J s input ctx key startedAt =
     bindp (outcome (bindp (st_run s input ctx) (\<lambda>c.
         case c of
           Suspended i r \<Rightarrow> Ret (Suspended i r)
         | Returned out \<Rightarrow> bindp (record_output J key out) (\<lambda>v. Ret (Returned v))))) (\<lambda>r.
       case r of
         Inr (Returned v) \<Rightarrow> Ret (Returned v)
       | Inr (Suspended i rs) \<Rightarrow> seqp (stamp_claim J (claim_key key) startedAt ''released'') (Ret (Suspended i rs))
       | Inl e \<Rightarrow> seqp (stamp_claim J (claim_key key) startedAt ''failed'') (Raise e))"

text \<open>The claim is adopted; a sibling may have recorded the output in between.\<close>

definition run_adopted :: "caps \<Rightarrow> Step \<Rightarrow> js \<Rightarrow> StepCtx \<Rightarrow> key \<Rightarrow> js \<Rightarrow> int \<Rightarrow> completion prog" where
  "run_adopted J s input ctx key cur at =
     seqp (adoptClaim J (claim_key key) cur (StepClaimRecord at) (st_id s))
       (bindp (get key) (\<lambda>landed. if landed \<noteq> JUndef then Ret (Returned landed) else side_effect_body J s input ctx key at))"

text \<open>What an existing claim \<open>cur\<close> means at the time \<open>at\<close>.\<close>

definition decide_claim :: "caps \<Rightarrow> Step \<Rightarrow> StepDurability \<Rightarrow> js \<Rightarrow> StepCtx \<Rightarrow> key \<Rightarrow> js \<Rightarrow> int \<Rightarrow> completion prog" where
  "decide_claim J s d input ctx key cur at =
     (let ttl = (case sd_claimTtlMs d of None \<Rightarrow> DEFAULT_CLAIM_TTL_MS | Some t \<Rightarrow> t); age = at - js_int (js_field ''startedAt'' cur) in
      if \<not> js_truthy cur then
        bindp (claim J (claim_key key) (StepClaimRecord at)) (\<lambda>won.
          if won then side_effect_body J s input ctx key at else Raise (StepRetryBlockedError (st_id s) ''in-flight''))
      else if js_truthy (js_field ''released'' cur) then run_adopted J s input ctx key cur at
      else if \<not> js_truthy (js_field ''failed'' cur) \<and> age < ttl then Raise (StepRetryBlockedError (st_id s) ''in-flight'')
      else case sd_recover d of
        None \<Rightarrow> Raise (StepRetryBlockedError (st_id s) ''unresolved'')
      | Some recover \<Rightarrow>
          bindp (recover input key) (\<lambda>r.
          seqp (liftp (assertRecoverShape r (st_id s)))
          (if js_truthy (js_field ''done'' r) then bindp (record_output J key (js_field ''output'' r)) (\<lambda>v. Ret (Returned v))
           else run_adopted J s input ctx key cur at)))"

definition resolve_claim :: "caps \<Rightarrow> Step \<Rightarrow> StepDurability \<Rightarrow> js \<Rightarrow> StepCtx \<Rightarrow> key \<Rightarrow> completion prog" where
  "resolve_claim J s d input ctx key =
     bindp (get key) (\<lambda>done1.
     if done1 \<noteq> JUndef then Ret (Returned done1)
     else bindp (get (claim_key key)) (\<lambda>cur. bindp (clockOf J) (\<lambda>at. decide_claim J s d input ctx key cur at)))"

definition runSideEffectStep :: "caps \<Rightarrow> Step \<Rightarrow> StepDurability \<Rightarrow> js \<Rightarrow> StepCtx \<Rightarrow> key \<Rightarrow> completion prog" where
  "runSideEffectStep J s d input ctx key =
     (if cx_strictSideEffects ctx \<and> sd_recover d = None then Raise (Err ''Error'' (st_id s))
      else bindp (clockOf J) (\<lambda>startedAt.
        bindp (claim J (claim_key key) (StepClaimRecord startedAt)) (\<lambda>won.
          if won then side_effect_body J s input ctx key startedAt else resolve_claim J s d input ctx key)))"

definition runStep :: "caps \<Rightarrow> Step \<Rightarrow> js \<Rightarrow> StepCtx \<Rightarrow> completion prog" where
  "runStep J s input ctx =
     (let key = step_key ctx (st_id s); ctx2 = ctx\<lparr>cx_idempotencyKey := Some key\<rparr> in
      bindp (get key) (\<lambda>cached.
      if cached \<noteq> JUndef then Ret (Returned cached)
      else case st_durability s of
        Some d \<Rightarrow>
          if sd_sideEffect d then runSideEffectStep J s d input ctx2 key
          else bindp (st_run s input ctx2) (\<lambda>c.
            case c of Suspended i r \<Rightarrow> Ret (Suspended i r) | Returned out \<Rightarrow> bindp (record_output J key out) (\<lambda>v. Ret (Returned v)))
      | None \<Rightarrow>
          bindp (st_run s input ctx2) (\<lambda>c.
            case c of Suspended i r \<Rightarrow> Ret (Suspended i r) | Returned out \<Rightarrow> bindp (record_output J key out) (\<lambda>v. Ret (Returned v)))))"

subsection \<open>Combinators\<close>

type_synonym Workflow = "Step list"

definition new_id :: "string option \<Rightarrow> string \<Rightarrow> Workflow \<Rightarrow> string" where
  "new_id i kind steps = (case i of Some s \<Rightarrow> s | None \<Rightarrow> kind @ ''#'' @ show_nat (length steps))"

definition wf_then :: "Workflow \<Rightarrow> Step \<Rightarrow> Workflow" where
  "wf_then steps s = steps @ [s]"

definition wf_map :: "Workflow \<Rightarrow> (js \<Rightarrow> js prog) \<Rightarrow> string option \<Rightarrow> Workflow" where
  "wf_map steps fn i = steps @ [step (new_id i ''map'' steps) (\<lambda>input ctx. bindp (fn input) (\<lambda>v. Ret (Returned v))) None]"

fun join_plus :: "string list \<Rightarrow> string" where
  "join_plus [] = []"
| "join_plus [s] = s"
| "join_plus (s # t # r) = s @ ''+'' @ join_plus (t # r)"

text \<open>The branches one after the other; the first that does not return decides, the others are performed all the same.\<close>

primrec all_settled :: "caps \<Rightarrow> string \<Rightarrow> Step list \<Rightarrow> js \<Rightarrow> StepCtx \<Rightarrow> ((string \<times> (err + completion)) list) prog" where
  "all_settled J pid [] input ctx = Ret []"
| "all_settled J pid (s # ss) input ctx =
     bindp (outcome (runStep J (s\<lparr>st_id := pid @ ''/'' @ st_id s\<rparr>) input ctx)) (\<lambda>r.
       bindp (all_settled J pid ss input ctx) (\<lambda>rs. Ret ((st_id s, r) # rs)))"

fun promise_all :: "(string \<times> (err + completion)) list \<Rightarrow> (string \<times> js) list \<Rightarrow> completion prog" where
  "promise_all [] acc = Ret (Returned (JObj acc))"
| "promise_all ((i, Inr (Returned v)) # rs) acc = promise_all rs (js_set i v acc)"
| "promise_all ((i, Inr (Suspended w r)) # rs) acc = Ret (Suspended w r)"
| "promise_all ((i, Inl e) # rs) acc = Raise e"

definition wf_parallel :: "caps \<Rightarrow> Workflow \<Rightarrow> Step list \<Rightarrow> string option \<Rightarrow> Workflow" where
  "wf_parallel J steps branches i =
     (let pid = (case i of Some s \<Rightarrow> s | None \<Rightarrow> ''parallel#'' @ show_nat (length steps) @ ''('' @ join_plus (map st_id branches) @ '')'') in
      steps @ [step pid (\<lambda>input ctx. bindp (all_settled J pid branches input ctx) (\<lambda>rs. promise_all rs [])) None])"

definition wf_branch :: "caps \<Rightarrow> Workflow \<Rightarrow> (js \<Rightarrow> bool prog) \<Rightarrow> Step \<Rightarrow> Step \<Rightarrow> string option \<Rightarrow> Workflow" where
  "wf_branch J steps cond ifStep elseStep i =
     (let bid = (case i of Some s \<Rightarrow> s | None \<Rightarrow> ''branch#'' @ show_nat (length steps) @ ''('' @ st_id ifStep @ ''|'' @ st_id elseStep @ '')'') in
      steps @ [step bid (\<lambda>input ctx. bindp (cond input) (\<lambda>b.
        let arm = (if b then ifStep else elseStep) in runStep J (arm\<lparr>st_id := bid @ ''/'' @ st_id arm\<rparr>) input ctx)) None])"

primrec each_item :: "caps \<Rightarrow> (js \<Rightarrow> nat \<Rightarrow> StepCtx \<Rightarrow> completion prog) \<Rightarrow> string \<Rightarrow> StepCtx \<Rightarrow> nat \<Rightarrow> js list \<Rightarrow> js list \<Rightarrow> completion prog" where
  "each_item J body fid ctx n [] out = Ret (Returned (JArr out))"
| "each_item J body fid ctx n (x # xs) out =
     bindp (runStep J (step (fid @ ''['' @ show_nat n @ '']'') (\<lambda>it c. body it n c) None) x ctx) (\<lambda>r.
       case r of Suspended w rs \<Rightarrow> Ret (Suspended w rs) | Returned v \<Rightarrow> each_item J body fid ctx (Suc n) xs (out @ [v]))"

definition wf_foreach :: "caps \<Rightarrow> Workflow \<Rightarrow> (js \<Rightarrow> (js list) prog) \<Rightarrow> (js \<Rightarrow> nat \<Rightarrow> StepCtx \<Rightarrow> completion prog) \<Rightarrow> string option \<Rightarrow> Workflow" where
  "wf_foreach J steps itemsOf body i =
     (let fid = new_id i ''foreach'' steps in
      steps @ [step fid (\<lambda>input ctx. bindp (itemsOf input) (\<lambda>xs. each_item J body fid ctx 0 xs [])) None])"

primrec loop_iters :: "nat \<Rightarrow> caps \<Rightarrow> (js \<Rightarrow> nat \<Rightarrow> StepCtx \<Rightarrow> completion prog) \<Rightarrow> (js \<Rightarrow> nat \<Rightarrow> bool prog) \<Rightarrow> string \<Rightarrow> StepCtx \<Rightarrow> nat \<Rightarrow> js \<Rightarrow> completion prog" where
  "loop_iters 0 J body cond i ctx iter cur = Ret (Returned cur)"
| "loop_iters (Suc n) J body cond i ctx iter cur =
     bindp (runStep J (step (i @ ''#'' @ show_nat iter) (\<lambda>inp c. body inp iter c) None) cur ctx) (\<lambda>r.
       case r of
         Suspended w rs \<Rightarrow> Ret (Suspended w rs)
       | Returned v \<Rightarrow> bindp (cond v iter) (\<lambda>again. if again then loop_iters n J body cond i ctx (Suc iter) v else Ret (Returned v)))"

definition wf_loop :: "caps \<Rightarrow> Workflow \<Rightarrow> (js \<Rightarrow> nat \<Rightarrow> StepCtx \<Rightarrow> completion prog) \<Rightarrow> (js \<Rightarrow> nat \<Rightarrow> bool prog) \<Rightarrow> string option \<Rightarrow> nat option \<Rightarrow> Workflow" where
  "wf_loop J steps body cond i maxIters =
     (let lid = new_id i ''loop'' steps in
      steps @ [step lid (\<lambda>input ctx. loop_iters (case maxIters of None \<Rightarrow> 100 | Some m \<Rightarrow> m) J body cond lid ctx 0 input) None])"

definition wf_dowhile :: "caps \<Rightarrow> Workflow \<Rightarrow> (js \<Rightarrow> nat \<Rightarrow> StepCtx \<Rightarrow> completion prog) \<Rightarrow> (js \<Rightarrow> nat \<Rightarrow> bool prog) \<Rightarrow> string option \<Rightarrow> nat option \<Rightarrow> Workflow" where
  "wf_dowhile J steps body cond i maxIters = wf_loop J steps body cond (Some (new_id i ''dowhile'' steps)) maxIters"

definition wf_dountil :: "caps \<Rightarrow> Workflow \<Rightarrow> (js \<Rightarrow> nat \<Rightarrow> StepCtx \<Rightarrow> completion prog) \<Rightarrow> (js \<Rightarrow> nat \<Rightarrow> bool prog) \<Rightarrow> string option \<Rightarrow> nat option \<Rightarrow> Workflow" where
  "wf_dountil J steps body cond i maxIters =
     wf_loop J steps body (\<lambda>v n. bindp (cond v n) (\<lambda>b. Ret (\<not> b))) (Some (new_id i ''dountil'' steps)) maxIters"

subsection \<open>Running a workflow\<close>

primrec wf_run_steps :: "caps \<Rightarrow> Workflow \<Rightarrow> js \<Rightarrow> StepCtx \<Rightarrow> completion prog" where
  "wf_run_steps J [] cur ctx = Ret (Returned cur)"
| "wf_run_steps J (s # ss) cur ctx =
     bindp (runStep J s cur ctx) (\<lambda>r. case r of Suspended w rs \<Rightarrow> Ret (Suspended w rs) | Returned v \<Rightarrow> wf_run_steps J ss v ctx)"

definition wf_run :: "caps \<Rightarrow> Workflow \<Rightarrow> js \<Rightarrow> StepCtx \<Rightarrow> completion prog" where
  "wf_run J steps input entry = wf_run_steps J steps input (withIdentity entry)"

datatype WorkflowResult =
    Completed js
  | RunSuspended string string js
  | Paused string js
  | Canceled string js

record ResumeOptions =
  ro_maxSteps :: "nat option"
  ro_resume :: "(string \<times> js) list"
  ro_signal :: bool
  ro_workflowName :: "string option"

definition WorkflowRunStatus :: "(string \<times> js) list \<Rightarrow> string \<Rightarrow> string option \<Rightarrow> int \<Rightarrow> js" where
  "WorkflowRunStatus s runId workflowName updatedAt =
     JObj (s @ [(''runId'', JStr runId)] @ opt_field ''workflowName'' workflowName @ [(''updatedAt'', JNum updatedAt)])"

definition putStatus :: "string \<Rightarrow> (string \<times> js) list \<Rightarrow> string option \<Rightarrow> unit prog" where
  "putStatus runId s workflowName =
     catchp (bindp date_now (\<lambda>at. put (statusKey runId) (WorkflowRunStatus s runId workflowName at))) (\<lambda>_. Ret ())"

text \<open>\<open>opts.signal?.aborted\<close> is a question to the host.\<close>

definition signal_aborted :: "ResumeOptions \<Rightarrow> bool prog" where
  "signal_aborted opts =
     (if ro_signal opts then catchp (bindp (ext ''aborted'' JUndef) (\<lambda>r. Ret (js_truthy r))) (\<lambda>_. Ret False) else Ret False)"

text \<open>The run ends here: cancelled at a step boundary, or suspended by a step.\<close>

definition cancel_run :: "ResumeOptions \<Rightarrow> StepCtx \<Rightarrow> Step \<Rightarrow> js \<Rightarrow> WorkflowResult prog" where
  "cancel_run opts ctx s flag =
     (let reason = (let r = js_field ''reason'' flag in if r = JUndef \<or> r = JNull then JStr ''signal'' else r) in
      seqp (if flag = JUndef then bindp date_now (\<lambda>at. put (canceledKey (cx_runId ctx)) (JObj [(''at'', JNum at), (''reason'', JStr ''signal'')])) else Ret ())
      (seqp (putStatus (cx_runId ctx) [(''status'', JStr ''canceled''), (''stepId'', JStr (st_id s)), (''reason'', reason)] (ro_workflowName opts))
        (Ret (Canceled (st_id s) reason))))"

definition suspend_run :: "ResumeOptions \<Rightarrow> StepCtx \<Rightarrow> Step \<Rightarrow> string \<Rightarrow> js \<Rightarrow> WorkflowResult prog" where
  "suspend_run opts ctx s w rs =
     seqp (put (suspendKey (cx_runId ctx)) (JObj [(''stepId'', JStr (st_id s)), (''waitId'', JStr w), (''reason'', rs)]))
     (seqp (putStatus (cx_runId ctx) [(''status'', JStr ''suspended''), (''stepId'', JStr (st_id s)), (''waitId'', JStr w), (''reason'', rs)] (ro_workflowName opts))
       (Ret (RunSuspended (st_id s) w rs)))"

primrec resume_steps :: "caps \<Rightarrow> ResumeOptions \<Rightarrow> StepCtx \<Rightarrow> nat \<Rightarrow> Workflow \<Rightarrow> js \<Rightarrow> WorkflowResult prog" where
  "resume_steps J opts ctx i [] cur =
     seqp (putStatus (cx_runId ctx) [(''status'', JStr ''completed'')] (ro_workflowName opts)) (Ret (Completed cur))"
| "resume_steps J opts ctx i (s # ss) cur =
     bindp (get (canceledKey (cx_runId ctx))) (\<lambda>flag.
     bindp (if flag \<noteq> JUndef then Ret True else signal_aborted opts) (\<lambda>stop.
     if stop then cancel_run opts ctx s flag
     else if (case ro_maxSteps opts of None \<Rightarrow> False | Some m \<Rightarrow> i \<ge> m) then Ret (Paused (st_id s) cur)
     else bindp (runStep J s cur ctx) (\<lambda>r.
       case r of Returned v \<Rightarrow> resume_steps J opts ctx (Suc i) ss v | Suspended w rs \<Rightarrow> suspend_run opts ctx s w rs)))"

definition runResumable :: "caps \<Rightarrow> Workflow \<Rightarrow> js \<Rightarrow> StepCtx \<Rightarrow> ResumeOptions \<Rightarrow> WorkflowResult prog" where
  "runResumable J steps input entry opts =
     (let ctx = withIdentity entry in
      seqp (forp (ro_resume opts) (\<lambda>(waitId, payload). put (resumeKey (cx_runId ctx) waitId) payload))
        (resume_steps J opts (ctx\<lparr>cx_resumable := True\<rparr>) 0 steps input))"

subsection \<open>Steps that wait\<close>

definition sleep :: "string \<Rightarrow> int \<Rightarrow> Step" where
  "sleep i untilMs = step i (\<lambda>input ctx. bindp date_now (\<lambda>now.
     Ret (if now < untilMs then Suspended i (JObj [(''kind'', JStr ''time''), (''untilMs'', JNum untilMs)])
          else Returned (JObj [(''sleptUntil'', JNum untilMs)])))) None"

definition waitForResume :: "string \<Rightarrow> (js \<Rightarrow> js prog) option \<Rightarrow> js \<Rightarrow> Step" where
  "waitForResume i validate reason = step i (\<lambda>input ctx.
     bindp (if cx_resumable ctx then get (resumeKey (cx_runId ctx) i) else Ret JUndef) (\<lambda>v.
       if v = JUndef then Ret (Suspended i (if reason = JUndef \<or> reason = JNull then JObj [(''kind'', JStr ''resume'')] else reason))
       else case validate of Some f \<Rightarrow> bindp (f v) (\<lambda>x. Ret (Returned x)) | None \<Rightarrow> Ret (Returned v))) None"

definition waitFor :: "string \<Rightarrow> (js \<Rightarrow> StepCtx \<Rightarrow> js prog) \<Rightarrow> Step" where
  "waitFor i check = step i (\<lambda>input ctx. bindp (check input ctx) (\<lambda>v.
     Ret (if v = JUndef \<or> v = JNull then Suspended i (JObj [(''kind'', JStr ''event'')]) else Returned v))) None"

subsection \<open>Forks, cancellation, the registry\<close>

definition copy_nested :: "string \<Rightarrow> string \<Rightarrow> key \<Rightarrow> unit prog" where
  "copy_nested src dst k =
     (let tail = drop (length (src @ '':wf:'')) k in
      if sublist '':_'' tail \<or> suffix '':attempts'' tail then Ret ()
      else bindp (get k) (\<lambda>v. if v \<noteq> JUndef then put (dst @ '':wf:'' @ tail) v else Ret ()))"

definition copy_step :: "caps \<Rightarrow> string \<Rightarrow> string \<Rightarrow> string list \<Rightarrow> string \<Rightarrow> (string list) prog" where
  "copy_step J src dst copied i =
     bindp (get (src @ '':wf:'' @ i)) (\<lambda>flat.
     bindp (if flat = JUndef then Ret copied
            else seqp (put (dst @ '':wf:'' @ i) flat)
              (bindp (get (src @ '':wf:'' @ i @ '':_fallback'')) (\<lambda>marker.
                 seqp (if marker \<noteq> JUndef then put (dst @ '':wf:'' @ i @ '':_fallback'') marker else Ret ()) (Ret (copied @ [i]))))) (\<lambda>copied.
       seqp (if has_listKeys J then bindp (listKeys (src @ '':wf:'' @ i @ '':'')) (\<lambda>ks. forp ks (copy_nested src dst)) else Ret ()) (Ret copied)))"

definition forkWorkflowRun :: "caps \<Rightarrow> Workflow \<Rightarrow> string \<Rightarrow> string \<Rightarrow> string \<Rightarrow> (string \<times> string list) prog" where
  "forkWorkflowRun J flow src fromStepId dst =
     (let order = map st_id flow in
      if fromStepId \<notin> set order then Raise (Err ''Error'' fromStepId)
      else bindp (get (statusKey dst)) (\<lambda>st.
        if st \<noteq> JUndef then Raise (Err ''Error'' dst)
        else seqp (forp order (\<lambda>i. bindp (get (dst @ '':wf:'' @ i)) (\<lambda>v. if v \<noteq> JUndef then Raise (Err ''Error'' dst) else Ret ())))
          (bindp (foldp (copy_step J src dst) [] (takeWhile (\<lambda>i. i \<noteq> fromStepId) order)) (\<lambda>copied.
           bindp date_now (\<lambda>at.
           seqp (put (statusKey dst) (JObj [(''runId'', JStr dst), (''status'', JStr ''forked''),
                (''forkedFrom'', JObj [(''runId'', JStr src), (''fromStepId'', JStr fromStepId)]), (''at'', JNum at)]))
             (Ret (dst, copied)))))))"

text \<open>\<open>...(v ? { f: v } : {})\<close> and \<open>...(v !== undefined ? { f: v } : {})\<close>\<close>

definition truthy_field :: "string \<Rightarrow> js \<Rightarrow> (string \<times> js) list" where
  "truthy_field f v = (if js_truthy v then [(f, v)] else [])"

definition defined_field :: "string \<Rightarrow> js \<Rightarrow> (string \<times> js) list" where
  "defined_field f v = (if v = JUndef then [] else [(f, v)])"

definition cancelWorkflowRun :: "string \<Rightarrow> js \<Rightarrow> bool prog" where
  "cancelWorkflowRun runId reason =
     bindp (get (statusKey runId)) (\<lambda>st.
     if js_field ''status'' st = JStr ''completed'' then Ret False
     else bindp date_now (\<lambda>at.
       seqp (put (canceledKey runId) (JObj ([(''at'', JNum at)] @ defined_field ''reason'' reason)))
       (bindp date_now (\<lambda>at2.
        seqp (put (statusKey runId) (JObj ([(''runId'', JStr runId), (''status'', JStr ''canceled'')] @ truthy_field ''stepId'' (js_field ''stepId'' st)
            @ truthy_field ''workflowName'' (js_field ''workflowName'' st) @ defined_field ''reason'' reason @ [(''updatedAt'', JNum at2)])))
          (Ret True)))))"

definition getWorkflowRunStatus :: "string \<Rightarrow> js prog" where
  "getWorkflowRunStatus runId = get (statusKey runId)"

definition listWorkflowRuns :: "caps \<Rightarrow> string option \<Rightarrow> (js list) prog" where
  "listWorkflowRuns J status =
     (if \<not> has_listKeys J then Raise (Err ''Error'' ''listKeys'')
      else bindp (listKeys WFRUN_PRE) (\<lambda>ks.
        bindp (foldp (\<lambda>out k. bindp (get k) (\<lambda>st.
            Ret (if js_truthy st \<and> (case status of None \<Rightarrow> True | Some s \<Rightarrow> js_field ''status'' st = JStr s) then out @ [st] else out))) [] ks) (\<lambda>out.
          Ret (sort_key (\<lambda>st. - js_int (js_field ''updatedAt'' st)) out))))"

subsection \<open>Retries and nesting\<close>

datatype Backoff = NoBackoff | FixedBackoff | BackoffFunction

record RetryPolicy =
  rp_attempts :: nat
  rp_backoffMs :: Backoff
  rp_fallback :: "Step option"

definition ATTEMPTS_FIELD :: string where "ATTEMPTS_FIELD = ''n''"

definition readAttempts :: "caps \<Rightarrow> key \<Rightarrow> nat prog" where
  "readAttempts J key =
     bindp (get key) (\<lambda>legacy.
       if has_incrBy J \<and> has_getCounters J then
         bindp (callp (JGetCounters key)) (\<lambda>c. Ret (nat (max (js_int (js_field ATTEMPTS_FIELD c)) (js_int legacy))))
       else Ret (nat (js_int legacy)))"

definition bumpAttempts :: "caps \<Rightarrow> key \<Rightarrow> nat \<Rightarrow> unit prog" where
  "bumpAttempts J key used =
     (if has_incrBy J \<and> has_getCounters J then
        bindp (callp (JGetCounters key)) (\<lambda>c.
          bindp (callp (JIncrBy key [(ATTEMPTS_FIELD, if js_field ATTEMPTS_FIELD c = JUndef then int used else 1)])) (\<lambda>_. Ret ()))
      else put key (JNum (int used)))"

definition retry_exhausted :: "caps \<Rightarrow> Step \<Rightarrow> RetryPolicy \<Rightarrow> js \<Rightarrow> StepCtx \<Rightarrow> nat \<Rightarrow> completion prog" where
  "retry_exhausted J s policy input ctx used =
     (case rp_fallback policy of
        None \<Rightarrow> Raise (Err ''RetryExhaustedError'' (st_id s))
      | Some f \<Rightarrow>
          bindp (runStep J f input ctx) (\<lambda>r.
            case r of
              Suspended w rs \<Rightarrow> Ret (Suspended w rs)
            | Returned v \<Rightarrow>
                seqp (put (fallbackMarkerKey (cx_runId ctx) (cx_keyPrefix ctx) (st_id s))
                    (JObj [(''__gnlFallback'', JBool True), (''attempts'', JNum (int used)), (''stepId'', JStr (st_id f))]))
                  (Ret (Returned v))))"

definition retry_wait :: "RetryPolicy \<Rightarrow> nat \<Rightarrow> unit prog" where
  "retry_wait policy used =
     (if used < rp_attempts policy \<and> rp_backoffMs policy = BackoffFunction then bindp (ext ''backoffMs'' (JNum (int used))) (\<lambda>_. Ret ()) else Ret ())"

text \<open>The loop, with the number of attempts that are left.\<close>

primrec retry_loop :: "nat \<Rightarrow> caps \<Rightarrow> Step \<Rightarrow> RetryPolicy \<Rightarrow> js \<Rightarrow> StepCtx \<Rightarrow> nat \<Rightarrow> completion prog" where
  "retry_loop 0 J s policy input ctx used = retry_exhausted J s policy input ctx used"
| "retry_loop (Suc n) J s policy input ctx used =
     bindp (outcome (st_run s input ctx)) (\<lambda>r.
       case r of
         Inr c \<Rightarrow> Ret c
       | Inl e \<Rightarrow>
           seqp (bumpAttempts J (step_key ctx (st_id s) @ '':attempts'') (Suc used))
           (bindp (case st_durability s of
                None \<Rightarrow> Ret None
              | Some d \<Rightarrow> if \<not> sd_sideEffect d then Ret None
                  else case sd_recover d of
                    None \<Rightarrow> Raise e
                  | Some recover \<Rightarrow>
                      bindp (recover input (case cx_idempotencyKey ctx of Some k \<Rightarrow> k | None \<Rightarrow> step_key ctx (st_id s))) (\<lambda>v.
                      seqp (liftp (assertRecoverShape v (st_id s)))
                        (Ret (if js_truthy (js_field ''done'' v) then Some (js_field ''output'' v) else None)))) (\<lambda>recovered.
            case recovered of
              Some v \<Rightarrow> Ret (Returned v)
            | None \<Rightarrow> seqp (retry_wait policy (Suc used)) (retry_loop n J s policy input ctx (Suc used)))))"

definition retry :: "caps \<Rightarrow> Step \<Rightarrow> RetryPolicy \<Rightarrow> err + Step" where
  "retry J s policy =
     (if rp_attempts policy < 1 then Inl (Err ''Error'' (st_id s))
      else Inr (step (st_id s) (\<lambda>input ctx.
        bindp (readAttempts J (step_key ctx (st_id s) @ '':attempts'')) (\<lambda>used.
          retry_loop (rp_attempts policy - used) J s policy input ctx used)) (st_durability s)))"

definition asStep :: "caps \<Rightarrow> string \<Rightarrow> Workflow \<Rightarrow> Step" where
  "asStep J i flow = step i (\<lambda>input ctx. wf_run J flow input (ctx\<lparr>cx_keyPrefix := Some (prefix_text (cx_keyPrefix ctx) @ i @ '':'')\<rparr>)) None"

section \<open>A side effect fires at most once\<close>

text \<open>A claim record that has not been given back by a suspended attempt.\<close>

definition claim_held :: "js \<Rightarrow> bool" where
  "claim_held v \<longleftrightarrow> js_truthy v \<and> \<not> js_truthy (js_field ''released'' v)"

lemma claim_held_records [simp]: "claim_held (StepClaimRecord t)" "claim_held (stamped t ''failed'')"
  by (simp_all add: claim_held_def StepClaimRecord_def stamped_def)

lemma claim_heldD: "claim_held v \<Longrightarrow> js_truthy v \<and> \<not> js_truthy (js_field ''released'' v)"
  by (simp add: claim_held_def)

abbreviation step_quiet :: "key \<Rightarrow> (js \<Rightarrow> bool) \<Rightarrow> jop \<Rightarrow> bool" where
  "step_quiet \<equiv> ticket_quiet ''step''"

abbreviation step_wp :: "key \<Rightarrow> (js \<Rightarrow> bool) \<Rightarrow> 'a prog \<Rightarrow> holder \<Rightarrow> (holder \<Rightarrow> err + 'a \<Rightarrow> bool) \<Rightarrow> bool" where
  "step_wp \<equiv> ticket_wp claim_held ''step''"

lemmas step_quiet_wp = ticket_quiet_wp [of "''step''" _ _ _ _ _ claim_held]

lemma calls_in_record_output [simp]: "key \<noteq> CK \<Longrightarrow> calls_in (step_quiet CK E) (record_output J key v)"
  by (auto simp: record_output_def claim_def intro!: calls_in_bindp calls_in_seqp calls_in_ops_bound)

lemma calls_in_clockOf [simp]: "calls_in (step_quiet CK E) (clockOf J)"
  by (auto simp: clockOf_def)

lemma wp_clockOf: "(\<And>r. Q g r) \<Longrightarrow> step_wp CK E (clockOf J) g Q"
  by (rule step_quiet_wp) auto

text \<open>A body that fires the effect once and does not suspend.\<close>

definition fires :: "js \<Rightarrow> (js \<Rightarrow> js) \<Rightarrow> completion prog" where
  "fires a f = bindp (ext ''step'' a) (\<lambda>v. Ret (Returned (f v)))"

lemma wp_stamp_claim: "(\<And>r. Q g r) \<Longrightarrow> step_wp CK E (stamp_claim J CK t ''failed'') g Q"
  by (auto simp: stamp_claim_def putIfMatch_def put_def get_def vc_intros ticket_allowed_def ticket_tame_def ticket_upd_def split: sum.split)

lemma wp_side_effect_body:
  assumes "key \<noteq> claim_key key" and "st_run s input ctx = fires a f" and "\<And>g r. Q g r"
  shows "step_wp (claim_key key) E (side_effect_body J s input ctx key t) Holding Q"
  using assms
  by (auto simp: side_effect_body_def assms(2) fires_def ext_def outcome_def vc_intros ticket_allowed_def
      split: sum.split completion.split intro!: step_quiet_wp wp_stamp_claim)

lemma ticket_claim_wp:
  assumes "has_putIfAbsent J" and "good v" and "Q Holding (Inr True)" and "Q g (Inr False)" and "\<And>e. Q g (Inl e)"
  shows "ticket_wp good fn CK E (claim J CK v) g Q"
  using assms
  by (auto simp: claim_def putIfAbsent_def vc_intros ticket_allowed_def ticket_upd_def ticket_resp_def possible_putIfAbsent split: sum.splits)

lemma wp_get_claim:
  assumes "\<And>v. v = JUndef \<or> claim_held v \<Longrightarrow> Q g (Inr v)" and "\<And>e. Q g (Inl e)"
  shows "step_wp CK E (get CK) g Q"
  using assms by (auto simp: get_def vc_intros ticket_allowed_def ticket_tame_def ticket_upd_def ticket_resp_def all_sum)

lemma claim_key_neq [simp]: "claim_key key \<noteq> key" "key \<noteq> claim_key key"
  by (simp_all add: claim_key_def)

lemma wp_get_other: "(\<And>r. Q g r) \<Longrightarrow> step_wp CK E (get k) g Q"
  by (rule step_quiet_wp) auto

lemma wp_decide_claim:
  assumes "has_putIfAbsent J" and "sd_recover d = None" and "st_run s input ctx = fires a f" and "cur = JUndef \<or> claim_held cur"
  shows "step_wp (claim_key key) E (decide_claim J s d input ctx key cur at) g (\<lambda>_ _. True)"
  using assms
  by (auto simp: decide_claim_def Let_def vc_intros split: sum.split dest: claim_heldD intro!: ticket_claim_wp wp_side_effect_body)

lemma wp_resolve_claim:
  assumes "has_putIfAbsent J" and "sd_recover d = None" and "st_run s input ctx = fires a f"
  shows "step_wp (claim_key key) E (resolve_claim J s d input ctx key) g (\<lambda>_ _. True)"
  unfolding resolve_claim_def wp_bindp
  by (rule wp_get_other) (auto simp: vc_intros split: sum.split intro!: wp_get_claim wp_clockOf wp_decide_claim [OF assms])

lemma wp_runStep:
  assumes "has_putIfAbsent J" and "st_durability s = Some d" and "sd_sideEffect d" and "sd_recover d = None" and "step_key ctx (st_id s) = K"
    and "st_run s input (ctx\<lparr>cx_idempotencyKey := Some K\<rparr>) = fires a f"
  shows "step_wp (claim_key K) E (runStep J s input ctx) g (\<lambda>_ _. True)"
  using assms
  by (auto simp: runStep_def runSideEffectStep_def Let_def vc_intros split: sum.split
      intro!: wp_get_other wp_clockOf ticket_claim_wp wp_side_effect_body wp_resolve_claim)

text \<open>The keys a run writes beside the records of its steps.\<close>

definition run_keys :: "string \<Rightarrow> ResumeOptions \<Rightarrow> key set" where
  "run_keys runId opts = {canceledKey runId, suspendKey runId, statusKey runId} \<union> resumeKey runId ` fst ` set (ro_resume opts)"

text \<open>The step at key \<open>K\<close> is a side effect without \<open>recover\<close> whose body fires once; any other step of the workflow leaves its claim alone.\<close>

definition effect_step :: "key \<Rightarrow> StepCtx \<Rightarrow> Step \<Rightarrow> bool" where
  "effect_step K ctx s \<longleftrightarrow> step_key ctx (st_id s) = K \<and> (\<exists>d. st_durability s = Some d \<and> sd_sideEffect d \<and> sd_recover d = None)
     \<and> (\<forall>input. \<exists>a f. st_run s input (ctx\<lparr>cx_idempotencyKey := Some K\<rparr>) = fires a f)"

lemma wp_resume_steps:
  assumes J: "has_putIfAbsent J" and keys: "claim_key K \<notin> {canceledKey (cx_runId ctx), suspendKey (cx_runId ctx), statusKey (cx_runId ctx)}"
    and steps: "\<And>s. s \<in> set ss \<Longrightarrow> effect_step K ctx s \<or> (\<forall>cur. calls_in (step_quiet (claim_key K) E) (runStep J s cur ctx))"
  shows "step_wp (claim_key K) E (resume_steps J opts ctx i ss cur) g (\<lambda>_ _. True)"
  using steps
proof (induction ss arbitrary: i cur g)
  have status: "calls_in (step_quiet (claim_key K) E) (putStatus (cx_runId ctx) s n)" for s n
    using keys by (auto simp: putStatus_def intro!: calls_in_bindp calls_in_catchp calls_in_ops_bound)
  have ask: "calls_in (step_quiet (claim_key K) E) (signal_aborted opts)"
    by (auto simp: signal_aborted_def intro!: calls_in_catchp calls_in_bindp)
  have stop: "calls_in (step_quiet (claim_key K) E) (cancel_run opts ctx s flag)" for s flag
    using keys status by (auto simp: cancel_run_def Let_def intro!: calls_in_bindp calls_in_seqp calls_in_ops_bound)
  have susp: "calls_in (step_quiet (claim_key K) E) (suspend_run opts ctx s w rs)" for s w rs
    using keys status by (auto simp: suspend_run_def intro!: calls_in_seqp calls_in_ops_bound)
  {
    case Nil
    then show ?case using status by (intro step_quiet_wp) (auto intro!: calls_in_seqp)
  next
    case (Cons s ss)
    have here: "step_wp (claim_key K) E (runStep J s cur ctx) h (\<lambda>_ _. True)" for h
    proof (cases "effect_step K ctx s")
      case True
      then obtain d a f where "st_durability s = Some d" "sd_sideEffect d" "sd_recover d = None" "step_key ctx (st_id s) = K"
        "st_run s cur (ctx\<lparr>cx_idempotencyKey := Some K\<rparr>) = fires a f" unfolding effect_step_def by metis
      then show ?thesis by (intro wp_runStep [OF J])
    next
      case False
      then show ?thesis using Cons.prems [of s] by (intro step_quiet_wp) auto
    qed
    have tail: "step_wp (claim_key K) E (case r of Returned v \<Rightarrow> resume_steps J opts ctx (Suc i) ss v | Suspended w rs \<Rightarrow> suspend_run opts ctx s w rs) h (\<lambda>_ _. True)" for r h
      using Cons susp by (cases r) (auto intro!: step_quiet_wp)
    have run: "step_wp (claim_key K) E (bindp (runStep J s cur ctx) (\<lambda>r. case r of Returned v \<Rightarrow> resume_steps J opts ctx (Suc i) ss v | Suspended w rs \<Rightarrow> suspend_run opts ctx s w rs)) h (\<lambda>_ _. True)" for h
      unfolding wp_bindp by (rule wp_mono [OF here]) (simp add: tail split: sum.split)
    show ?case
      unfolding resume_steps.simps wp_bindp
      by (rule wp_get_other) (auto simp: vc_intros step_quiet_wp [OF stop] run [unfolded wp_bindp] split: sum.split intro!: step_quiet_wp [OF ask])
  }
qed

lemma wp_runResumable:
  assumes "has_putIfAbsent J" and "claim_key K \<notin> run_keys (cx_runId entry) opts"
    and "\<And>s. s \<in> set steps \<Longrightarrow> effect_step K ((withIdentity entry)\<lparr>cx_resumable := True\<rparr>) s
      \<or> (\<forall>cur. calls_in (step_quiet (claim_key K) E) (runStep J s cur ((withIdentity entry)\<lparr>cx_resumable := True\<rparr>)))"
  shows "step_wp (claim_key K) E (runResumable J steps input entry opts) g (\<lambda>_ _. True)"
proof -
  have id: "cx_runId (withIdentity entry) = cx_runId entry" by (simp add: withIdentity_def)
  have "calls_in (step_quiet (claim_key K) E) (forp (ro_resume opts) (\<lambda>(waitId, payload). put (resumeKey (cx_runId entry) waitId) payload))"
    using assms(2) by (intro calls_in_forp) (force simp: run_keys_def intro!: calls_in_ops_bound)
  moreover have "step_wp (claim_key K) E (resume_steps J opts ((withIdentity entry)\<lparr>cx_resumable := True\<rparr>) 0 steps input) h (\<lambda>_ _. True)" for h
    using assms by (intro wp_resume_steps) (auto simp: run_keys_def id)
  ultimately show ?thesis
    unfolding runResumable_def Let_def wp_seqp id by (intro step_quiet_wp) (auto split: sum.split)
qed

text \<open>A run of a workflow whose steps are the effect at \<open>K\<close> or leave the claim on it alone.\<close>

definition effect_run :: "caps \<Rightarrow> key \<Rightarrow> (js \<Rightarrow> bool) \<Rightarrow> WorkflowResult prog \<Rightarrow> bool" where
  "effect_run J K E p \<longleftrightarrow> (\<exists>steps input entry opts. p = runResumable J steps input entry opts \<and> claim_key K \<notin> run_keys (cx_runId entry) opts
     \<and> (\<forall>s \<in> set steps. effect_step K ((withIdentity entry)\<lparr>cx_resumable := True\<rparr>) s
         \<or> (\<forall>cur. calls_in (step_quiet (claim_key K) E) (runStep J s cur ((withIdentity entry)\<lparr>cx_resumable := True\<rparr>)))))"

lemma wp_effect_run: "has_putIfAbsent J \<Longrightarrow> effect_run J K E p \<Longrightarrow> step_wp (claim_key K) E p g (\<lambda>_ _. True)"
  by (auto simp: effect_run_def intro: wp_runResumable)

text \<open>A workflow that books and then charges, for the witnesses.\<close>

definition book_step :: Step where
  "book_step = step ''book'' (host_body ''book'') None"

definition charge_step :: Step where
  "charge_step = step ''charge'' (\<lambda>input ctx. fires (JObj [(''name'', JStr ''charge''), (''input'', input)]) (js_field ''return''))
     (Some \<lparr>sd_sideEffect = True, sd_recover = None, sd_claimTtlMs = None\<rparr>)"

definition order_ctx :: StepCtx where
  "order_ctx = \<lparr>cx_runId = ''r1'', cx_identity = JUndef, cx_keyPrefix = None, cx_resumable = False, cx_idempotencyKey = None, cx_strictSideEffects = False\<rparr>"

definition order_opts :: ResumeOptions where
  "order_opts = \<lparr>ro_maxSteps = None, ro_resume = [], ro_signal = False, ro_workflowName = None\<rparr>"

definition order_run :: "WorkflowResult prog" where
  "order_run = runResumable full_caps [book_step, charge_step] (JStr ''order'') order_ctx order_opts"

definition step_env :: env where
  "step_env = (\<lambda>_ _ _. Inr (JObj [(''return'', JStr ''ok'')]))"

definition charges :: "js \<Rightarrow> bool" where "charges a \<longleftrightarrow> js_field ''name'' a = JStr ''charge''"

lemma order_runs:
  "fst (run step_env order_run new_world) = Inr (Completed (JStr ''ok''))"
  "ticket_uses ''step'' charges (snd (run step_env order_run new_world)) = 1"
  by code_simp+

lemma order_effect: "effect_run full_caps ''r1:wf:charge'' charges order_run"
proof -
  let ?ctx = "(withIdentity order_ctx)\<lparr>cx_resumable := True\<rparr>"
  have "effect_step ''r1:wf:charge'' ?ctx charge_step"
    by (auto simp: effect_step_def step_key_def withIdentity_def order_ctx_def prefix_text_def charge_step_def step_def)
  moreover have "calls_in (step_quiet (claim_key ''r1:wf:charge'') charges) (runStep full_caps book_step cur ?ctx)" for cur
    by (auto simp: runStep_def Let_def book_step_def step_def host_body_def withIdentity_def order_ctx_def step_key_def prefix_text_def
        claim_key_def charges_def split: completion.split intro!: calls_in_bindp)
  moreover have "claim_key ''r1:wf:charge'' \<notin> run_keys (cx_runId order_ctx) order_opts"
    by (auto simp: run_keys_def order_ctx_def order_opts_def claim_key_def canceledKey_def suspendKey_def statusKey_def WFRUN_PRE_def)
  ultimately have "\<forall>s \<in> set [book_step, charge_step]. effect_step ''r1:wf:charge'' ?ctx s
      \<or> (\<forall>cur. calls_in (step_quiet (claim_key ''r1:wf:charge'') charges) (runStep full_caps s cur ?ctx))"
    and "claim_key ''r1:wf:charge'' \<notin> run_keys (cx_runId order_ctx) order_opts" by simp_all
  then show ?thesis unfolding effect_run_def order_run_def by blast
qed



section \<open>An interrupted run continues where it stopped\<close>

text \<open>Calls that leave the record at \<open>K\<close> as it is.\<close>

abbreviation spares :: "key \<Rightarrow> jop \<Rightarrow> bool" where
  "spares K \<equiv> ticket_quiet ''step'' K (\<lambda>_. False)"

lemma spared_op: "spares K c \<Longrightarrow> map_of (store (journal (snd (exec_op env c w)))) K = map_of (store (journal w)) K"
  by (cases c) (auto simp: mem_put_def mem_putIfAbsent_def mem_putIfMatch_def mem_incrBy_def Let_def mem_deletePrefix_def
      map_of_filter_key [of "\<lambda>k. \<not> prefix _ k"] split: prod.splits if_splits)

lemma spared_run: "calls_in (spares K) p \<Longrightarrow> map_of (store (journal (snd (run env p w)))) K = map_of (store (journal w)) K"
proof (induction p arbitrary: w)
  case (Op c k)
  obtain r w1 where e: "exec_op env c w = (r, w1)" by fastforce
  have "map_of (store (journal (snd (run env (k r) w1)))) K = map_of (store (journal w1)) K"
    using Op.prems by (intro Op.IH) auto
  then show ?case using Op.prems spared_op [of K c env w] e by simp
qed simp_all

text \<open>A step that is not declared a side effect and whose body leaves the records \<open>Ks\<close> alone.\<close>

definition plain_step :: "key set \<Rightarrow> Step \<Rightarrow> bool" where
  "plain_step Ks s \<longleftrightarrow> (\<forall>d. st_durability s = Some d \<longrightarrow> \<not> sd_sideEffect d) \<and> (\<forall>K \<in> Ks. \<forall>input ctx. calls_in (spares K) (st_run s input ctx))"

definition record_completion :: "caps \<Rightarrow> key \<Rightarrow> completion \<Rightarrow> completion prog" where
  "record_completion J key c = (case c of Suspended i r \<Rightarrow> Ret (Suspended i r) | Returned out \<Rightarrow> bindp (record_output J key out) (\<lambda>v. Ret (Returned v)))"

lemma runStep_plain:
  assumes "plain_step Ks s"
  shows "runStep J s input ctx = bindp (get (step_key ctx (st_id s))) (\<lambda>cached.
    if cached \<noteq> JUndef then Ret (Returned cached)
    else bindp (st_run s input (ctx\<lparr>cx_idempotencyKey := Some (step_key ctx (st_id s))\<rparr>)) (record_completion J (step_key ctx (st_id s))))"
  using assms by (auto simp: runStep_def plain_step_def record_completion_def fun_eq_iff Let_def split: option.split intro!: arg_cong2 [where f = bindp] ext)

lemma plain_step_spares:
  assumes "plain_step Ks s" and "K \<in> Ks" and "K \<noteq> step_key ctx (st_id s)"
  shows "calls_in (spares K) (runStep J s input ctx)"
  using assms by (auto simp: runStep_plain plain_step_def record_completion_def split: completion.split intro!: calls_in_bindp)

lemma record_output_records:
  assumes "has_putIfAbsent J" and "run env (record_output J K out) w = (r, w')" and "map_of (store (journal w')) K \<noteq> Some JUndef"
  shows "\<exists>v. r = Inr v \<and> map_of (store (journal w')) K = Some v"
  using assms by (auto simp: record_output_def claim_def prog_simps mem_putIfAbsent_def mem_get_def split: if_splits option.splits)

lemma plain_step_records:
  assumes "plain_step Ks s" and "has_putIfAbsent J" and "step_key ctx (st_id s) = K"
    and "run env (runStep J s input ctx) w = (Inr (Returned v), w')" and "map_of (store (journal w')) K \<noteq> Some JUndef"
  shows "map_of (store (journal w')) K = Some v"
  using assms(2-)
  by (auto simp: runStep_plain [OF assms(1)] prog_simps record_completion_def mem_get_def split: if_splits option.splits prod.splits sum.splits completion.splits
      dest: record_output_records [rotated])

text \<open>A run that stopped at a step boundary: what it has recorded is replayed, the rest is performed as it would have been.\<close>

lemma paused_steps:
  assumes "has_putIfAbsent J" and "ro_maxSteps opts = None" and "\<not> ro_signal opts" and "canceledKey (cx_runId ctx) \<in> Ks"
    and "\<forall>s \<in> set ss. plain_step Ks s \<and> step_key ctx (st_id s) \<in> Ks \<and> step_key ctx (st_id s) \<noteq> canceledKey (cx_runId ctx)"
    and "distinct (map (\<lambda>s. step_key ctx (st_id s)) ss)"
    and "run env (resume_steps J (opts\<lparr>ro_maxSteps := Some m\<rparr>) ctx i ss cur) w = (Inr (Paused sid c), w1)"
    and "mem_get (canceledKey (cx_runId ctx)) (journal w) = JUndef" and "\<forall>K \<in> Ks. map_of (store (journal w1)) K \<noteq> Some JUndef"
  shows "run env (resume_steps J opts ctx i ss cur) w1 = run env (resume_steps J opts ctx i ss cur) w
    \<and> (\<forall>K \<in> Ks - (\<lambda>s. step_key ctx (st_id s)) ` set ss. map_of (store (journal w1)) K = map_of (store (journal w)) K)"
  using assms(5-8)
proof (induction ss arbitrary: i cur w)
  case Nil
  then show ?case by (auto simp: prog_simps putStatus_def split: prod.splits sum.splits)
next
  case (Cons s ss)
  let ?K = "step_key ctx (st_id s)" and ?C = "canceledKey (cx_runId ctx)"
  show ?case
  proof (cases "i \<ge> m")
    case True
    then show ?thesis using Cons.prems(3,4) assms(3) by (simp add: prog_simps signal_aborted_def)
  next
    case False
    then obtain v w2 where step: "run env (runStep J s cur ctx) w = (Inr (Returned v), w2)"
      and rest: "run env (resume_steps J (opts\<lparr>ro_maxSteps := Some m\<rparr>) ctx (Suc i) ss v) w2 = (Inr (Paused sid c), w1)"
      using Cons.prems(3,4) assms(3)
      by (auto simp: prog_simps signal_aborted_def suspend_run_def putStatus_def split: prod.splits sum.splits completion.splits)
    have plain: "plain_step Ks s" and own: "?K \<in> Ks" "?K \<noteq> ?C" using Cons.prems(1) by auto
    have kept: "map_of (store (journal w2)) K = map_of (store (journal w)) K" if "K \<in> Ks" "K \<noteq> ?K" for K
      using spared_run [OF plain_step_spares [OF plain that], of env J cur w] step by simp
    then have open2: "mem_get ?C (journal w2) = JUndef" using Cons.prems(4) own assms(4) by (auto simp: mem_get_def)
    have IH: "run env (resume_steps J opts ctx (Suc i) ss v) w1 = run env (resume_steps J opts ctx (Suc i) ss v) w2"
      "\<forall>K \<in> Ks - (\<lambda>s. step_key ctx (st_id s)) ` set ss. map_of (store (journal w1)) K = map_of (store (journal w2)) K"
      using Cons.IH [OF _ _ rest open2] Cons.prems(1,2) by auto
    have "?K \<notin> (\<lambda>s. step_key ctx (st_id s)) ` set ss" using Cons.prems(2) by auto
    then have same: "map_of (store (journal w1)) ?K = map_of (store (journal w2)) ?K" using IH(2) own by blast
    then have "map_of (store (journal w2)) ?K \<noteq> Some JUndef" using assms(9) own by metis
    then have rec: "map_of (store (journal w1)) ?K = Some v" and "v \<noteq> JUndef"
      using plain_step_records [OF plain assms(1) refl step] same by auto
    then have "run env (runStep J s cur ctx) w1 = (Inr (Returned v), w1)" by (simp add: runStep_plain [OF plain] prog_simps mem_get_def)
    moreover have "?C \<in> Ks - (\<lambda>s. step_key ctx (st_id s)) ` set ss" using Cons.prems(1) assms(4) by auto
    then have "mem_get ?C (journal w1) = JUndef" using IH(2) open2 unfolding mem_get_def by metis
    ultimately have "run env (resume_steps J opts ctx i (s # ss) cur) w1 = run env (resume_steps J opts ctx (Suc i) ss v) w1"
      using assms(2,3) by (simp add: prog_simps signal_aborted_def)
    also have "\<dots> = run env (resume_steps J opts ctx i (s # ss) cur) w"
      using assms(2,3) Cons.prems(4) step IH(1) by (simp add: prog_simps signal_aborted_def)
    finally show ?thesis using IH(2) kept by auto
  qed
qed

text \<open>
  C8: Pausing a workflow after any number of steps and running it again on the same journal is the same as never pausing it: same result, same
  journal, same calls of outside code. The steps have distinct identifiers, are not declared side effects, and their bodies do not write the
  records of the steps or the cancellation flag; none of them has recorded \<open>undefined\<close>, which the journal cannot tell from no record.
\<close>

theorem paused_run_continues:
  assumes "has_putIfAbsent J" and "ro_maxSteps opts = None" and "\<not> ro_signal opts" and "ro_resume opts = []"
    and "distinct (map st_id steps)" and "\<forall>s \<in> set steps. prefix_text (cx_keyPrefix entry) @ st_id s \<noteq> ''_canceled''"
    and "Ks = insert (canceledKey (cx_runId entry)) ((\<lambda>s. step_key entry (st_id s)) ` set steps)" and "\<forall>s \<in> set steps. plain_step Ks s"
    and "run env (runResumable J steps input entry (opts\<lparr>ro_maxSteps := Some m\<rparr>)) w = (Inr (Paused sid c), w1)"
    and "mem_get (canceledKey (cx_runId entry)) (journal w) = JUndef" and "\<forall>K \<in> Ks. map_of (store (journal w1)) K \<noteq> Some JUndef"
  shows "run env (runResumable J steps input entry opts) w1 = run env (runResumable J steps input entry opts) w"
proof -
  let ?ctx = "(withIdentity entry)\<lparr>cx_resumable := True\<rparr>"
  have ctx: "cx_runId ?ctx = cx_runId entry" "step_key ?ctx = step_key entry"
    by (auto simp: withIdentity_def step_key_def fun_eq_iff)
  have inj: "distinct (map (\<lambda>s. step_key ?ctx (st_id s)) steps)"
    using assms(5) unfolding ctx by (auto simp: distinct_map inj_on_def step_key_def)
  have "run env (resume_steps J (opts\<lparr>ro_maxSteps := Some m\<rparr>) ?ctx 0 steps input) w = (Inr (Paused sid c), w1)"
    using assms(4,9) by (simp add: runResumable_def Let_def prog_simps)
  moreover have "\<forall>s \<in> set steps. plain_step Ks s \<and> step_key ?ctx (st_id s) \<in> Ks \<and> step_key ?ctx (st_id s) \<noteq> canceledKey (cx_runId ?ctx)"
    using assms(6,7,8) unfolding ctx by (auto simp: step_key_def canceledKey_def)
  ultimately have "run env (resume_steps J opts ?ctx 0 steps input) w1 = run env (resume_steps J opts ?ctx 0 steps input) w"
    using paused_steps [OF assms(1-3) _ _ inj, of Ks env m 0 input w sid c w1] assms(7,10,11) unfolding ctx by simp
  then show ?thesis using assms(4) by (simp add: runResumable_def Let_def prog_simps)
qed

definition pack_step :: Step where
  "pack_step = step ''pack'' (host_body ''pack'') None"

definition shop_run :: "nat option \<Rightarrow> WorkflowResult prog" where
  "shop_run m = runResumable full_caps [book_step, pack_step] (JStr ''order'') order_ctx (order_opts\<lparr>ro_maxSteps := m\<rparr>)"

lemma shop_paused:
  "fst (run step_env (shop_run (Some 1)) new_world) = Inr (Paused ''pack'' (JStr ''ok''))"
  "mem_get ''r1:wf:book'' (journal (snd (run step_env (shop_run (Some 1)) new_world))) = JStr ''ok''"
  "map fst (store (journal (snd (run step_env (shop_run (Some 1)) new_world)))) = [''r1:wf:book'']"
  by code_simp+

lemma plain_host_step: "plain_step Ks (step i (host_body n) None)"
  by (auto simp: plain_step_def step_def host_body_def intro!: calls_in_bindp)

lemma shop_steps:
  "st_id book_step = ''book''" "st_id pack_step = ''pack''" "plain_step Ks book_step" "plain_step Ks pack_step"
  by (simp_all add: book_step_def pack_step_def plain_host_step) (simp_all add: step_def)

theorem paused_run_continues_witness:
  "run step_env (shop_run None) (snd (run step_env (shop_run (Some 1)) new_world)) = run step_env (shop_run None) new_world"
proof -
  obtain w1 where w1: "run step_env (shop_run (Some 1)) new_world = (Inr (Paused ''pack'' (JStr ''ok'')), w1)"
    using shop_paused(1) by (metis prod.collapse)
  with shop_paused(2,3) have "store (journal w1) = [(''r1:wf:book'', JStr ''ok'')]"
    by (cases "store (journal w1)") (auto simp: mem_get_def)
  then have "run step_env (runResumable full_caps [book_step, pack_step] (JStr ''order'') order_ctx (order_opts\<lparr>ro_maxSteps := None\<rparr>)) w1
      = run step_env (runResumable full_caps [book_step, pack_step] (JStr ''order'') order_ctx (order_opts\<lparr>ro_maxSteps := None\<rparr>)) new_world"
    using w1 unfolding shop_run_def
    by (intro paused_run_continues [OF _ _ _ _ _ _ refl, where m = 1 and sid = "''pack''" and c = "JStr ''ok''"])
       (simp_all add: shop_steps full_caps_def order_opts_def order_ctx_def prefix_text_def new_world_def empty_journal_def mem_get_def)
  then show ?thesis using w1 by (simp add: shop_run_def)
qed

end
