(* ===== verification/Waker.thy ===== *)
theory Waker
  imports Workflow Scheduler
begin

text \<open>
  The waker of suspended workflow runs (\<open>packages/scheduler/src/workflow-waker.ts\<close>). \<open>resume\<close>, \<open>onError\<close> and a function given for \<open>orgs\<close> are
  outside code. The streaks of failures, which only limit the warnings, are carried from one tick to the next in \<open>wt_failStreak\<close>; a
  warning is an entry of \<open>wt_warned\<close>. The loop that calls \<open>tick\<close> is the one of \<open>polling.ts\<close>.
\<close>

section \<open>Definitions\<close>

definition WAKE_TICKET :: "js \<Rightarrow> js \<Rightarrow> key" where
  "WAKE_TICKET runId updatedAt = ''wfwake:'' @ js_string runId @ '':'' @ number_text updatedAt"

definition reasonKind :: "js \<Rightarrow> js" where
  "reasonKind reason = (case reason of JObj _ \<Rightarrow> reason | _ \<Rightarrow> JObj [])"

datatype OrgsOption = OrgList "string list" | OrgFunction

record WorkflowWakerOptions =
  wo_orgs :: OrgsOption
  wo_wakeEvented :: bool
  wo_onError :: bool

record WakerTick =
  wt_resumed :: nat
  wt_skipped :: nat
  wt_errored :: nat
  wt_failStreak :: "nat js_map"
  wt_warned :: "string list"

definition tick_start :: "nat js_map \<Rightarrow> WakerTick" where
  "tick_start streaks = \<lparr>wt_resumed = 0, wt_skipped = 0, wt_errored = 0, wt_failStreak = streaks, wt_warned = []\<rparr>"

text \<open>\<open>now >= reason.untilMs\<close>; \<open>sleep\<close> writes a number.\<close>

definition waker_due :: "WorkflowWakerOptions \<Rightarrow> int \<Rightarrow> js \<Rightarrow> bool" where
  "waker_due opts now st =
     (let reason = reasonKind (js_field ''reason'' st); kind = js_field ''kind'' reason in
      if kind = JStr ''time'' then (case js_field ''untilMs'' reason of JNum t \<Rightarrow> t \<le> now | JNull \<Rightarrow> 0 \<le> now | _ \<Rightarrow> False)
      else if kind = JStr ''event'' \<or> kind = JStr ''resume'' then wo_wakeEvented opts
      else False)"

text \<open>The journal of a partition: the root, or the view of an organisation (its identifier and its prefix).\<close>

type_synonym partition = "(string \<times> string) option"

definition on_partition :: "partition \<Rightarrow> 'a prog \<Rightarrow> 'a prog" where
  "on_partition part p = (case part of None \<Rightarrow> p | Some (orgId, P) \<Rightarrow> withOrg P p)"

definition partition_org :: "partition \<Rightarrow> string" where
  "partition_org part = (case part of None \<Rightarrow> [] | Some (orgId, P) \<Rightarrow> orgId)"

definition wake_args :: "partition \<Rightarrow> js \<Rightarrow> js" where
  "wake_args part st =
     JObj ([(''runId'', js_field ''runId'' st), (''status'', st)]
       @ (case part of None \<Rightarrow> [] | Some (orgId, P) \<Rightarrow> [(''where'', JObj [(''orgId'', JStr orgId)])]))"

definition streakKey :: "partition \<Rightarrow> js \<Rightarrow> string" where
  "streakKey part st = partition_org part @ [CHR 0x00] @ js_string (js_field ''runId'' st)"

definition wake_failed :: "WorkflowWakerOptions \<Rightarrow> string \<Rightarrow> js \<Rightarrow> err \<Rightarrow> WakerTick \<Rightarrow> WakerTick prog" where
  "wake_failed opts sk st e out =
     (let o1 = out\<lparr>wt_errored := Suc (wt_errored out)\<rparr> in
      if wo_onError opts then seqp (ext ''onError'' (js_field ''runId'' st)) (Ret o1)
      else let streak = Suc (case map_of (wt_failStreak o1) sk of None \<Rightarrow> 0 | Some n \<Rightarrow> n) in
        Ret (o1\<lparr>wt_failStreak := js_set sk streak (wt_failStreak o1),
               wt_warned := (if streak = 1 then wt_warned o1 @ [js_string (js_field ''runId'' st)] else wt_warned o1)\<rparr>))"

definition wake_run :: "caps \<Rightarrow> WorkflowWakerOptions \<Rightarrow> int \<Rightarrow> partition \<Rightarrow> WakerTick \<Rightarrow> js \<Rightarrow> WakerTick prog" where
  "wake_run J opts now part out st =
     (if \<not> waker_due opts now st then Ret (out\<lparr>wt_skipped := Suc (wt_skipped out)\<rparr>)
      else bindp (on_partition part (claim J (WAKE_TICKET (js_field ''runId'' st) (js_field ''updatedAt'' st)) (JObj [(''at'', JNum now)]))) (\<lambda>gotTicket.
        if \<not> gotTicket then Ret (out\<lparr>wt_skipped := Suc (wt_skipped out)\<rparr>)
        else let o1 = out\<lparr>wt_resumed := Suc (wt_resumed out)\<rparr>; sk = streakKey part st in
          bindp (outcome (ext ''resume'' (wake_args part st))) (\<lambda>r.
            case r of
              Inr _ \<Rightarrow> Ret (o1\<lparr>wt_failStreak := js_delete sk (wt_failStreak o1)\<rparr>)
            | Inl e \<Rightarrow> wake_failed opts sk st e o1)))"

definition wake_partition :: "caps \<Rightarrow> WorkflowWakerOptions \<Rightarrow> int \<Rightarrow> WakerTick \<Rightarrow> partition \<Rightarrow> WakerTick prog" where
  "wake_partition J opts now out part =
     bindp (on_partition part (listWorkflowRuns J (Some ''suspended''))) (\<lambda>runs. foldp (wake_run J opts now part) out runs)"

primrec partitions_of :: "string list \<Rightarrow> err + partition list" where
  "partitions_of [] = Inr []"
| "partitions_of (og # ogs) =
     (case orgPrefix og of
        Inl e \<Rightarrow> Inl e
      | Inr P \<Rightarrow> (case partitions_of ogs of Inl e \<Rightarrow> Inl e | Inr ps \<Rightarrow> Inr (Some (og, P) # ps)))"

definition waker_orgs :: "WorkflowWakerOptions \<Rightarrow> (string list) prog" where
  "waker_orgs opts = (case wo_orgs opts of OrgList ogs \<Rightarrow> Ret ogs | OrgFunction \<Rightarrow> bindp (ext ''orgs'' JUndef) (\<lambda>r. Ret (js_keys_of r)))"

definition tick :: "caps \<Rightarrow> WorkflowWakerOptions \<Rightarrow> int option \<Rightarrow> nat js_map \<Rightarrow> WakerTick prog" where
  "tick J opts now0 streaks =
     bindp (case now0 of Some t \<Rightarrow> Ret t | None \<Rightarrow> date_now) (\<lambda>now.
     bindp (waker_orgs opts) (\<lambda>ogs.
     bindp (liftp (partitions_of ogs)) (\<lambda>parts.
       foldp (wake_partition J opts now) (tick_start streaks) (None # parts))))"

text \<open>\<open>createWorkflowWaker\<close> refuses the journal of an organisation and the view of an end user; \<open>tick\<close> is the body of its poll loop.\<close>

definition createWorkflowWaker :: "caps \<Rightarrow> string option \<Rightarrow> bool \<Rightarrow> WorkflowWakerOptions \<Rightarrow> err + (int option \<Rightarrow> nat js_map \<Rightarrow> WakerTick prog)" where
  "createWorkflowWaker J org subjectView opts = (case assertRootJournal org subjectView of Inl e \<Rightarrow> Inl e | Inr _ \<Rightarrow> Inr (tick J opts))"

definition waker_pass :: "(int option \<Rightarrow> nat js_map \<Rightarrow> WakerTick prog) \<Rightarrow> nat js_map \<Rightarrow> (bool \<times> nat js_map) prog" where
  "waker_pass tk streaks = bindp (tk None streaks) (\<lambda>r. Ret (0 < wt_resumed r, wt_failStreak r))"

section \<open>A suspension is resumed at most once\<close>

text \<open>The wake-ups that count: the run \<open>r\<close> of the partition, suspended at \<open>u\<close>. They hold the ticket at the key below.\<close>

definition wakes :: "partition \<Rightarrow> js \<Rightarrow> js \<Rightarrow> js \<Rightarrow> bool" where
  "wakes part r u a \<longleftrightarrow> js_field ''runId'' (js_field ''status'' a) = r \<and> js_field ''updatedAt'' (js_field ''status'' a) = u
     \<and> js_field ''orgId'' (js_field ''where'' a) = (case part of None \<Rightarrow> JUndef | Some (og, P) \<Rightarrow> JStr og)"

definition partition_key :: "partition \<Rightarrow> key \<Rightarrow> key" where
  "partition_key part k = (case part of None \<Rightarrow> k | Some (og, P) \<Rightarrow> P @ k)"

definition good_partition :: "partition \<Rightarrow> bool" where
  "good_partition part \<longleftrightarrow> (\<forall>og P. part = Some (og, P) \<longrightarrow> orgPrefix og = Inr P)"

abbreviation wake_quiet :: "key \<Rightarrow> (js \<Rightarrow> bool) \<Rightarrow> jop \<Rightarrow> bool" where
  "wake_quiet \<equiv> ticket_quiet ''resume''"

abbreviation wake_wp :: "key \<Rightarrow> (js \<Rightarrow> bool) \<Rightarrow> 'a prog \<Rightarrow> holder \<Rightarrow> (holder \<Rightarrow> err + 'a \<Rightarrow> bool) \<Rightarrow> bool" where
  "wake_wp \<equiv> ticket_wp (\<lambda>_. True) ''resume''"

lemmas wake_quiet_wp = ticket_quiet_wp [of "''resume''" _ _ _ _ _ "\<lambda>_. True"]

lemma calls_in_withOrg: "calls_in (\<lambda>c. A (scope_op P c)) p \<Longrightarrow> calls_in A (withOrg P p)"
  by (induction p) auto

lemma partition_claim: "has_putIfAbsent J \<Longrightarrow> on_partition part (claim J k v) = claim J (partition_key part k) v"
  by (auto simp: on_partition_def partition_key_def claim_def putIfAbsent_def callp_def unscope_def fun_eq_iff map_sum_def split: option.split sum.split)

lemma quiet_listing: "calls_in (wake_quiet K E) (on_partition part (listWorkflowRuns J s))"
proof -
  have "calls_in (\<lambda>c. wake_quiet K E (scope_op P c)) (listWorkflowRuns J s)" "calls_in (wake_quiet K E) (listWorkflowRuns J s)" for P
    by (auto simp: listWorkflowRuns_def intro!: calls_in_bindp calls_in_foldp calls_in_ops_bound)
  then show ?thesis by (auto simp: on_partition_def intro: calls_in_withOrg split: option.split)
qed

lemma wakes_args: "good_partition part \<Longrightarrow> good_partition q \<Longrightarrow> wakes part r u (wake_args q st) \<Longrightarrow>
    partition_key q (WAKE_TICKET (js_field ''runId'' st) (js_field ''updatedAt'' st)) = partition_key part (WAKE_TICKET r u)"
  by (auto simp: wakes_def wake_args_def partition_key_def good_partition_def split: option.splits)

text \<open>A loop keeps to the protocol when its body does.\<close>

lemma wp_foldp:
  assumes "\<And>s x g. x \<in> set xs \<Longrightarrow> wp R A U (f s x) g (\<lambda>_ _. True)"
  shows "wp R A U (foldp f s xs) g (\<lambda>_ _. True)"
  using assms
proof (induction xs arbitrary: s g)
  case (Cons x xs)
  have "wp R A U (f s x) g (\<lambda>_ _. True)" using Cons.prems by simp
  then show ?case unfolding foldp.simps wp_bindp by (rule wp_mono) (use Cons in \<open>auto split: sum.split\<close>)
qed simp

lemma quiet_wake_failed: "calls_in (wake_quiet K E) (wake_failed opts sk st e out)"
  by (auto simp: wake_failed_def Let_def)

lemma wp_resume:
  assumes "E a \<Longrightarrow> g = Holding" and "\<And>g r. Q g r"
  shows "wake_wp K E (ext ''resume'' a) g Q"
  using assms by (auto simp: ext_def vc_intros ticket_allowed_def ticket_tame_def)

text \<open>The key of a ticket, and the programs of a waker for it.\<close>

definition ticket_of :: "partition \<Rightarrow> js \<Rightarrow> js \<Rightarrow> key" where
  "ticket_of part r u = partition_key part (WAKE_TICKET r u)"

lemma wp_wake_run:
  assumes "has_putIfAbsent J" and "good_partition q" and part: "good_partition part"
    and K: "K = ticket_of part r u" and E: "E = wakes part r u"
  shows "wake_wp K E (wake_run J opts now q out st) g (\<lambda>_ _. True)"
proof -
  let ?k = "partition_key q (WAKE_TICKET (js_field ''runId'' st) (js_field ''updatedAt'' st))"
  define rest where "rest = (\<lambda>gotTicket. if \<not> gotTicket then Ret (out\<lparr>wt_skipped := Suc (wt_skipped out)\<rparr>)
        else let o1 = out\<lparr>wt_resumed := Suc (wt_resumed out)\<rparr>; sk = streakKey q st in
          bindp (outcome (ext ''resume'' (wake_args q st))) (\<lambda>r.
            case r of
              Inr _ \<Rightarrow> Ret (o1\<lparr>wt_failStreak := js_delete sk (wt_failStreak o1)\<rparr>)
            | Inl e \<Rightarrow> wake_failed opts sk st e o1))"
  have rest: "wake_wp K E (rest b) h (\<lambda>_ _. True)" if "b \<Longrightarrow> E (wake_args q st) \<Longrightarrow> h = Holding" for b h
    using that
    by (auto simp: rest_def Let_def outcome_def vc_intros split: sum.split intro!: wp_resume wake_quiet_wp [OF quiet_wake_failed])
  have "wake_wp K E (bindp (claim J ?k v) rest) g (\<lambda>_ _. True)" for v
  proof (cases "?k = K")
    case True
    show ?thesis unfolding True wp_bindp by (rule ticket_claim_wp [OF assms(1)]) (auto intro: rest)
  next
    case False
    then have "\<not> E (wake_args q st)" using wakes_args [OF part assms(2)] K E by (metis ticket_of_def)
    moreover have "calls_in (wake_quiet K E) (claim J ?k v)" using False assms(1) by (auto simp: claim_def)
    ultimately show ?thesis unfolding wp_bindp by (intro wake_quiet_wp) (auto split: sum.split intro!: rest)
  qed
  then show ?thesis unfolding wake_run_def partition_claim [OF assms(1)] rest_def by simp
qed

lemma wp_tick:
  assumes "has_putIfAbsent J" and "good_partition part"
  shows "wake_wp (ticket_of part r u) (wakes part r u) (tick J opts now streaks) Outside (\<lambda>_ _. True)"
proof -
  let ?K = "ticket_of part r u" and ?E = "wakes part r u"
  have one: "wake_wp ?K ?E (wake_partition J opts t out q) g (\<lambda>_ _. True)" if "good_partition q" for t out q g
    unfolding wake_partition_def wp_bindp
    by (intro wake_quiet_wp [OF quiet_listing]) (auto split: sum.split intro!: wp_foldp wp_wake_run [OF assms(1) that assms(2) refl refl])
  have "\<forall>q \<in> set ps. good_partition q" if "partitions_of ogs = Inr ps" for ogs ps
    using that by (induction ogs arbitrary: ps) (auto simp: good_partition_def split: sum.splits)
  then have "wake_wp ?K ?E (bindp (liftp (partitions_of ogs)) (\<lambda>ps. foldp (wake_partition J opts t) (tick_start streaks) (None # ps))) g (\<lambda>_ _. True)" for ogs t g
    unfolding wp_bindp wp_liftp by (auto split: sum.split simp del: foldp.simps intro!: wp_foldp one) (auto simp: good_partition_def)
  then show ?thesis
    unfolding tick_def
    by (auto simp: vc_intros waker_orgs_def split: option.split OrgsOption.split sum.split intro!: wake_quiet_wp calls_in_ops_bound)
qed


text \<open>A run that sleeps until 50, and two passes at 100 and 200 whose host cannot resume it.\<close>

definition sleeping :: js where
  "sleeping = WorkflowRunStatus [(''status'', JStr ''suspended''), (''stepId'', JStr ''nap''), (''waitId'', JStr ''nap''),
     (''reason'', JObj [(''kind'', JStr ''time''), (''untilMs'', JNum 50)])] ''r1'' (Some ''flow'') 7"

definition sleeping_world :: world where
  "sleeping_world = new_world\<lparr>journal := mem_put 7 (statusKey ''r1'') sleeping empty_journal, clock := 100\<rparr>"

definition wake_opts :: WorkflowWakerOptions where
  "wake_opts = \<lparr>wo_orgs = OrgList [], wo_wakeEvented = False, wo_onError = False\<rparr>"

definition broken_env :: env where
  "broken_env = (\<lambda>_ _ _. Inl (Err ''Error'' ''unavailable''))"

definition two_ticks :: "WakerTick prog list" where
  "two_ticks = [tick full_caps wake_opts (Some 100) [], tick full_caps wake_opts (Some 200) []]"

text \<open>A pass that has ended having skipped one run.\<close>

definition missed :: "WakerTick prog \<Rightarrow> bool" where
  "missed p = (case p of Ret t \<Rightarrow> wt_resumed t = 0 \<and> wt_skipped t = 1 | _ \<Rightarrow> False)"

lemma two_ticks_run:
  "missed (fst (interleave broken_env two_ticks (replicate 6 0 @ replicate 6 1) sleeping_world) ! 1)"
  "length (fst (interleave broken_env two_ticks (replicate 6 0 @ replicate 6 1) sleeping_world)) = 2"
  "ticket_uses ''resume'' (wakes None (JStr ''r1'') (JNum 7)) (snd (interleave broken_env two_ticks (replicate 6 0 @ replicate 6 1) sleeping_world)) = 1"
  "mem_get (statusKey ''r1'') (journal (snd (interleave broken_env two_ticks (replicate 6 0 @ replicate 6 1) sleeping_world))) = sleeping"
  by code_simp+

text \<open>
  C36: Any number of wakers, with any options, call the host's \<open>resume\<close> at most once for one suspension of a run (the run and the \<open>updatedAt\<close> of its
  record), over the whole execution and in every interleaving: the wake ticket is claimed before the call and never given back. The
  witness shows what follows for a \<open>resume\<close> that fails before the run suspends again: the record keeps its \<open>updatedAt\<close>, and later passes skip
  the run although it is due and suspended.
\<close>

theorem suspension_woken_at_most_once:
  assumes "has_putIfAbsent J" and "good_partition part" and "map_of (store (journal w)) (ticket_of part r u) = None"
    and "ticket_uses ''resume'' (wakes part r u) w = 0"
    and "\<And>p. p \<in> S \<Longrightarrow> (\<exists>opts now streaks. p = tick J opts now streaks) \<or> calls_in (wake_quiet (ticket_of part r u) (wakes part r u)) p"
    and "reachable S w c"
  shows "ticket_uses ''resume'' (wakes part r u) (cworld c) \<le> 1"
  by (rule ticket_once [where good = "\<lambda>_. True", OF assms(3,4) _ assms(6)])
     (use assms(5) in \<open>auto intro: wake_quiet_wp wp_tick [OF assms(1,2)]\<close>)

theorem suspension_woken_at_most_once_witness:
  "\<exists>c p. reachable (set two_ticks) sleeping_world c \<and> threads c 1 = Some p \<and> missed p \<and> mem_get (statusKey ''r1'') (journal (cworld c)) = sleeping
     \<and> waker_due wake_opts 200 sleeping \<and> ticket_uses ''resume'' (wakes None (JStr ''r1'') (JNum 7)) (cworld c) = 1"
proof -
  let ?E = "wakes None (JStr ''r1'') (JNum 7)"
  obtain ps w' where i: "interleave broken_env two_ticks (replicate 6 0 @ replicate 6 1) sleeping_world = (ps, w')" by fastforce
  define c where "c = together ps w'"
  have r: "reachable (set two_ticks) sleeping_world c"
    unfolding c_def by (rule interleave_reachable [OF together_reachable i]) simp
  have "ticket_uses ''resume'' ?E (cworld c) \<le> 1"
  proof (rule suspension_woken_at_most_once [OF _ _ _ _ _ r, of full_caps])
    show "map_of (store (journal sleeping_world)) (ticket_of None (JStr ''r1'') (JNum 7)) = None" by code_simp
    show "ticket_uses ''resume'' ?E sleeping_world = 0" by code_simp
  qed (auto simp: full_caps_def good_partition_def two_ticks_def)
  moreover have "waker_due wake_opts 200 sleeping" by code_simp
  ultimately show ?thesis
    using r two_ticks_run unfolding i by (intro exI [of _ c] exI [of _ "ps ! 1"]) (auto simp: c_def together_def)
qed

section \<open>Which runs a pass wakes\<close>

text \<open>The suspended runs of the registry, newest first.\<close>

definition suspended_runs :: "world \<Rightarrow> js list" where
  "suspended_runs w =
     sort_key (\<lambda>st. - js_int (js_field ''updatedAt'' st))
       (filter (\<lambda>st. js_truthy st \<and> js_field ''status'' st = JStr ''suspended'') (map (\<lambda>k. mem_get k (journal w)) (mem_listKeys WFRUN_PRE None (journal w))))"

lemma run_collect:
  "run env (foldp (\<lambda>out k. bindp (get k) (\<lambda>st. Ret (if P st then out @ [st] else out))) acc ks) w
     = (Inr (acc @ filter P (map (\<lambda>k. mem_get k (journal w)) ks)), w)"
  by (induction ks arbitrary: acc) (auto simp: prog_simps)

lemma run_listWorkflowRuns: "has_listKeys J \<Longrightarrow> run env (listWorkflowRuns J (Some ''suspended'')) w = (Inr (suspended_runs w), w)"
  by (simp add: listWorkflowRuns_def prog_simps run_collect suspended_runs_def)

definition root_ticket :: "js \<Rightarrow> key" where
  "root_ticket st = WAKE_TICKET (js_field ''runId'' st) (js_field ''updatedAt'' st)"

definition wakeable :: "WorkflowWakerOptions \<Rightarrow> int \<Rightarrow> world \<Rightarrow> js \<Rightarrow> bool" where
  "wakeable opts now w st \<longleftrightarrow> waker_due opts now st \<and> map_of (store (journal w)) (root_ticket st) = None"

lemma run_wake_run:
  assumes "has_putIfAbsent J" and "\<not> wo_onError opts"
  shows "\<exists>o1 w1. run env (wake_run J opts now None out st) w = (Inr o1, w1)
    \<and> called w1 = called w @ (if wakeable opts now w st then [(''resume'', wake_args None st)] else [])
    \<and> (\<forall>k. k \<noteq> root_ticket st \<longrightarrow> map_of (store (journal w1)) k = map_of (store (journal w)) k)"
  using assms
  by (auto simp: wake_run_def wakeable_def root_ticket_def on_partition_def claim_def prog_simps mem_putIfAbsent_def wake_failed_def Let_def domIff
      split: sum.split)

lemma run_wake_runs:
  assumes "has_putIfAbsent J" and "\<not> wo_onError opts" and "distinct (map root_ticket sts)"
  shows "\<exists>o1 w1. run env (foldp (wake_run J opts now None) out sts) w = (Inr o1, w1)
    \<and> called w1 = called w @ map (\<lambda>st. (''resume'', wake_args None st)) (filter (wakeable opts now w) sts)"
  using assms(3)
proof (induction sts arbitrary: out w)
  case (Cons st sts)
  obtain o1 w1 where h: "run env (wake_run J opts now None out st) w = (Inr o1, w1)"
    "called w1 = called w @ (if wakeable opts now w st then [(''resume'', wake_args None st)] else [])"
    "\<And>k. k \<noteq> root_ticket st \<Longrightarrow> map_of (store (journal w1)) k = map_of (store (journal w)) k"
    using run_wake_run [OF assms(1,2), of env now out st w] by blast
  have "wakeable opts now w1 x = wakeable opts now w x" if "x \<in> set sts" for x
  proof -
    have "root_ticket x \<noteq> root_ticket st" using Cons.prems that by (metis distinct.simps(2) image_eqI list.set_map list.simps(9))
    then show ?thesis using h(3) by (simp add: wakeable_def)
  qed
  then have "filter (wakeable opts now w1) sts = filter (wakeable opts now w) sts" by (rule filter_cong [OF refl])
  with Cons.IH [of o1 w1] Cons.prems h show ?case by (auto simp: prog_simps)
qed simp

lemma tick_wakes:
  assumes "has_putIfAbsent J" and "has_listKeys J" and "wo_orgs opts = OrgList []" and "\<not> wo_onError opts"
    and "distinct (map root_ticket (suspended_runs w))"
  shows "\<exists>o1 w1. run env (tick J opts (Some now) streaks) w = (Inr o1, w1)
    \<and> called w1 = called w @ map (\<lambda>st. (''resume'', wake_args None st)) (filter (wakeable opts now w) (suspended_runs w))"
proof -
  have "run env (tick J opts (Some now) streaks) w = run env (foldp (wake_run J opts now None) (tick_start streaks) (suspended_runs w)) w"
    using assms(2,3)
    by (simp add: tick_def waker_orgs_def wake_partition_def prog_simps on_partition_def run_listWorkflowRuns split: prod.split sum.split)
  then show ?thesis using run_wake_runs [OF assms(1,4,5), of env now "tick_start streaks" w] by simp
qed



end
