(* ===== verification/ThreadOwner.thy ===== *)
theory ThreadOwner
  imports RunIdentity
begin

text \<open>
  Who owns a thread (\<open>packages/durable/src/thread-owner.ts\<close>): the owner record, its derivation for threads from before the record, and the gate
  of a run on a thread.

  The memory is outside code: \<open>getThreadResource\<close> and \<open>getMessages\<close> answer anything. So is the reader's \<open>listRuns\<close>, which answers an array
  of run summaries or one page of them; the walk over the pages runs on fuel.
\<close>

section \<open>Definitions\<close>

definition threadOwnerKey :: "string \<Rightarrow> key" where
  "threadOwnerKey threadId = ''thread:'' @ threadId @ '':owner''"

text \<open>An absent \<open>owner\<close> is \<open>JUndef\<close>.\<close>

record ThreadOwnership =
  th_exists :: bool
  th_owner :: js
  th_staffClaimed :: "bool option"

definition owned_thread :: "js \<Rightarrow> ThreadOwnership" where
  "owned_thread ow = \<lparr>th_exists = True, th_owner = ow, th_staffClaimed = None\<rparr>"

definition ownerless_thread :: "bool \<Rightarrow> ThreadOwnership" where
  "ownerless_thread claimed = \<lparr>th_exists = True, th_owner = JUndef, th_staffClaimed = Some claimed\<rparr>"

definition no_thread :: ThreadOwnership where
  "no_thread = \<lparr>th_exists = False, th_owner = JUndef, th_staffClaimed = None\<rparr>"

text \<open>The memory a run uses, if any, and whether it can name owners; whether the journal has \<open>listRuns\<close>.\<close>

record thread_env =
  te_memory :: "bool option"
  te_listRuns :: bool
  te_fuel :: nat

definition names_owners :: "thread_env \<Rightarrow> bool" where
  "names_owners te \<longleftrightarrow> te_memory te = Some True"

definition memory_resource :: "string \<Rightarrow> js prog" where
  "memory_resource threadId = ext ''getThreadResource'' (JStr threadId)"

text \<open>\<open>now?.resourceId ? { owner } : { staffClaimed }\<close>\<close>

definition ownership_of :: "js \<Rightarrow> ThreadOwnership" where
  "ownership_of rec =
     (if js_truthy (js_field ''resourceId'' rec) then owned_thread (js_field ''resourceId'' rec)
      else ownerless_thread (js_field ''ownerKind'' rec \<noteq> JStr ''unknown''))"

definition on_thread :: "string \<Rightarrow> js list \<Rightarrow> js list" where
  "on_thread threadId runs = filter (\<lambda>r. js_field ''threadId'' r = JStr threadId) runs"

fun thread_pages :: "nat \<Rightarrow> string \<Rightarrow> js list \<Rightarrow> js \<Rightarrow> (js list) prog" where
  "thread_pages 0 threadId out page = Raise (Err ''OutOfFuel'' [])"
| "thread_pages (Suc n) threadId out page =
     (let out1 = out @ on_thread threadId (js_elems (js_field ''items'' page)) in
      if \<not> js_truthy (js_field ''nextCursor'' page) then Ret out1
      else bindp (ext ''listRuns'' (JObj [(''cursor'', js_field ''nextCursor'' page)])) (thread_pages n threadId out1))"

definition runsOnThread :: "thread_env \<Rightarrow> string \<Rightarrow> (js list) prog" where
  "runsOnThread te threadId =
     (if \<not> te_listRuns te then Ret []
      else bindp (ext ''listRuns'' JUndef) (\<lambda>first.
        case first of JArr rs \<Rightarrow> Ret (on_thread threadId rs) | _ \<Rightarrow> thread_pages (te_fuel te) threadId [] first))"

primrec allBornUnknown :: "js list \<Rightarrow> bool prog" where
  "allBornUnknown [] = Ret True"
| "allBornUnknown (r # rs) =
     bindp (get (key_input (js_string (js_field ''runId'' r)))) (\<lambda>rec. if recordOwner rec \<noteq> Some UnknownCaller then Ret False else allBornUnknown rs)"

text \<open>What the runs on a thread say: whether it exists, its owner, and whether all of them are anonymous.\<close>

definition derive_from_runs :: "thread_env \<Rightarrow> string \<Rightarrow> (bool \<times> js \<times> bool) prog" where
  "derive_from_runs te threadId =
     bindp (runsOnThread te threadId) (\<lambda>runs.
       if runs = [] then Ret (False, JUndef, False)
       else (let owners = remdups (map (js_field ''resourceId'') runs) in
         if length owners = 1 \<and> js_truthy (hd owners) then Ret (True, hd owners, False)
         else if length owners = 1 then bindp (allBornUnknown runs) (\<lambda>anonymous. Ret (True, JUndef, anonymous))
         else Ret (True, JUndef, False)))"

text \<open>The older way: the memory's answer, then the runs, then the messages.\<close>

definition derive_owner :: "thread_env \<Rightarrow> string \<Rightarrow> (bool \<times> js \<times> bool) prog" where
  "derive_owner te threadId =
     bindp (if names_owners te then memory_resource threadId else Ret JUndef) (\<lambda>derived.
     bindp (if derived \<noteq> JUndef then Ret (True, derived, False) else derive_from_runs te threadId) (\<lambda>(ex, ow, anonymous).
       if \<not> ex \<and> te_memory te = Some False
       then bindp (ext ''getMessages'' (JStr threadId)) (\<lambda>ms. Ret (js_elems ms \<noteq> [], ow, anonymous))
       else Ret (ex, ow, anonymous)))"

definition backfill_record :: "int \<Rightarrow> js \<Rightarrow> js" where
  "backfill_record at derived =
     (if js_truthy derived then JObj [(''at'', JNum at), (''resourceId'', derived), (''backfilled'', JBool True)]
      else JObj [(''at'', JNum at), (''ownerKind'', JStr ''staff''), (''backfilled'', JBool True), (''underivable'', JBool True)])"

definition backfill_claim :: "caps \<Rightarrow> string \<Rightarrow> js \<Rightarrow> ThreadOwnership prog" where
  "backfill_claim J threadId derived =
     bindp date_now (\<lambda>at.
       seqp (claim J (threadOwnerKey threadId) (backfill_record at derived))
         (bindp (get (threadOwnerKey threadId)) (\<lambda>now. Ret (ownership_of now))))"

definition backfill :: "caps \<Rightarrow> thread_env \<Rightarrow> string \<Rightarrow> ThreadOwnership prog" where
  "backfill J te threadId =
     bindp (derive_owner te threadId) (\<lambda>(ex, derived, anonymous).
       if \<not> ex then Ret no_thread
       else if \<not> js_truthy derived \<and> anonymous then Ret (ownerless_thread False)
       else backfill_claim J threadId derived)"

text \<open>A record that names nobody is upgraded to the owner the memory names.\<close>

definition upgrade_owner :: "thread_env \<Rightarrow> string \<Rightarrow> js \<Rightarrow> ThreadOwnership prog" where
  "upgrade_owner te threadId rec =
     (if js_field ''ownerKind'' rec \<noteq> JStr ''staff'' \<and> names_owners te then
        bindp (memory_resource threadId) (\<lambda>ow.
          if js_truthy ow then
            bindp date_now (\<lambda>at.
              seqp (put (threadOwnerKey threadId) (JObj (spread (js_props rec) [(''resourceId'', ow), (''upgradedAt'', JNum at)]))) (Ret (owned_thread ow)))
          else Ret (ownerless_thread (js_field ''ownerKind'' rec \<noteq> JStr ''unknown'')))
      else Ret (ownerless_thread (js_field ''ownerKind'' rec \<noteq> JStr ''unknown'')))"

definition threadOwnerOf :: "caps \<Rightarrow> thread_env \<Rightarrow> string \<Rightarrow> ThreadOwnership prog" where
  "threadOwnerOf J te threadId =
     bindp (get (threadOwnerKey threadId)) (\<lambda>rec.
       if rec = JUndef then backfill J te threadId
       else bindp (propp ''resourceId'' rec) (\<lambda>ow. if js_truthy ow then Ret (owned_thread ow) else upgrade_owner te threadId rec))"

definition assignThreadOwner :: "string \<Rightarrow> string \<Rightarrow> unit prog" where
  "assignThreadOwner threadId resourceId =
     (if resourceId = [] then Raise (Err ''TypeError'' ''assignThreadOwner needs a user id'')
      else bindp date_now (\<lambda>at.
        put (threadOwnerKey threadId) (JObj [(''at'', JNum at), (''resourceId'', JStr resourceId), (''assigned'', JBool True)])))"

definition claim_thread :: "caps \<Rightarrow> string \<Rightarrow> js_record \<Rightarrow> ThreadOwnership prog" where
  "claim_thread J threadId flds =
     bindp date_now (\<lambda>at.
       seqp (claim J (threadOwnerKey threadId) (JObj ((''at'', JNum at) # flds)))
         (bindp (get (threadOwnerKey threadId)) (\<lambda>rec. Ret (ownership_of rec))))"

definition thread_mismatch :: err where
  "thread_mismatch = Err ''ThreadOwnerMismatchError'' ''thread belongs to somebody else''"

text \<open>What the gate decides for an ownership it has read or claimed.\<close>

fun thread_gate :: "Caller \<Rightarrow> ThreadOwnership \<Rightarrow> ThreadOwnership prog" where
  "thread_gate (StaffCaller og) ow = Ret ow"
| "thread_gate UnknownCaller ow = (if js_truthy (th_owner ow) \<or> th_staffClaimed ow = Some True then Raise thread_mismatch else Ret ow)"
| "thread_gate (UserCaller i og) ow =
     (if (if js_truthy (th_owner ow) then th_owner ow \<noteq> JStr i else th_staffClaimed ow = Some True) then Raise thread_mismatch else Ret ow)"

definition open_thread :: "ThreadOwnership \<Rightarrow> bool" where
  "open_thread ow \<longleftrightarrow> \<not> th_exists ow \<or> (th_owner ow = JUndef \<and> th_staffClaimed ow = Some False)"

definition claim_open :: "caps \<Rightarrow> string \<Rightarrow> Caller \<Rightarrow> ThreadOwnership \<Rightarrow> ThreadOwnership prog" where
  "claim_open J threadId caller ow =
     (case caller of
        UserCaller i og \<Rightarrow> bindp (claim_thread J threadId [(''resourceId'', JStr i)]) (thread_gate caller)
      | StaffCaller og \<Rightarrow> if \<not> th_exists ow then bindp (claim_thread J threadId [(''ownerKind'', JStr ''staff'')]) (thread_gate caller) else Ret ow
      | UnknownCaller \<Rightarrow> Ret ow)"

definition admitThreadRun :: "caps \<Rightarrow> thread_env \<Rightarrow> string \<Rightarrow> Caller \<Rightarrow> ThreadOwnership prog" where
  "admitThreadRun J te threadId caller =
     bindp (threadOwnerOf J te threadId) (\<lambda>ow. if open_thread ow then claim_open J threadId caller ow else thread_gate caller ow)"

section \<open>One user per thread\<close>

text \<open>A record that names a user or staff.\<close>

definition names_party :: "js \<Rightarrow> bool" where
  "names_party rec \<longleftrightarrow> (\<exists>kvs. rec = JObj kvs) \<and> (js_truthy (js_field ''resourceId'' rec) \<or> js_field ''ownerKind'' rec = JStr ''staff'')"

abbreviation thread_wp :: "string \<Rightarrow> 'a prog \<Rightarrow> once_ghost \<Rightarrow> (once_ghost \<Rightarrow> err + 'a \<Rightarrow> bool) \<Rightarrow> bool" where
  "thread_wp t \<equiv> wp (once_resp names_party (threadOwnerKey t)) (once_allowed names_party (threadOwnerKey t)) (once_upd (threadOwnerKey t))"

text \<open>An ownership that was read from the record, or that says nothing about an owner.\<close>

definition seen_owner :: "once_ghost \<Rightarrow> ThreadOwnership \<Rightarrow> bool" where
  "seen_owner g ow \<longleftrightarrow> (js_truthy (th_owner ow) \<longrightarrow> (\<exists>rec. learnt g = Some rec \<and> js_field ''resourceId'' rec = th_owner ow))
     \<and> (\<not> open_thread ow \<longrightarrow> js_truthy (th_owner ow) \<or> th_staffClaimed ow = Some True)"

definition seen_post :: "once_ghost \<Rightarrow> err + ThreadOwnership \<Rightarrow> bool" where
  "seen_post g r = (case r of Inr ow \<Rightarrow> seen_owner g ow | Inl e \<Rightarrow> True)"

definition closed_post :: "once_ghost \<Rightarrow> err + ThreadOwnership \<Rightarrow> bool" where
  "closed_post g r = (case r of Inr ow \<Rightarrow> seen_owner g ow \<and> \<not> open_thread ow | Inl e \<Rightarrow> True)"

text \<open>A caller that is let in as a user is the one the record names.\<close>

definition admit_user_post :: "Caller \<Rightarrow> once_ghost \<Rightarrow> err + 'a \<Rightarrow> bool" where
  "admit_user_post caller g r = (case (r, caller) of (Inr _, UserCaller u og) \<Rightarrow> (\<exists>rec. learnt g = Some rec \<and> js_field ''resourceId'' rec = JStr u) | _ \<Rightarrow> True)"

lemma wp_quiet_thread: "calls_in (once_allowed names_party (threadOwnerKey t) g) p \<Longrightarrow> (\<And>g r. Q g r) \<Longrightarrow> thread_wp t p g Q"
  by (erule wp_calls_any) (auto simp: once_allowed_def)

lemma calls_in_pages: "(\<And>k. A (JGet k)) \<Longrightarrow> (\<And>f a. A (Ext f a)) \<Longrightarrow> calls_in A (thread_pages n t out page)"
  by (induction n t out page rule: thread_pages.induct) (auto simp: Let_def)

lemma calls_in_born: "(\<And>k. A (JGet k)) \<Longrightarrow> calls_in A (allBornUnknown rs)"
  by (induction rs) auto

lemma calls_in_derive: "(\<And>k. A (JGet k)) \<Longrightarrow> (\<And>f a. A (Ext f a)) \<Longrightarrow> calls_in A (derive_owner te t)"
  by (auto simp: derive_owner_def derive_from_runs_def runsOnThread_def memory_resource_def Let_def
      intro!: calls_in_bindp calls_in_pages calls_in_born split: js.split)

lemma ownership_seen:
  "names_party rec \<Longrightarrow> learnt g = Some rec \<Longrightarrow> seen_owner g (ownership_of rec)" "names_party rec \<Longrightarrow> \<not> open_thread (ownership_of rec)"
  by (auto simp: seen_owner_def ownership_of_def owned_thread_def ownerless_thread_def names_party_def open_thread_def)

lemma wp_read_thread:
  assumes "exists_known g"
  shows "thread_wp t (bindp (get (threadOwnerKey t)) (\<lambda>rec. Ret (ownership_of rec))) g closed_post"
proof -
  have "names_party v" "v \<noteq> JUndef" if "once_resp names_party (threadOwnerKey t) g (JGet (threadOwnerKey t)) (Inr v)" for v
    using that assms by (auto simp: once_resp_def split: if_splits)
  then show ?thesis
    by (auto simp: wp_bindp wp_get_once once_upd_def closed_post_def ownership_seen split: sum.split)
qed

lemma wp_claim_then_read:
  assumes "has_putIfAbsent J" and "names_party v"
  shows "thread_wp t (seqp (claim J (threadOwnerKey t) v) (bindp (get (threadOwnerKey t)) (\<lambda>rec. Ret (ownership_of rec)))) g closed_post"
  unfolding wp_seqp
  by (rule wp_claim_once [OF assms(1)]) (use assms(2) in \<open>auto intro!: wp_read_thread simp: closed_post_def names_party_def\<close>)

lemma wp_date_then: "(\<And>at. thread_wp t (f at) g Q) \<Longrightarrow> (\<And>e. Q g (Inl e)) \<Longrightarrow> thread_wp t (bindp date_now f) g Q"
  by (auto simp: date_now_def wp_bindp wp_callp once_allowed_def once_upd_def split: sum.split)

lemma wp_claim_thread:
  assumes "has_putIfAbsent J" and "names_party (JObj ((''at'', JNum 0) # flds))"
  shows "thread_wp t (claim_thread J t flds) g closed_post"
  unfolding claim_thread_def
  by (intro wp_date_then wp_claim_then_read [OF assms(1)]) (use assms(2) in \<open>auto simp: names_party_def closed_post_def\<close>)

lemma closed_seen: "closed_post g r \<Longrightarrow> seen_post g r"
  by (auto simp: seen_post_def closed_post_def split: sum.splits)

lemma wp_backfill:
  assumes "has_putIfAbsent J"
  shows "thread_wp t (backfill J te t) g seen_post"
proof -
  have rec: "names_party (backfill_record at derived)" for at derived by (simp add: names_party_def backfill_record_def)
  have claim: "thread_wp t (backfill_claim J t derived) h seen_post" for derived h
    unfolding backfill_claim_def
    by (intro wp_date_then wp_mono [OF wp_claim_then_read [OF assms rec] closed_seen]) (auto simp: seen_post_def)
  have found: "thread_wp t (Ret no_thread) h seen_post" "thread_wp t (Ret (ownerless_thread False)) h seen_post" for h
    by (auto simp: seen_post_def seen_owner_def no_thread_def ownerless_thread_def open_thread_def)
  show ?thesis
    unfolding backfill_def wp_bindp [of _ _ _ "derive_owner te t"]
    by (rule wp_quiet_thread [OF calls_in_derive])
       (auto simp: once_allowed_def claim seen_post_def [of _ "Inl _"] simp del: wp.simps intro!: found split: sum.split)
qed

lemma wp_threadOwnerOf:
  assumes "has_putIfAbsent J"
  shows "thread_wp t (threadOwnerOf J te t) g seen_post"
proof -
  have "thread_wp t (bindp (propp ''resourceId'' rec) (\<lambda>ow. if js_truthy ow then Ret (owned_thread ow) else upgrade_owner te t rec)) h seen_post"
    if "names_party rec" "learnt h = Some rec" for rec h
    using that
    by (auto simp: wp_bindp wp_propp names_party_def upgrade_owner_def seen_post_def seen_owner_def owned_thread_def ownerless_thread_def open_thread_def)
  then show ?thesis
    unfolding threadOwnerOf_def wp_bindp [of _ _ _ "get _"] wp_get_once
    by (auto simp: once_upd_def once_resp_def seen_post_def wp_backfill [OF assms] split: sum.split)
qed

lemma wp_gate:
  assumes "seen_owner g ow" and "\<not> open_thread ow"
  shows "thread_wp t (thread_gate caller ow) g (admit_user_post caller)"
  using assms by (cases caller) (auto simp: admit_user_post_def seen_owner_def thread_mismatch_def)

lemma claimed_gate:
  assumes "has_putIfAbsent J" and "names_party (JObj ((''at'', JNum 0) # flds))"
  shows "thread_wp t (bindp (claim_thread J t flds) (thread_gate caller)) g (admit_user_post caller)"
  unfolding wp_bindp
  by (rule wp_mono [OF wp_claim_thread [OF assms]]) (auto simp: closed_post_def admit_user_post_def intro!: wp_gate split: sum.splits)

lemma wp_claim_open:
  assumes "has_putIfAbsent J" and "valid_caller caller"
  shows "thread_wp t (claim_open J t caller ow) g (admit_user_post caller)"
proof (cases caller)
  case (UserCaller i og)
  then have "names_party (JObj [(''at'', JNum 0), (''resourceId'', JStr i)])"
    using assms(2) by (cases i) (auto simp: names_party_def)
  from claimed_gate [OF assms(1) this] UserCaller show ?thesis by (simp add: claim_open_def)
next
  case (StaffCaller og)
  have "names_party (JObj [(''at'', JNum 0), (''ownerKind'', JStr ''staff'')])" by (simp add: names_party_def)
  from claimed_gate [OF assms(1) this] StaffCaller show ?thesis by (simp add: claim_open_def admit_user_post_def)
qed (simp add: claim_open_def admit_user_post_def)

lemma wp_admitThreadRun:
  assumes "has_putIfAbsent J" and "valid_caller caller"
  shows "thread_wp t (admitThreadRun J te t caller) g (admit_user_post caller)"
  unfolding admitThreadRun_def wp_bindp [of _ _ _ "threadOwnerOf J te t"]
  by (rule wp_mono [OF wp_threadOwnerOf [OF assms(1)]])
     (auto simp: seen_post_def admit_user_post_def [of _ _ "Inl _"] intro!: wp_gate wp_claim_open [OF assms] split: sum.splits)

section \<open>Properties\<close>

text \<open>A run of a caller on the thread, and what became of it.\<close>

definition thread_call :: "caps \<Rightarrow> thread_env \<Rightarrow> string \<Rightarrow> Caller \<Rightarrow> (Caller \<times> ThreadOwnership) prog" where
  "thread_call J te t caller = bindp (admitThreadRun J te t caller) (\<lambda>ow. Ret (caller, ow))"

text \<open>
  C5: A thread belongs to one user. Any number of callers, users, staff and unknown ones, may race to start runs on one thread, with any memory and any
  runs in the journal, in any interleaving with crashes and failing calls: all users that are let in are the same user, and the owner record of
  the thread names that user. Initially the thread has no record, or one that names a user or staff.
\<close>

theorem thread_users_agree:
  assumes "has_putIfAbsent J" and "\<forall>rec. map_of (store (journal w)) (threadOwnerKey t) = Some rec \<longrightarrow> names_party rec"
    and "S = {thread_call J te t caller | te caller. valid_caller caller}" and "reachable S w c"
    and "threads c i = Some (Ret (UserCaller u1 og1, ow1))" and "threads c j = Some (Ret (UserCaller u2 og2, ow2))"
  shows "u1 = u2 \<and> js_field ''resourceId'' (mem_get (threadOwnerKey t) (journal (cworld c))) = JStr u1"
proof -
  let ?Q = "\<lambda>g r. case r of Inr (caller, ow :: ThreadOwnership) \<Rightarrow> admit_user_post caller g (Inr ow) | Inl e \<Rightarrow> True"
  have wps: "thread_wp t p once_g0 ?Q" if "p \<in> S" for p
  proof -
    from that assms(3) obtain te caller where p: "p = thread_call J te t caller" "valid_caller caller" by blast
    show ?thesis
      unfolding p(1) thread_call_def wp_bindp by (rule wp_mono [OF wp_admitThreadRun [OF assms(1) p(2)]]) (auto split: sum.splits)
  qed
  have "once_inv names_party (threadOwnerKey t) w (\<lambda>_. once_g0)"
    using assms(2) by (auto simp: once_inv_def once_g0_def names_party_def)
  then obtain gs where inv: "once_inv names_party (threadOwnerKey t) (cworld c) gs"
    and post: "\<And>i p. threads c i = Some p \<Longrightarrow> thread_wp t p (gs i) ?Q"
    using once.reachable_inv [OF assms(4) _ wps] by blast
  have "\<exists>rec. learnt (gs i) = Some rec \<and> js_field ''resourceId'' rec = JStr u1" "\<exists>rec. learnt (gs j) = Some rec \<and> js_field ''resourceId'' rec = JStr u2"
    using post [OF assms(5)] post [OF assms(6)] by (auto simp: admit_user_post_def)
  then have "\<exists>rec. map_of (store (journal (cworld c))) (threadOwnerKey t) = Some rec \<and> js_field ''resourceId'' rec = JStr u1"
    "\<exists>rec. map_of (store (journal (cworld c))) (threadOwnerKey t) = Some rec \<and> js_field ''resourceId'' rec = JStr u2"
    using inv unfolding once_inv_def by blast+
  then show ?thesis by (auto simp: mem_get_def)
qed

definition plain_thread :: thread_env where
  "plain_thread = \<lparr>te_memory = None, te_listRuns = False, te_fuel = 0\<rparr>"

lemma ann_admitted:
  "fst (run (\<lambda>_ _ _. Inr JUndef) (thread_call full_caps plain_thread ''t1'' (UserCaller ''ann'' None)) new_world)
     = Inr (UserCaller ''ann'' None, owned_thread (JStr ''ann''))"
  by code_simp

theorem thread_users_agree_witness:
  "\<exists>c. reachable {thread_call full_caps te ''t1'' caller | te caller. valid_caller caller} new_world c
     \<and> threads c 0 = Some (Ret (UserCaller ''ann'' None, owned_thread (JStr ''ann'')))
     \<and> js_field ''resourceId'' (mem_get (threadOwnerKey ''t1'') (journal (cworld c))) = JStr ''ann''"
proof -
  let ?S = "{thread_call full_caps te ''t1'' caller | te caller. valid_caller caller}"
  let ?p = "thread_call full_caps plain_thread ''t1'' (UserCaller ''ann'' None)"
  obtain w' where w': "run (\<lambda>_ _ _. Inr JUndef) ?p new_world = (Inr (UserCaller ''ann'' None, owned_thread (JStr ''ann'')), w')"
    using ann_admitted by (metis prod.collapse)
  have "?p \<in> ?S" by fastforce
  from run_solo [OF this w'] have r: "reachable ?S new_world (solo w' (Ret (UserCaller ''ann'' None, owned_thread (JStr ''ann''))))"
    by (simp add: finished_def)
  have "js_field ''resourceId'' (mem_get (threadOwnerKey ''t1'') (journal w')) = JStr ''ann''"
    using thread_users_agree [OF _ _ refl r, of 0 _ _ _ 0] by (simp add: solo_def new_world_def empty_journal_def full_caps_def)
  with r show ?thesis by (auto simp: solo_def)
qed

text \<open>
  The condition on the record is needed: a record an unknown caller left behind is never replaced by the claim of the first named user, so every
  user is let in. Here two users come one after the other.
\<close>

definition anonymous_world :: world where
  "anonymous_world = new_world\<lparr>journal := mem_put 0 (threadOwnerKey ''t1'') (JObj [(''at'', JNum 0), (''ownerKind'', JStr ''unknown'')]) empty_journal\<rparr>"

lemma anonymous_record_admits_everyone:
  "fst (run (\<lambda>_ _ _. Inr JUndef) (admitThreadRun full_caps plain_thread ''t1'' (UserCaller ''ann'' None)) anonymous_world) = Inr (ownerless_thread False)"
  "fst (run (\<lambda>_ _ _. Inr JUndef) (admitThreadRun full_caps plain_thread ''t1'' (UserCaller ''bob'' None))
     (snd (run (\<lambda>_ _ _. Inr JUndef) (admitThreadRun full_caps plain_thread ''t1'' (UserCaller ''ann'' None)) anonymous_world))) = Inr (ownerless_thread False)"
  by code_simp+

end
