(* ===== verification/SubjectView.thy ===== *)
theory SubjectView
  imports ThreadOwner
begin

text \<open>
  The view of an end user on a journal and a memory (\<open>packages/durable/src/subject-view.ts\<close>). A view is built per request and remembers the
  owner of every run it has asked for; that map is passed in and out of each method. The methods the proxy does not override are those of the
  journal below. The memory is outside code, as in \<open>ThreadOwner\<close>.
\<close>

section \<open>Definitions\<close>

record subject_view =
  sv_subject :: string
  sv_root :: bool

definition ORG_PREFIX :: string where "ORG_PREFIX = ''org:''"
definition WF_REGISTRY :: string where "WF_REGISTRY = ''wfrun:''"

definition foreignKey :: "subject_view \<Rightarrow> key \<Rightarrow> bool" where
  "foreignKey v k \<longleftrightarrow> sv_root v \<and> prefix ORG_PREFIX k"

datatype owner_lookup = LookupFailed | NoInput | InputOwner "string option"

definition input_owner :: "js \<Rightarrow> owner_lookup" where
  "input_owner rec = (if rec = JUndef then NoInput else InputOwner (case recordOwner rec of None \<Rightarrow> None | Some c \<Rightarrow> userIdOf c))"

definition inputOf :: "string \<Rightarrow> owner_lookup js_map \<Rightarrow> (owner_lookup \<times> owner_lookup js_map) prog" where
  "inputOf runId owners =
     (case map_of owners runId of
        Some p \<Rightarrow> Ret (p, owners)
      | None \<Rightarrow> bindp (catchp (bindp (get (key_input runId)) (\<lambda>rec. Ret (input_owner rec))) (\<lambda>_. Ret LookupFailed)) (\<lambda>p. Ret (p, js_set runId p owners)))"

definition mine :: "subject_view \<Rightarrow> string \<Rightarrow> owner_lookup js_map \<Rightarrow> (bool \<times> owner_lookup js_map) prog" where
  "mine v runId owners =
     (if foreignKey v runId then Ret (False, owners)
      else bindp (inputOf runId owners) (\<lambda>(p, owners). Ret (p = InputOwner (Some (sv_subject v)), owners)))"

text \<open>\<open>for (let i = base.indexOf(':'); i > 0; i = base.indexOf(':', i + 1))\<close>: the prefixes of \<open>base\<close> before a colon.\<close>

definition colons :: "string \<Rightarrow> nat list" where
  "colons base = filter (\<lambda>i. base ! i = CHR '':'') [0..<length base]"

definition candidate_runs :: "string \<Rightarrow> string list" where
  "candidate_runs base = map (\<lambda>i. take i base) (takeWhile (\<lambda>i. 0 < i) (colons base))"

definition key_base :: "key \<Rightarrow> string" where
  "key_base k = (if prefix WF_REGISTRY k then drop (length WF_REGISTRY) k @ '':'' else k)"

text \<open>A listing in hand: its prefix and the runs whose input key it holds.\<close>

type_synonym listing = "string \<times> string list"

definition not_listed :: "listing option \<Rightarrow> string \<Rightarrow> bool" where
  "not_listed listed runId = (case listed of None \<Rightarrow> False | Some (pre, inputs) \<Rightarrow> prefix pre (key_input runId) \<and> runId \<notin> set inputs)"

primrec mine_loop :: "subject_view \<Rightarrow> listing option \<Rightarrow> string list \<Rightarrow> bool \<Rightarrow> owner_lookup js_map \<Rightarrow> (bool \<times> owner_lookup js_map) prog" where
  "mine_loop v listed [] claimed owners = Ret (claimed, owners)"
| "mine_loop v listed (r # rs) claimed owners =
     (if not_listed listed r then mine_loop v listed rs claimed owners
      else bindp (inputOf r owners) (\<lambda>(p, owners).
        case p of
          LookupFailed \<Rightarrow> Ret (False, owners)
        | NoInput \<Rightarrow> mine_loop v listed rs claimed owners
        | InputOwner ow \<Rightarrow> if ow \<noteq> Some (sv_subject v) then Ret (False, owners) else mine_loop v listed rs True owners))"

definition keyIsMine :: "subject_view \<Rightarrow> listing option \<Rightarrow> key \<Rightarrow> owner_lookup js_map \<Rightarrow> (bool \<times> owner_lookup js_map) prog" where
  "keyIsMine v listed k owners =
     (if foreignKey v k then Ret (False, owners) else mine_loop v listed (candidate_runs (key_base k)) False owners)"

definition visible_run :: "subject_view \<Rightarrow> RunSummary \<Rightarrow> bool" where
  "visible_run v r \<longleftrightarrow> sum_resourceId r = JStr (sv_subject v) \<and> \<not> foreignKey v (sum_runId r)"

subsection \<open>The methods of the view\<close>

definition withSubjectJournal :: "string \<Rightarrow> bool \<Rightarrow> err + subject_view" where
  "withSubjectJournal subject root = (if subject = [] then Inl (Err ''Error'' ''non-empty subject'') else Inr \<lparr>sv_subject = subject, sv_root = root\<rparr>)"

definition subject_get :: "subject_view \<Rightarrow> key \<Rightarrow> owner_lookup js_map \<Rightarrow> (js \<times> owner_lookup js_map) prog" where
  "subject_get v k owners =
     bindp (keyIsMine v None k owners) (\<lambda>(ok, owners). if ok then bindp (get k) (\<lambda>x. Ret (x, owners)) else Ret (JUndef, owners))"

definition listing_inputs :: "key list \<Rightarrow> string list" where
  "listing_inputs ks = map (\<lambda>k. take (length k - 6) k) (filter (suffix '':input'') ks)"

primrec filter_mine :: "subject_view \<Rightarrow> listing option \<Rightarrow> key list \<Rightarrow> key list \<Rightarrow> owner_lookup js_map \<Rightarrow> (key list \<times> owner_lookup js_map) prog" where
  "filter_mine v listed [] out owners = Ret (out, owners)"
| "filter_mine v listed (k # ks) out owners =
     bindp (keyIsMine v listed k owners) (\<lambda>(ok, owners). filter_mine v listed ks (if ok then out @ [k] else out) owners)"

definition subject_listKeys :: "subject_view \<Rightarrow> string \<Rightarrow> owner_lookup js_map \<Rightarrow> (key list \<times> owner_lookup js_map) prog" where
  "subject_listKeys v pre owners =
     bindp (listKeys pre) (\<lambda>keys. filter_mine v (Some (pre, listing_inputs keys)) keys [] owners)"

definition subject_readRun :: "subject_view \<Rightarrow> string \<Rightarrow> owner_lookup js_map \<Rightarrow> (js \<times> owner_lookup js_map) prog" where
  "subject_readRun v runId owners =
     bindp (mine v runId owners) (\<lambda>(ok, owners). if ok then bindp (callp (JReadRun runId)) (\<lambda>es. Ret (es, owners)) else Ret (JArr [], owners))"

definition subject_readRunStats :: "subject_view \<Rightarrow> string \<Rightarrow> owner_lookup js_map \<Rightarrow> (js \<times> owner_lookup js_map) prog" where
  "subject_readRunStats v runId owners =
     bindp (mine v runId owners) (\<lambda>(ok, owners).
       if ok then bindp (callp (JReadRunStats runId)) (\<lambda>s. Ret (s, owners))
       else Ret (JObj [(''entries'', JNum 0), (''bytes'', JNum 0)], owners))"

definition subject_listRuns :: "subject_view \<Rightarrow> InMemoryJournal \<Rightarrow> RunSummary list" where
  "subject_listRuns v j = filter (visible_run v) (mem_listRuns j)"

definition subject_listRunsPaged :: "subject_view \<Rightarrow> RunListQuery \<Rightarrow> InMemoryJournal \<Rightarrow> RunPage" where
  "subject_listRunsPaged v q j =
     (let page = mem_listRunsPaged (q\<lparr>q_resourceId := sv_subject v\<rparr>) j in page\<lparr>page_items := filter (visible_run v) (page_items page)\<rparr>)"

text \<open>A method the view does not override: the proxy forwards it.\<close>

definition subject_getMany :: "subject_view \<Rightarrow> key list \<Rightarrow> InMemoryJournal \<Rightarrow> js list" where
  "subject_getMany v ks j = mem_getMany ks j"

subsection \<open>The memory of an end user\<close>

definition thread_mine :: "caps \<Rightarrow> thread_env \<Rightarrow> subject_view \<Rightarrow> string \<Rightarrow> bool prog" where
  "thread_mine J te v threadId =
     (if foreignKey v threadId then Ret False
      else catchp (bindp (threadOwnerOf J te threadId) (\<lambda>ow. Ret (th_owner ow = JStr (sv_subject v)))) (\<lambda>_. Ret False))"

primrec own_threads :: "caps \<Rightarrow> thread_env \<Rightarrow> subject_view \<Rightarrow> js list \<Rightarrow> (js list) prog" where
  "own_threads J te v [] = Ret []"
| "own_threads J te v (r # rs) =
     bindp (thread_mine J te v (js_string (js_field ''id'' r))) (\<lambda>ok. bindp (own_threads J te v rs) (\<lambda>out. Ret (if ok then r # out else out)))"

definition subject_listThreads :: "caps \<Rightarrow> thread_env \<Rightarrow> bool \<Rightarrow> subject_view \<Rightarrow> (js list) prog" where
  "subject_listThreads J te hasListThreads v =
     bindp (if hasListThreads then ext ''listThreads'' (JObj [(''resourceId'', JStr (sv_subject v))]) else Ret (JArr [])) (\<lambda>rows. own_threads J te v (js_elems rows))"

definition subject_getMessages :: "caps \<Rightarrow> thread_env \<Rightarrow> subject_view \<Rightarrow> string \<Rightarrow> js \<Rightarrow> js prog" where
  "subject_getMessages J te v threadId opts =
     bindp (thread_mine J te v threadId) (\<lambda>ok.
       if ok then ext ''getMessages'' (JObj [(''threadId'', JStr threadId),
         (''opts'', if js_field ''resourceId'' opts \<noteq> JUndef then JObj (js_set ''resourceId'' (JStr (sv_subject v)) (js_props opts)) else opts)])
       else Ret (JArr []))"

definition subject_getWorkingMemory :: "caps \<Rightarrow> thread_env \<Rightarrow> subject_view \<Rightarrow> string \<Rightarrow> js prog" where
  "subject_getWorkingMemory J te v threadId =
     bindp (thread_mine J te v threadId) (\<lambda>ok. if ok then ext ''getWorkingMemory'' (JStr threadId) else Ret JUndef)"

section \<open>What the view shows\<close>

text \<open>
  The rule: every run the key could belong to is the subject's, and there is one. A run could own a key when the key begins with its identifier and a
  colon; it exists when it has an input record.
\<close>

definition run_exists :: "InMemoryJournal \<Rightarrow> string \<Rightarrow> bool" where
  "run_exists j r \<longleftrightarrow> mem_get (key_input r) j \<noteq> JUndef"

definition run_of :: "InMemoryJournal \<Rightarrow> string \<Rightarrow> string \<Rightarrow> bool" where
  "run_of j r base \<longleftrightarrow> r \<noteq> [] \<and> prefix (r @ '':'') base \<and> run_exists j r"

definition owned_by :: "InMemoryJournal \<Rightarrow> string \<Rightarrow> string \<Rightarrow> bool" where
  "owned_by j u r \<longleftrightarrow> (\<exists>c. recordOwner (mem_get (key_input r) j) = Some c \<and> userIdOf c = Some u)"

definition shown_key :: "subject_view \<Rightarrow> InMemoryJournal \<Rightarrow> key \<Rightarrow> bool" where
  "shown_key v j k \<longleftrightarrow> \<not> foreignKey v k \<and> \<not> prefix '':'' (key_base k)
     \<and> (\<exists>r. run_of j r (key_base k)) \<and> (\<forall>r. run_of j r (key_base k) \<longrightarrow> owned_by j (sv_subject v) r)"

lemma colon_at: "r \<noteq> [] \<Longrightarrow> prefix (r @ '':'') base \<longleftrightarrow> length r < length base \<and> base ! length r = CHR '':'' \<and> r = take (length r) base"
  by (auto simp: prefix_def nth_append) (metis append_take_drop_id id_take_nth_drop append_Cons append_Nil)

lemma set_candidate_runs: "set (candidate_runs base) = {r. r \<noteq> [] \<and> prefix (r @ '':'') base \<and> \<not> prefix '':'' base}"
proof (cases "prefix '':'' base")
  case True
  then obtain s where "base = CHR '':'' # s" by (auto simp: prefix_def)
  then have "colons base = 0 # filter (\<lambda>i. base ! i = CHR '':'') [1..<length base]"
    by (simp add: colons_def upt_conv_Cons del: upt_Suc)
  then show ?thesis using True by (simp add: candidate_runs_def)
next
  case False
  have pos: "0 < i" if "i \<in> set (colons base)" for i
  proof (rule gr0I)
    assume "i = 0"
    with that have "base \<noteq> []" "hd base = CHR '':''" by (auto simp: colons_def hd_conv_nth)
    with False show False by (cases base) auto
  qed
  then have all: "takeWhile (\<lambda>i. 0 < i) (colons base) = colons base" by (simp add: takeWhile_eq_all_conv)
  have "set (candidate_runs base) = (\<lambda>i. take i base) ` set (colons base)" unfolding candidate_runs_def all by simp
  also have "\<dots> = {r. r \<noteq> [] \<and> prefix (r @ '':'') base}"
  proof (intro set_eqI iffI)
    fix r assume "r \<in> (\<lambda>i. take i base) ` set (colons base)"
    then obtain i where "r = take i base" "i < length base" "base ! i = CHR '':''" "0 < i" using pos by (auto simp: colons_def)
    then show "r \<in> {r. r \<noteq> [] \<and> prefix (r @ '':'') base}" using colon_at [of r base] by (cases base) auto
  next
    fix r assume "r \<in> {r. r \<noteq> [] \<and> prefix (r @ '':'') base}"
    then show "r \<in> (\<lambda>i. take i base) ` set (colons base)" by (auto simp: colon_at colons_def)
  qed
  finally show ?thesis using False by simp
qed

text \<open>A map of owners that agrees with the journal.\<close>

definition coherent :: "InMemoryJournal \<Rightarrow> owner_lookup js_map \<Rightarrow> bool" where
  "coherent j owners \<longleftrightarrow> (\<forall>r p. map_of owners r = Some p \<longrightarrow> p = input_owner (mem_get (key_input r) j))"

lemma run_inputOf:
  "coherent (journal w) owners \<Longrightarrow>
   \<exists>owners'. run env (inputOf r owners) w = (Inr (input_owner (mem_get (key_input r) (journal w)), owners'), w) \<and> coherent (journal w) owners'"
  by (auto simp: inputOf_def coherent_def prog_simps split: option.split)

lemma input_owner_cases:
  "input_owner (mem_get (key_input r) j) = (if run_exists j r then InputOwner (case recordOwner (mem_get (key_input r) j) of None \<Rightarrow> None | Some c \<Rightarrow> userIdOf c) else NoInput)"
  "input_owner (mem_get (key_input r) j) = InputOwner (Some u) \<longleftrightarrow> run_exists j r \<and> owned_by j u r"
  by (auto simp: input_owner_def run_exists_def owned_by_def split: option.splits)

lemma run_mine_loop:
  assumes "coherent (journal w) owners" and "\<And>r. not_listed listed r \<Longrightarrow> \<not> run_exists (journal w) r"
  shows "\<exists>owners'. run env (mine_loop v listed rs claimed owners) w
      = (Inr ((claimed \<or> (\<exists>r \<in> set rs. run_exists (journal w) r)) \<and> (\<forall>r \<in> set rs. run_exists (journal w) r \<longrightarrow> owned_by (journal w) (sv_subject v) r), owners'), w)
    \<and> coherent (journal w) owners'"
  using assms(1)
proof (induction rs arbitrary: claimed owners)
  case (Cons r rs)
  show ?case
  proof (cases "not_listed listed r")
    case True
    then show ?thesis using Cons assms(2) by auto
  next
    case False
    obtain owners1 where i: "run env (inputOf r owners) w = (Inr (input_owner (mem_get (key_input r) (journal w)), owners1), w)" "coherent (journal w) owners1"
      using run_inputOf [OF Cons.prems, of env r] by blast
    consider "\<not> run_exists (journal w) r" | "run_exists (journal w) r" "owned_by (journal w) (sv_subject v) r"
      | "run_exists (journal w) r" "\<not> owned_by (journal w) (sv_subject v) r" by blast
    then show ?thesis
    proof cases
      case 1
      then have "input_owner (mem_get (key_input r) (journal w)) = NoInput" by (simp add: input_owner_cases(1))
      with 1 False i Cons.IH [OF i(2)] show ?thesis by (simp add: prog_simps)
    next
      case 2
      then have "input_owner (mem_get (key_input r) (journal w)) = InputOwner (Some (sv_subject v))" by (simp add: input_owner_cases(2))
      with 2 False i Cons.IH [OF i(2), of True] show ?thesis by (simp add: prog_simps)
    next
      case 3
      then obtain x where "input_owner (mem_get (key_input r) (journal w)) = InputOwner x" "x \<noteq> Some (sv_subject v)"
        using input_owner_cases [of r "journal w"] by metis
      with 3 False i show ?thesis by (auto simp: prog_simps)
    qed
  qed
qed simp

lemma run_keyIsMine:
  assumes "coherent (journal w) owners" and "\<And>r. not_listed listed r \<Longrightarrow> \<not> run_exists (journal w) r"
  shows "\<exists>owners'. run env (keyIsMine v listed k owners) w = (Inr (shown_key v (journal w) k, owners'), w) \<and> coherent (journal w) owners'"
proof (cases "foreignKey v k")
  case True
  then show ?thesis using assms(1) by (auto simp: keyIsMine_def shown_key_def)
next
  case False
  have "((\<exists>r \<in> set (candidate_runs (key_base k)). run_exists (journal w) r)
      \<and> (\<forall>r \<in> set (candidate_runs (key_base k)). run_exists (journal w) r \<longrightarrow> owned_by (journal w) (sv_subject v) r)) = shown_key v (journal w) k"
    using False by (auto simp: set_candidate_runs shown_key_def run_of_def)
  with run_mine_loop [OF assms, where env = env and v = v and rs = "candidate_runs (key_base k)" and claimed = False] False show ?thesis by (auto simp: keyIsMine_def)
qed

lemma run_filter_mine:
  assumes "coherent (journal w) owners" and "\<And>r. not_listed listed r \<Longrightarrow> \<not> run_exists (journal w) r"
  shows "\<exists>owners'. run env (filter_mine v listed ks out owners) w = (Inr (out @ filter (shown_key v (journal w)) ks, owners'), w) \<and> coherent (journal w) owners'"
  using assms(1)
proof (induction ks arbitrary: out owners)
  case (Cons k ks)
  obtain owners1 where h: "run env (keyIsMine v listed k owners) w = (Inr (shown_key v (journal w) k, owners1), w)" "coherent (journal w) owners1"
    using run_keyIsMine [OF Cons.prems assms(2)] by blast
  obtain owners2 where
    "run env (filter_mine v listed ks (if shown_key v (journal w) k then out @ [k] else out) owners1) w
       = (Inr ((if shown_key v (journal w) k then out @ [k] else out) @ filter (shown_key v (journal w)) ks, owners2), w)" "coherent (journal w) owners2"
    using Cons.IH [OF h(2)] by blast
  with h show ?case by (intro exI [of _ owners2]) (simp add: prog_simps)
qed simp

text \<open>The shortcut of a listing: a run whose input key would be in it and is not does not exist.\<close>

lemma listing_complete:
  assumes "not_listed (Some (pre, listing_inputs (mem_listKeys pre None j))) r"
  shows "\<not> run_exists j r"
proof
  assume ex: "run_exists j r"
  then have "map_of (store j) (key_input r) \<noteq> None" by (auto simp: run_exists_def mem_get_def split: option.splits)
  moreover have pre: "prefix pre (key_input r)" and out: "r \<notin> set (listing_inputs (mem_listKeys pre None j))"
    using assms by (auto simp: not_listed_def)
  ultimately have "key_input r \<in> set (mem_listKeys pre None j)" by (auto simp: mem_listKeys_def set_mem_keys domIff)
  moreover have "suffix '':input'' (key_input r)" "take (length (key_input r) - 6) (key_input r) = r" by (auto simp: key_input_def suffix_def)
  ultimately have "r \<in> set (listing_inputs (mem_listKeys pre None j))" unfolding listing_inputs_def by force
  with out show False ..
qed

section \<open>Properties\<close>

text \<open>
  C17: What an end user's view of a journal answers. A key is read, and listed, exactly when every run it could belong to is the user's and there is at
  least one; otherwise the read answers \<open>undefined\<close>. So a run that is started under a prefix of somebody else's identifier never makes a key
  of theirs visible. The shortcut of the listing, which skips runs whose input key is not in the listing, gives the same answer as asking for
  every run; a run's records are read exactly when the run is the user's.
\<close>

theorem subject_view_shows_own:
  "(\<exists>owners. run env (subject_get v k []) w = (Inr (if shown_key v (journal w) k then mem_get k (journal w) else JUndef, owners), w))
   \<and> (\<exists>owners. run env (subject_listKeys v pre []) w = (Inr (filter (shown_key v (journal w)) (mem_listKeys pre None (journal w)), owners), w))
   \<and> (\<exists>owners. run env (subject_readRun v r []) w
        = (Inr (if \<not> foreignKey v r \<and> run_exists (journal w) r \<and> owned_by (journal w) (sv_subject v) r
                then JArr (map js_entry (mem_readRun r (journal w))) else JArr [], owners), w))"
proof (intro conjI)
  have new: "coherent (journal w) []" by (simp add: coherent_def)
  show "\<exists>owners. run env (subject_get v k []) w = (Inr (if shown_key v (journal w) k then mem_get k (journal w) else JUndef, owners), w)"
    using run_keyIsMine [OF new, where listed = None and env = env and v = v and k = k] by (auto simp: subject_get_def prog_simps not_listed_def)
  show "\<exists>owners. run env (subject_listKeys v pre []) w = (Inr (filter (shown_key v (journal w)) (mem_listKeys pre None (journal w)), owners), w)"
  proof -
    have "\<exists>owners. run env (filter_mine v (Some (pre, listing_inputs (mem_listKeys pre None (journal w)))) (mem_listKeys pre None (journal w)) [] []) w
        = (Inr ([] @ filter (shown_key v (journal w)) (mem_listKeys pre None (journal w)), owners), w) \<and> coherent (journal w) owners"
      by (rule run_filter_mine [OF new]) (rule listing_complete)
    then show ?thesis by (auto simp: subject_listKeys_def prog_simps)
  qed
  show "\<exists>owners. run env (subject_readRun v r []) w
        = (Inr (if \<not> foreignKey v r \<and> run_exists (journal w) r \<and> owned_by (journal w) (sv_subject v) r
                then JArr (map js_entry (mem_readRun r (journal w))) else JArr [], owners), w)"
    using run_inputOf [OF new, of env r] by (auto simp: subject_readRun_def mine_def prog_simps input_owner_cases(2))
qed

text \<open>The batch read is forwarded to the journal below and not filtered: it answers the records of other users.\<close>

definition two_users :: InMemoryJournal where
  "two_users = mem_put 0 ''r2:outcome'' (JStr ''secret'') (mem_put 0 (key_input ''r2'') (owner_record 0 [] (UserCaller ''bob'' None)) empty_journal)"

lemma batch_read_unfiltered:
  "subject_getMany \<lparr>sv_subject = ''ann'', sv_root = True\<rparr> [''r2:outcome''] two_users = [JStr ''secret'']"
  "fst (run (\<lambda>_ _ _. Inr JUndef) (subject_get \<lparr>sv_subject = ''ann'', sv_root = True\<rparr> ''r2:outcome'' []) (new_world\<lparr>journal := two_users\<rparr>))
     = Inr (JUndef, [(''r2'', InputOwner (Some ''bob''))])"
  by code_simp+

end
