(* ===== verification/TimeTravel.thy ===== *)
theory TimeTravel
  imports Compensation RunIdGate
begin

text \<open>
  The time-travel debugger (\<open>packages/durable/src/time-travel.ts\<close>): the state of a run after a number of entries, and forks. As in \<open>Compensation\<close>,
  \<open>JSON.parse\<close> on tool-call inputs is a parameter, and the \<open>content\<close> and \<open>parts\<close> of a model step are arrays, as the engine writes them.
\<close>

section \<open>Definitions\<close>

text \<open>\<open>s.lastIndexOf(pat)\<close>\<close>

definition last_index :: "string \<Rightarrow> string \<Rightarrow> nat option" where
  "last_index pat s = (case filter (\<lambda>i. prefix pat (drop i s)) [0..<Suc (length s)] of [] \<Rightarrow> None | is \<Rightarrow> Some (last is))"

definition toolIdFromKey :: "key \<Rightarrow> string" where
  "toolIdFromKey k = (case last_index '':tool:'' k of Some i \<Rightarrow> drop (i + 6) k | None \<Rightarrow> k)"

definition parseModelInput :: "(string \<Rightarrow> js option) \<Rightarrow> js \<Rightarrow> js" where
  "parseModelInput json_parse input = (case input of JStr s \<Rightarrow> (case json_parse s of Some v \<Rightarrow> v | None \<Rightarrow> input) | _ \<Rightarrow> input)"

text \<open>
  The settled content of a streamed step: the parts pushed so far and, for every open text or reasoning block, its identifier and position. A delta
  is appended to the text of the block that was started last under its identifier.
\<close>

definition settle_part :: "js list \<times> (js \<times> nat) list \<Rightarrow> js \<Rightarrow> js list \<times> (js \<times> nat) list" where
  "settle_part st p =
     (case st of (out, buffers) \<Rightarrow>
        let ty = js_field ''type'' p in
        if ty = JStr ''text-start'' \<or> ty = JStr ''reasoning-start'' then
          (out @ [JObj [(''type'', if ty = JStr ''text-start'' then JStr ''text'' else JStr ''reasoning''), (''text'', JStr [])]],
           AList.update (js_field ''id'' p) (length out) buffers)
        else if ty = JStr ''text-delta'' \<or> ty = JStr ''reasoning-delta'' then
          (case map_of buffers (js_field ''id'' p) of
             None \<Rightarrow> (out, buffers)
           | Some i \<Rightarrow> (out[i := JObj (js_set ''text'' (JStr (js_string (js_field ''text'' (out ! i)) @ js_string (js_field ''delta'' p))) (js_props (out ! i)))], buffers))
        else if ty = JStr ''tool-call'' then
          (out @ [JObj [(''type'', JStr ''tool-call''), (''toolCallId'', js_field ''toolCallId'' p), (''toolName'', js_field ''toolName'' p), (''input'', js_field ''input'' p)]],
           buffers)
        else (out, buffers))"

definition settleModelContent :: "js \<Rightarrow> js list" where
  "settleModelContent value =
     (case js_field ''content'' value of
        JArr ps \<Rightarrow> ps
      | _ \<Rightarrow> (case js_field ''parts'' value of JArr ps \<Rightarrow> fst (foldl settle_part ([], []) ps) | _ \<Rightarrow> []))"

subsection \<open>The state after a number of entries\<close>

record ReconstructedState =
  rs_step :: nat
  rs_messages :: "js list"
  rs_pending :: "(js \<times> js) list"

definition is_tool_call :: "js \<Rightarrow> bool" where
  "is_tool_call p \<longleftrightarrow> js_field ''type'' p = JStr ''tool-call''"

definition seed_messages :: "js option \<Rightarrow> js list" where
  "seed_messages seed =
     (case seed of
        None \<Rightarrow> []
      | Some s \<Rightarrow> (case js_field ''messages'' s of
          JArr ms \<Rightarrow> ms
        | _ \<Rightarrow> (case js_field ''prompt'' s of JStr t \<Rightarrow> [JObj [(''role'', JStr ''user''), (''content'', JStr t)]] | _ \<Rightarrow> [])))"

text \<open>Pass 1: the tool calls of the model entries, with their recomputed dedupe key.\<close>

definition window_calls :: "JournalEntry list \<Rightarrow> js list" where
  "window_calls es = concat (map (\<lambda>e. filter is_tool_call (settleModelContent (entry_value e))) (filter (\<lambda>e. entry_kind e = Model) es))"

definition call_id :: "js \<Rightarrow> js \<times> js" where
  "call_id p = (js_field ''toolCallId'' p, js_field ''toolName'' p)"

fun args_keys :: "(string \<Rightarrow> string) \<Rightarrow> (string \<Rightarrow> js option) \<Rightarrow> js list \<Rightarrow> err + (js \<times> string) list" where
  "args_keys sha json_parse [] = Inr []"
| "args_keys sha json_parse (p # ps) =
     (case argsHash sha (parseModelInput json_parse (js_field ''input'' p)) of
        Inl e \<Rightarrow> Inl e
      | Inr h \<Rightarrow> (case args_keys sha json_parse ps of
          Inl e \<Rightarrow> Inl e
        | Inr m \<Rightarrow> Inr ((if js_field ''toolCallId'' p \<in> fst ` set m then [] else [(js_field ''toolCallId'' p, ''args-'' @ js_string (js_field ''toolName'' p) @ ''-'' @ h)]) @ m)))"

text \<open>Pass 2: the calls a tool entry answers, given the calls that are claimed.\<close>

definition entry_matches :: "(js \<times> js) list \<Rightarrow> (js \<times> string) list \<Rightarrow> js list \<Rightarrow> JournalEntry \<Rightarrow> (js \<times> js) list" where
  "entry_matches toolCalls argsKeys claimed e =
     (let dedupeId = toolIdFromKey (entry_key e);
          candidates = (case js_field ''resolvedToolCallIds'' (entry_value e) of
            JArr ids \<Rightarrow> filter (\<lambda>x. fst x \<in> set ids) toolCalls
          | _ \<Rightarrow> filter (\<lambda>x. fst x = JStr dedupeId \<or> map_of argsKeys (fst x) = Some dedupeId) toolCalls)
      in filter (\<lambda>x. fst x \<notin> set claimed) candidates)"

definition entry_resolves :: "JournalEntry \<Rightarrow> bool" where
  "entry_resolves e \<longleftrightarrow> js_field ''status'' (entry_value e) \<noteq> JStr ''suspended'' \<and> js_field ''status'' (entry_value e) \<noteq> JStr ''running''"

fun match_entries :: "(js \<times> js) list \<Rightarrow> (js \<times> string) list \<Rightarrow> js list \<Rightarrow> JournalEntry list \<Rightarrow> (js \<times> js) list list \<times> js list" where
  "match_entries toolCalls argsKeys claimed [] = ([], claimed)"
| "match_entries toolCalls argsKeys claimed (e # es) =
     (if entry_kind e \<noteq> Tool then (case match_entries toolCalls argsKeys claimed es of (ms, c) \<Rightarrow> ([] # ms, c))
      else let m = entry_matches toolCalls argsKeys claimed e;
               claimed1 = (if entry_resolves e then claimed @ map fst m else claimed)
           in case match_entries toolCalls argsKeys claimed1 es of (ms, c) \<Rightarrow> (m # ms, c))"

text \<open>Pass 3: the messages of an entry.\<close>

definition tool_result :: "js \<Rightarrow> js \<Rightarrow> js" where
  "tool_result callId rec =
     JObj [(''role'', JStr ''tool''), (''content'', JArr [JObj [(''type'', JStr ''tool-result''), (''toolCallId'', callId),
       (''output'', let ov = js_field ''output'' rec in if ov = JUndef \<or> ov = JNull then rec else ov)]])]"

definition assistant_part :: "js \<Rightarrow> js list" where
  "assistant_part p =
     (if js_field ''type'' p = JStr ''text'' then
        [JObj [(''type'', JStr ''text''), (''text'', let t = js_field ''text'' p in if t = JUndef \<or> t = JNull then JStr [] else t)]]
      else if is_tool_call p then
        [JObj [(''type'', JStr ''tool-call''), (''toolCallId'', js_field ''toolCallId'' p), (''toolName'', js_field ''toolName'' p), (''input'', js_field ''input'' p)]]
      else [])"

definition entry_messages :: "JournalEntry \<Rightarrow> (js \<times> js) list \<Rightarrow> js list" where
  "entry_messages e ms =
     (if entry_kind e = Model then
        [JObj [(''role'', JStr ''assistant''), (''content'', JArr (concat (map assistant_part (settleModelContent (entry_value e)))))]]
      else if ms \<noteq> [] then map (\<lambda>m. tool_result (fst m) (entry_value e)) ms
      else [tool_result (JStr (toolIdFromKey (entry_key e))) (entry_value e)])"

definition reconstructState ::
  "(string \<Rightarrow> string) \<Rightarrow> (string \<Rightarrow> js option) \<Rightarrow> JournalEntry list \<Rightarrow> int \<Rightarrow> js option \<Rightarrow> err + ReconstructedState" where
  "reconstructState sha json_parse entries uptoStep seed =
     (let upto = nat (max 0 (min uptoStep (int (length entries)))); window = take upto entries; calls = window_calls window in
      case args_keys sha json_parse calls of
        Inl e \<Rightarrow> Inl e
      | Inr argsKeys \<Rightarrow>
          (case match_entries (map call_id calls) argsKeys [] window of (matches, claimed) \<Rightarrow>
             Inr \<lparr>rs_step = upto, rs_messages = seed_messages seed @ concat (map2 entry_messages window matches),
                  rs_pending = filter (\<lambda>x. fst x \<notin> set claimed) (map call_id calls)\<rparr>))"

subsection \<open>Forks\<close>

record ForkResult =
  fr_newRunId :: string
  fr_copiedModel :: nat
  fr_copiedTool :: nat

definition namespaceTaken :: "caps \<Rightarrow> string \<Rightarrow> bool prog" where
  "namespaceTaken J runId =
     bindp (get (key_input runId)) (\<lambda>v.
       if v \<noteq> JUndef then Ret True
       else if \<not> has_listKeys J then Ret False
       else bindp (listKeys (runId @ '':'')) (\<lambda>ks. Ret (ks \<noteq> [])))"

text \<open>The loop over the fork numbers below 10000, with the numbers that are left.\<close>

primrec free_fork :: "nat \<Rightarrow> caps \<Rightarrow> string \<Rightarrow> int \<Rightarrow> string prog" where
  "free_fork 0 J base n = Raise (Err ''Error'' base)"
| "free_fork (Suc left) J base n =
     bindp (liftp (forkRunId base n)) (\<lambda>cand. bindp (namespaceTaken J cand) (\<lambda>taken. if \<not> taken then Ret cand else free_fork left J base (n + 1)))"

definition pickForkRunId :: "caps \<Rightarrow> string \<Rightarrow> string prog" where
  "pickForkRunId J srcRunId =
     (case derivedRunIdBase srcRunId of
        None \<Rightarrow> bindp date_now (\<lambda>t. Ret (srcRunId @ '':fork:'' @ show_int t))
      | Some base \<Rightarrow> free_fork 9999 J base 1)"

definition entry_is :: "string \<Rightarrow> js \<Rightarrow> bool" where
  "entry_is kind e \<longleftrightarrow> js_field ''kind'' e = JStr kind"

definition model_number :: "key \<Rightarrow> string" where
  "model_number k = (case last_index '':model:'' k of Some i \<Rightarrow> drop (i + 7) k | None \<Rightarrow> drop 6 k)"

definition step_calls :: "js \<Rightarrow> js list" where
  "step_calls m = filter (\<lambda>p. is_tool_call p \<and> js_truthy (js_field ''toolCallId'' p)) (js_elems (js_field ''content'' (js_field ''value'' m)))"

definition entryByKey :: "js list \<Rightarrow> key \<Rightarrow> js option" where
  "entryByKey entries k =
     (case filter (\<lambda>e. entry_is ''tool'' e \<and> js_field ''key'' e = JStr k) entries of [] \<Rightarrow> None | es \<Rightarrow> Some (last es))"

definition copy_candidate :: "js list \<Rightarrow> key list \<Rightarrow> key \<times> key \<Rightarrow> (key list) prog" where
  "copy_candidate entries copied cand =
     (case cand of (srcKey, dstKey) \<Rightarrow>
        if dstKey \<in> set copied then Ret copied
        else case entryByKey entries srcKey of
          None \<Rightarrow> Ret copied
        | Some e \<Rightarrow> seqp (put dstKey (js_field ''value'' e)) (Ret (copied @ [dstKey])))"

definition call_keys :: "(string \<Rightarrow> string) \<Rightarrow> (string \<Rightarrow> js option) \<Rightarrow> string \<Rightarrow> string \<Rightarrow> js \<Rightarrow> err + (key \<times> key) list" where
  "call_keys sha json_parse src dst tc =
     (case argsHash sha (parseModelInput json_parse (js_field ''input'' tc)) of
        Inl e \<Rightarrow> Inl e
      | Inr h \<Rightarrow> (case (key_toolByArgs src (js_string (js_field ''toolName'' tc)) h, key_toolByArgs dst (js_string (js_field ''toolName'' tc)) h) of
          (Inr a, Inr b) \<Rightarrow> Inr [(key_tool src (js_string (js_field ''toolCallId'' tc)), key_tool dst (js_string (js_field ''toolCallId'' tc))), (a, b)]
        | (Inl e, _) \<Rightarrow> Inl e
        | (_, Inl e) \<Rightarrow> Inl e))"

definition copy_call :: "(string \<Rightarrow> string) \<Rightarrow> (string \<Rightarrow> js option) \<Rightarrow> string \<Rightarrow> string \<Rightarrow> js list \<Rightarrow> key list \<Rightarrow> js \<Rightarrow> (key list) prog" where
  "copy_call sha json_parse src dst entries copied tc =
     bindp (liftp (call_keys sha json_parse src dst tc)) (\<lambda>cands. foldp (copy_candidate entries) copied cands)"

definition copy_model :: "string \<Rightarrow> js \<Rightarrow> unit prog" where
  "copy_model dst m = put (key_model dst (model_number (js_string (js_field ''key'' m)))) (js_field ''value'' m)"

definition copy_run :: "(string \<Rightarrow> string) \<Rightarrow> (string \<Rightarrow> js option) \<Rightarrow> string \<Rightarrow> int \<Rightarrow> string \<Rightarrow> js list \<Rightarrow> ForkResult prog" where
  "copy_run sha json_parse src step dst entries =
     (let keep = take (nat step) (filter (entry_is ''model'') entries) in
      seqp (forp keep (copy_model dst))
      (bindp (foldp (copy_call sha json_parse src dst entries) [] (concat (map step_calls keep))) (\<lambda>copied.
       bindp (get (key_input src)) (\<lambda>input.
       seqp (if input \<noteq> JUndef then put (key_input dst) input else Ret ())
         (Ret \<lparr>fr_newRunId = dst, fr_copiedModel = length keep, fr_copiedTool = length copied\<rparr>)))))"

definition forkRun :: "(string \<Rightarrow> string) \<Rightarrow> (string \<Rightarrow> js option) \<Rightarrow> caps \<Rightarrow> string \<Rightarrow> int \<Rightarrow> string option \<Rightarrow> ForkResult prog" where
  "forkRun sha json_parse J src step newRunId =
     seqp (case newRunId of None \<Rightarrow> Ret () | Some i \<Rightarrow> liftp (assertRunIdSafe i))
     (seqp (assertNotCompensated src)
     (bindp (case newRunId of Some i \<Rightarrow> Ret i | None \<Rightarrow> pickForkRunId J src) (\<lambda>dst.
      seqp (inheritRunOwner J False src dst [])
      (bindp (callp (JReadRun src)) (\<lambda>es. copy_run sha json_parse src step dst (js_elems es))))))"

section \<open>What a reconstructed state leaves open\<close>

text \<open>The calls an entry can answer, whichever of them are answered already.\<close>

definition entry_answers :: "(js \<times> js) list \<Rightarrow> (js \<times> string) list \<Rightarrow> JournalEntry \<Rightarrow> (js \<times> js) list" where
  "entry_answers toolCalls argsKeys e = entry_matches toolCalls argsKeys [] e"

lemma entry_matches_answers: "entry_matches toolCalls argsKeys claimed e = filter (\<lambda>x. fst x \<notin> set claimed) (entry_answers toolCalls argsKeys e)"
  by (auto simp: entry_answers_def entry_matches_def Let_def split: js.split)

lemma match_entries_step:
  "snd (match_entries toolCalls argsKeys claimed (e # es))
     = snd (match_entries toolCalls argsKeys
         (if entry_kind e = Tool \<and> entry_resolves e then claimed @ map fst (entry_matches toolCalls argsKeys claimed e) else claimed) es)"
  by (simp add: Let_def split: prod.split)

lemma match_entries_claimed:
  "set (snd (match_entries toolCalls argsKeys claimed es))
     = set claimed \<union> (\<Union>e \<in> {e \<in> set es. entry_kind e = Tool \<and> entry_resolves e}. fst ` set (entry_answers toolCalls argsKeys e))"
proof (induction es arbitrary: claimed)
  case (Cons e es)
  show ?case unfolding match_entries_step Cons.IH by (auto simp: entry_matches_answers)
qed simp

text \<open>
  A call of the window is pending exactly when no settled tool record of the window answers it, wherever in the window the record stands: a record that
  was written before the call was made answers it too.
\<close>

lemma reconstruct_pending:
  assumes "reconstructState sha json_parse entries n seed = Inr st" and "window = take (nat (max 0 (min n (int (length entries))))) entries"
  shows "\<exists>argsKeys. args_keys sha json_parse (window_calls window) = Inr argsKeys
    \<and> rs_pending st = filter (\<lambda>x. \<not> (\<exists>e \<in> set window. entry_kind e = Tool \<and> entry_resolves e
        \<and> fst x \<in> fst ` set (entry_answers (map call_id (window_calls window)) argsKeys e))) (map call_id (window_calls window))"
proof -
  from assms obtain argsKeys where k: "args_keys sha json_parse (window_calls window) = Inr argsKeys"
    by (auto simp: reconstructState_def Let_def split: sum.splits)
  have "rs_pending st = filter (\<lambda>x. fst x \<notin> set (snd (match_entries (map call_id (window_calls window)) argsKeys [] window))) (map call_id (window_calls window))"
    using assms k by (auto simp: reconstructState_def Let_def split: prod.splits)
  also have "\<dots> = filter (\<lambda>x. \<not> (\<exists>e \<in> set window. entry_kind e = Tool \<and> entry_resolves e
        \<and> fst x \<in> fst ` set (entry_answers (map call_id (window_calls window)) argsKeys e))) (map call_id (window_calls window))"
    by (intro filter_cong refl) (auto simp: match_entries_claimed)
  finally show ?thesis using k by blast
qed

section \<open>What a fork copies\<close>

text \<open>The keys of the candidates: the same record under the source and under the fork.\<close>

definition twin :: "string \<Rightarrow> string \<Rightarrow> key \<times> key \<Rightarrow> bool" where
  "twin src dst ab \<longleftrightarrow> (\<exists>x. ab = (src @ '':tool:'' @ x, dst @ '':tool:'' @ x))"

lemma call_keys_twins:
  assumes "call_keys sha json_parse src dst tc = Inr cands"
  shows "list_all (twin src dst) cands"
    and "(key_tool src (js_string (js_field ''toolCallId'' tc)), key_tool dst (js_string (js_field ''toolCallId'' tc))) \<in> set cands"
  using assms by (auto simp: call_keys_def key_toolByArgs_def key_tool_def twin_def split: sum.splits option.splits)

text \<open>The tool records copied so far are in the journal, under the fork.\<close>

definition copied_ok :: "string \<Rightarrow> string \<Rightarrow> js list \<Rightarrow> key list \<Rightarrow> world \<Rightarrow> bool" where
  "copied_ok src dst entries copied w \<longleftrightarrow>
     (\<forall>x. dst @ '':tool:'' @ x \<in> set copied \<longrightarrow>
        (\<exists>e. entryByKey entries (src @ '':tool:'' @ x) = Some e \<and> map_of (store (journal w)) (dst @ '':tool:'' @ x) = Some (js_field ''value'' e)))"

definition only_tools :: "string \<Rightarrow> world \<Rightarrow> world \<Rightarrow> bool" where
  "only_tools dst w w' \<longleftrightarrow> (\<forall>k. \<not> prefix (dst @ '':tool:'') k \<longrightarrow> map_of (store (journal w')) k = map_of (store (journal w)) k)"

definition covers :: "js list \<Rightarrow> key list \<Rightarrow> key \<times> key \<Rightarrow> bool" where
  "covers entries copied ab \<longleftrightarrow> entryByKey entries (fst ab) \<noteq> None \<longrightarrow> snd ab \<in> set copied"

lemma covers_mono: "covers entries c ab \<Longrightarrow> set c \<subseteq> set c' \<Longrightarrow> covers entries c' ab"
  by (auto simp: covers_def)

lemma run_copy_candidate:
  assumes "copied_ok src dst entries copied w" and "twin src dst ab"
  shows "\<exists>copied1 w1. run env (copy_candidate entries copied ab) w = (Inr copied1, w1) \<and> copied_ok src dst entries copied1 w1
    \<and> only_tools dst w w1 \<and> set copied \<subseteq> set copied1 \<and> covers entries copied1 ab"
proof -
  obtain x where ab: "ab = (src @ '':tool:'' @ x, dst @ '':tool:'' @ x)" using assms(2) by (auto simp: twin_def)
  show ?thesis
    using assms(1)
    by (auto simp: copy_candidate_def ab covers_def prog_simps copied_ok_def only_tools_def mem_put_def split: option.split)
qed

lemma run_copy_candidates:
  assumes "copied_ok src dst entries copied w" and "list_all (twin src dst) cands"
  shows "\<exists>copied1 w1. run env (foldp (copy_candidate entries) copied cands) w = (Inr copied1, w1) \<and> copied_ok src dst entries copied1 w1
    \<and> only_tools dst w w1 \<and> set copied \<subseteq> set copied1 \<and> list_all (covers entries copied1) cands"
  using assms
proof (induction cands arbitrary: copied w)
  case Nil
  then show ?case by (simp add: only_tools_def)
next
  case (Cons ab cands)
  have "twin src dst ab" using Cons.prems(2) by simp
  then obtain copied1 w1 where h: "run env (copy_candidate entries copied ab) w = (Inr copied1, w1)" "copied_ok src dst entries copied1 w1"
    "only_tools dst w w1" "set copied \<subseteq> set copied1" "covers entries copied1 ab"
    using run_copy_candidate [OF Cons.prems(1)] by blast
  obtain copied2 w2 where "run env (foldp (copy_candidate entries) copied1 cands) w1 = (Inr copied2, w2)" "copied_ok src dst entries copied2 w2"
    "only_tools dst w1 w2" "set copied1 \<subseteq> set copied2" "list_all (covers entries copied2) cands"
    using Cons.IH [OF h(2)] Cons.prems by auto
  with h show ?case by (auto simp: prog_simps only_tools_def intro: covers_mono)
qed

lemma run_copy_call:
  "run env (copy_call sha json_parse src dst entries copied tc) w
     = (case call_keys sha json_parse src dst tc of Inl e \<Rightarrow> (Inl e, w) | Inr cands \<Rightarrow> run env (foldp (copy_candidate entries) copied cands) w)"
  by (simp add: copy_call_def prog_simps split: sum.split)

lemma run_copy_calls:
  assumes "copied_ok src dst entries copied w" and "run env (foldp (copy_call sha json_parse src dst entries) copied tcs) w = (Inr copied1, w1)"
  shows "copied_ok src dst entries copied1 w1 \<and> only_tools dst w w1 \<and> set copied \<subseteq> set copied1
    \<and> (\<forall>tc \<in> set tcs. covers entries copied1 (key_tool src (js_string (js_field ''toolCallId'' tc)), key_tool dst (js_string (js_field ''toolCallId'' tc))))"
  using assms
proof (induction tcs arbitrary: copied w)
  case Nil
  then show ?case by (simp add: only_tools_def)
next
  case (Cons tc tcs)
  from Cons.prems(2) obtain cands where cands: "call_keys sha json_parse src dst tc = Inr cands"
    by (auto simp: run_bindp run_copy_call split: sum.splits)
  obtain copied2 w2 where h: "run env (foldp (copy_candidate entries) copied cands) w = (Inr copied2, w2)" "copied_ok src dst entries copied2 w2"
    "only_tools dst w w2" "set copied \<subseteq> set copied2" "list_all (covers entries copied2) cands"
    using run_copy_candidates [OF Cons.prems(1) call_keys_twins(1) [OF cands]] by blast
  with Cons.prems(2) cands have "run env (foldp (copy_call sha json_parse src dst entries) copied2 tcs) w2 = (Inr copied1, w1)"
    by (simp add: run_bindp run_copy_call)
  from Cons.IH [OF h(2) this] have rest: "copied_ok src dst entries copied1 w1" "only_tools dst w2 w1" "set copied2 \<subseteq> set copied1"
    "\<forall>tc \<in> set tcs. covers entries copied1 (key_tool src (js_string (js_field ''toolCallId'' tc)), key_tool dst (js_string (js_field ''toolCallId'' tc)))"
    by auto
  moreover have "covers entries copied1 (key_tool src (js_string (js_field ''toolCallId'' tc)), key_tool dst (js_string (js_field ''toolCallId'' tc)))"
    using h(5) call_keys_twins(2) [OF cands] rest(3) unfolding list_all_iff covers_def by fastforce
  ultimately show ?case using h by (auto simp: only_tools_def)
qed

lemma run_copy_model:
  "run env (copy_model dst m) w
     = (Inr (), w\<lparr>journal := mem_put (clock w) (key_model dst (model_number (js_string (js_field ''key'' m)))) (js_field ''value'' m) (journal w)\<rparr>)"
  by (simp add: copy_model_def prog_simps)

lemma run_copy_models:
  "\<exists>w1. run env (forp ms (copy_model dst)) w = (Inr (), w1)
     \<and> (\<forall>k. \<not> prefix (dst @ '':model:'') k \<longrightarrow> map_of (store (journal w1)) k = map_of (store (journal w)) k)"
proof (induction ms arbitrary: w)
  case (Cons m ms)
  define w2 where "w2 = w\<lparr>journal := mem_put (clock w) (key_model dst (model_number (js_string (js_field ''key'' m)))) (js_field ''value'' m) (journal w)\<rparr>"
  obtain w1 where h: "run env (forp ms (copy_model dst)) w2 = (Inr (), w1)"
    "\<And>k. \<not> prefix (dst @ '':model:'') k \<Longrightarrow> map_of (store (journal w1)) k = map_of (store (journal w2)) k"
    using Cons.IH by blast
  have "map_of (store (journal w2)) k = map_of (store (journal w)) k" if "\<not> prefix (dst @ '':model:'') k" for k
    using that by (auto simp: w2_def mem_put_def key_model_def)
  with h show ?case by (simp add: run_seqp run_copy_model w2_def [symmetric])
qed simp

text \<open>Where the two kinds of rows and the input of the fork lie.\<close>

lemma fork_keys_apart: "\<not> prefix (dst @ '':model:'') (dst @ '':tool:'' @ x)" "key_input dst \<noteq> dst @ '':tool:'' @ x"
  "\<not> prefix (dst @ '':'') k \<Longrightarrow> \<not> prefix (dst @ '':model:'') k \<and> \<not> prefix (dst @ '':tool:'') k \<and> k \<noteq> key_input dst"
  by (auto simp: key_input_def prefix_def)

lemma run_copy_run:
  assumes "run env (copy_run sha json_parse src step dst entries) w = (Inr fr, w')"
  shows "(\<forall>k. \<not> prefix (dst @ '':'') k \<longrightarrow> map_of (store (journal w')) k = map_of (store (journal w)) k)
    \<and> (\<forall>m tc e. m \<in> set (take (nat step) (filter (entry_is ''model'') entries)) \<and> tc \<in> set (step_calls m)
        \<and> entryByKey entries (key_tool src (js_string (js_field ''toolCallId'' tc))) = Some e
        \<longrightarrow> map_of (store (journal w')) (key_tool dst (js_string (js_field ''toolCallId'' tc))) = Some (js_field ''value'' e))
    \<and> fr_newRunId fr = dst"
proof -
  define keep where "keep = take (nat step) (filter (entry_is ''model'') entries)"
  obtain w1 where models: "run env (forp keep (copy_model dst)) w = (Inr (), w1)"
    "\<And>k. \<not> prefix (dst @ '':model:'') k \<Longrightarrow> map_of (store (journal w1)) k = map_of (store (journal w)) k"
    using run_copy_models by blast
  obtain copied w2 where calls: "run env (foldp (copy_call sha json_parse src dst entries) [] (concat (map step_calls keep))) w1 = (Inr copied, w2)"
    and fin: "w' = (if mem_get (key_input src) (journal w2) \<noteq> JUndef then w2\<lparr>journal := mem_put (clock w2) (key_input dst) (mem_get (key_input src) (journal w2)) (journal w2)\<rparr> else w2)"
    and fr: "fr_newRunId fr = dst"
    using assms models(1) by (auto simp: copy_run_def Let_def keep_def [symmetric] prog_simps split: prod.splits sum.splits if_splits)
  have "copied_ok src dst entries [] w1" by (simp add: copied_ok_def)
  from run_copy_calls [OF this calls] have tools: "copied_ok src dst entries copied w2" "only_tools dst w1 w2"
    "\<And>tc. tc \<in> set (concat (map step_calls keep)) \<Longrightarrow>
       covers entries copied (key_tool src (js_string (js_field ''toolCallId'' tc)), key_tool dst (js_string (js_field ''toolCallId'' tc)))"
    by auto
  have last: "map_of (store (journal w')) k = map_of (store (journal w2)) k" if "k \<noteq> key_input dst" for k
    using that by (simp add: fin mem_put_def)
  have "map_of (store (journal w')) k = map_of (store (journal w)) k" if "\<not> prefix (dst @ '':'') k" for k
    using fork_keys_apart(3) [OF that] last models(2) tools(2) by (auto simp: only_tools_def)
  moreover have "map_of (store (journal w')) (key_tool dst i) = Some (js_field ''value'' e)"
    if "m \<in> set keep" "tc \<in> set (step_calls m)" "entryByKey entries (key_tool src i) = Some e" "i = js_string (js_field ''toolCallId'' tc)" for m tc e i
  proof -
    have "key_tool dst i \<in> set copied" using tools(3) [of tc] that by (auto simp: covers_def)
    then have "map_of (store (journal w2)) (key_tool dst i) = Some (js_field ''value'' e)"
      using tools(1) that(3) by (auto simp: copied_ok_def key_tool_def)
    then show ?thesis using last [of "key_tool dst i"] fork_keys_apart(2) [of dst i] by (simp add: key_tool_def)
  qed
  ultimately show ?thesis using fr unfolding keep_def by blast
qed

lemma run_copy_run_no_calls:
  assumes "run env (copy_run sha json_parse src step dst entries) w = (Inr fr, w')"
    and "concat (map step_calls (take (nat step) (filter (entry_is ''model'') entries))) = []"
  shows "fr_copiedTool fr = 0 \<and> (\<forall>i. map_of (store (journal w')) (key_tool dst i) = map_of (store (journal w)) (key_tool dst i))"
proof -
  define keep where "keep = take (nat step) (filter (entry_is ''model'') entries)"
  obtain w1 where models: "run env (forp keep (copy_model dst)) w = (Inr (), w1)"
    "\<And>k. \<not> prefix (dst @ '':model:'') k \<Longrightarrow> map_of (store (journal w1)) k = map_of (store (journal w)) k"
    using run_copy_models by blast
  have none: "concat (map step_calls keep) = []" using assms(2) by (simp only: keep_def)
  have "fr_copiedTool fr = 0" and fin: "w' = (if mem_get (key_input src) (journal w1) \<noteq> JUndef
      then w1\<lparr>journal := mem_put (clock w1) (key_input dst) (mem_get (key_input src) (journal w1)) (journal w1)\<rparr> else w1)"
    using assms(1) models(1) by (auto simp: copy_run_def Let_def keep_def [symmetric] none prog_simps split: if_splits)
  moreover have "map_of (store (journal w')) (key_tool dst i) = map_of (store (journal w)) (key_tool dst i)" for i
    using fork_keys_apart(2) [of dst i] models(2) [OF fork_keys_apart(1)] by (simp add: fin mem_put_def key_tool_def)
  ultimately show ?thesis by blast
qed

text \<open>The prelude of a fork writes nothing but the owner record of the new run.\<close>

fun reading :: "jop \<Rightarrow> bool" where
  "reading (JGet k) = True"
| "reading (JListKeys p n) = True"
| "reading (JReadRun r) = True"
| "reading DateNow = True"
| "reading _ = False"

lemma run_reading: "calls_in reading p \<Longrightarrow> snd (run env p w) = w"
proof (induction p arbitrary: w)
  case (Op c k)
  obtain r w1 where e: "exec_op env c w = (r, w1)" by fastforce
  with Op.prems have "w1 = w" by (cases c) auto
  with e Op show ?case by simp
qed simp_all

lemma reading_runOwnerOf: "calls_in reading (runOwnerOf J False r)"
proof -
  have "calls_in reading (any_present ks)" for ks by (induction ks) auto
  then show ?thesis
    by (auto simp: runOwnerOf_def assertRaw_def rowsPresent_def intro!: calls_in_seqp calls_in_catchp calls_in_bindp calls_in_ops_bound split: option.split)
qed

lemma run_inherit:
  assumes "has_putIfAbsent J" and "run env (inheritRunOwner J False src dst []) w = (Inr c, w1)"
  shows "same_but (key_input dst) (journal w) (journal w1)"
proof -
  obtain r w0 where o1: "run env (runOwnerOf J False src) w = (r, w0)" by fastforce
  with run_reading [OF reading_runOwnerOf, of env J src w] have "w0 = w" by simp
  with o1 assms(2) obtain ow where "run env (claimRunOwner J False dst ow []) w = (Inr c, w1)"
    by (auto simp: inheritRunOwner_def run_bindp split: sum.splits RunOwner.splits)
  moreover obtain b w2 where "run env (claim J (key_input dst) (owner_record (clock w) [] ow)) w = (Inr b, w2)" "same_but (key_input dst) (journal w) (journal w2)"
    using run_claim_same [OF assms(1)] by blast
  ultimately show ?thesis by (auto simp: claimRunOwner_def assertRaw_def run_bindp run_seqp run_date_now run_get run_liftp split: option.splits)
qed

lemma js_entry_fields [simp]:
  "js_field ''key'' (js_entry e) = JStr (entry_key e)" "js_field ''value'' (js_entry e) = entry_value e"
  "entry_is ''model'' (js_entry e) \<longleftrightarrow> entry_kind e = Model" "entry_is ''tool'' (js_entry e) \<longleftrightarrow> entry_kind e = Tool"
  by (cases "entry_kind e"; simp add: js_entry_def entry_is_def)+

lemma mem_readRun_entry:
  "e \<in> set (mem_readRun r j) \<Longrightarrow> (entry_key e, entry_value e) \<in> set (store j)"
  "(k, v) \<in> set (store j) \<Longrightarrow> run_entry r (k, v) \<Longrightarrow> \<exists>e \<in> set (mem_readRun r j). entry_key e = k \<and> entry_value e = v \<and> entry_kind e = kind_of_key k"
proof -
  have rows: "snd ` set (enumerate 0 (filter (run_entry r) (store j))) = set (filter (run_entry r) (store j))"
    by (metis map_snd_enumerate set_map)
  show "e \<in> set (mem_readRun r j) \<Longrightarrow> (entry_key e, entry_value e) \<in> set (store j)"
  proof -
    assume "e \<in> set (mem_readRun r j)"
    then obtain x where "x \<in> set (enumerate 0 (filter (run_entry r) (store j)))" "entry_key e = fst (snd x)" "entry_value e = snd (snd x)"
      by (auto simp: mem_readRun_def)
    then show ?thesis using rows by (metis filter_is_subset image_eqI prod.collapse subsetD)
  qed
  assume "(k, v) \<in> set (store j)" and "run_entry r (k, v)"
  then have "(k, v) \<in> snd ` set (enumerate 0 (filter (run_entry r) (store j)))" using rows by simp
  then show "\<exists>e \<in> set (mem_readRun r j). entry_key e = k \<and> entry_value e = v \<and> entry_kind e = kind_of_key k"
    by (force simp: mem_readRun_def)
qed

lemma entryByKey_read:
  assumes "distinct (map fst (store j))" and "map_of (store j) k = Some v" and "parseJournalKey k = Some (r, Tool)"
  shows "\<exists>e. entryByKey (map js_entry (mem_readRun r j)) k = Some e \<and> js_field ''value'' e = v"
proof -
  let ?es = "filter (\<lambda>e. entry_is ''tool'' e \<and> js_field ''key'' e = JStr k) (map js_entry (mem_readRun r j))"
  have kv: "(k, v) \<in> set (store j)" "run_entry r (k, v)" "kind_of_key k = Tool"
    using assms map_of_SomeD by (auto simp: run_entry_def kind_of_key_def)
  from mem_readRun_entry(2) [OF kv(1,2)] kv(3) have "?es \<noteq> []" by (auto simp: filter_empty_conv)
  moreover have "js_field ''value'' e = v" if "e \<in> set ?es" for e
  proof -
    from that obtain x where "x \<in> set (mem_readRun r j)" "entry_key x = k" "e = js_entry x" by auto
    with mem_readRun_entry(1) [of x r j] map_of_is_SomeI [OF assms(1)] assms(2) show ?thesis by simp
  qed
  ultimately have "js_field ''value'' (last ?es) = v" using last_in_set by blast
  moreover have "entryByKey (map js_entry (mem_readRun r j)) k = Some (last ?es)"
    using \<open>?es \<noteq> []\<close> unfolding entryByKey_def by (auto split: list.split)
  ultimately show ?thesis by blast
qed

lemma reading_pick: "calls_in reading (pickForkRunId J src)"
proof -
  have "calls_in reading (free_fork n J base i)" for n base i
    by (induction n arbitrary: i) (auto simp: namespaceTaken_def intro!: calls_in_bindp calls_in_ops_bound)
  then show ?thesis by (auto simp: pickForkRunId_def intro!: calls_in_bindp calls_in_ops_bound split: option.split)
qed

lemma fork_prelude:
  assumes "has_putIfAbsent J" and "run env (forkRun sha json_parse J src step newRunId) w = (Inr fr, w')"
  shows "\<exists>w1. same_but (key_input (fr_newRunId fr)) (journal w) (journal w1)
    \<and> run env (copy_run sha json_parse src step (fr_newRunId fr) (map js_entry (mem_readRun src (journal w1)))) w1 = (Inr fr, w')"
proof -
  have pre: "snd (run env (assertNotCompensated src) w) = w"
    by (rule run_reading) (auto simp: assertNotCompensated_def runCompensated_def)
  have pick: "snd (run env (case newRunId of Some i \<Rightarrow> Ret i | None \<Rightarrow> pickForkRunId J src) w) = w"
    by (rule run_reading) (auto simp: reading_pick split: option.split)
  obtain dst c w1 where inherit: "run env (inheritRunOwner J False src dst []) w = (Inr c, w1)"
    and copy: "run env (copy_run sha json_parse src step dst (map js_entry (mem_readRun src (journal w1)))) w1 = (Inr fr, w')"
    using assms(2) pre pick
    by (auto simp: forkRun_def run_bindp run_seqp run_liftp run_callp split: option.splits sum.splits prod.splits)
  moreover have "fr_newRunId fr = dst" using run_copy_run [OF copy] by blast
  ultimately show ?thesis using run_inherit [OF assms(1)] by blast
qed

section \<open>Properties\<close>


text \<open>A run of two steps whose first step charged a card; the record of a step is settled or, for a streamed run, the raw parts of the stream.\<close>

definition charge_part :: js where
  "charge_part = JObj [(''type'', JStr ''tool-call''), (''toolCallId'', JStr ''c1''), (''toolName'', JStr ''charge''), (''input'', JStr ''{}'')]"

definition paid_run :: "string \<Rightarrow> world" where
  "paid_run shape = new_world\<lparr>journal :=
     mem_put 3 ''r1:model:1'' (JObj [(shape, JArr [])])
    (mem_put 2 ''r1:tool:c1'' (JObj [(''status'', JStr ''succeeded''), (''output'', JStr ''receipt'')])
    (mem_put 1 ''r1:model:0'' (JObj [(shape, JArr [charge_part])])
    (mem_put 0 (key_input ''r1'') (owner_record 0 [] (UserCaller ''ann'' None)) empty_journal)))\<rparr>"

definition fork_call :: "ForkResult prog" where
  "fork_call = forkRun (\<lambda>_. ''h'') (\<lambda>_. None) full_caps ''r1'' 1 (Some ''r2'')"

lemma fork_runs:
  "fst (run receipt_env fork_call (paid_run ''content'')) = Inr \<lparr>fr_newRunId = ''r2'', fr_copiedModel = 1, fr_copiedTool = 1\<rparr>"
  "mem_get ''r2:model:1'' (journal (snd (run receipt_env fork_call (paid_run ''content'')))) = JUndef"
  by code_simp+

lemma paid_run_facts:
  "distinct (map fst (store (journal (paid_run ''content''))))"
  "map entry_key (take 1 (filter (\<lambda>e. entry_kind e = Model) (mem_readRun ''r1'' (journal (paid_run ''content''))))) = [''r1:model:0'']"
  "map entry_value (take 1 (filter (\<lambda>e. entry_kind e = Model) (mem_readRun ''r1'' (journal (paid_run ''content''))))) = [JObj [(''content'', JArr [charge_part])]]"
  "map_of (store (journal (paid_run ''content''))) ''r1:tool:c1'' = Some (JObj [(''status'', JStr ''succeeded''), (''output'', JStr ''receipt'')])"
  "parseJournalKey ''r1:tool:c1'' = Some (''r1'', Tool)" "parseJournalKey (key_input ''r2'') = None"
  by code_simp+


text \<open>
  C26: The restriction to settled content is needed. The record of a streamed step holds the parts of the stream and no content; a fork that keeps only such
  steps copies the steps and none of the records of their tool calls, so a resume of the fork finds the calls without a record and executes them again.
\<close>

theorem streamed_fork_copies_no_calls:
  assumes "has_putIfAbsent J" and "run env (forkRun sha json_parse J src step newRunId) w = (Inr fr, w')" and "fr_newRunId fr = dst"
    and "\<forall>kd. parseJournalKey (key_input dst) \<noteq> Some (src, kd)"
    and "\<forall>m \<in> set (take (nat step) (filter (\<lambda>e. entry_kind e = Model) (mem_readRun src (journal w)))). js_field ''content'' (entry_value m) = JUndef"
  shows "fr_copiedTool fr = 0 \<and> (\<forall>i. map_of (store (journal w')) (key_tool dst i) = map_of (store (journal w)) (key_tool dst i))"
proof -
  obtain w1 where inherit: "same_but (key_input dst) (journal w) (journal w1)"
    and copy: "run env (copy_run sha json_parse src step dst (map js_entry (mem_readRun src (journal w1)))) w1 = (Inr fr, w')"
    using fork_prelude [OF assms(1,2)] unfolding assms(3) by blast
  have rows: "mem_readRun src (journal w1) = mem_readRun src (journal w)"
    using readRun_same [OF inherit] assms(4) by blast
  have "step_calls m = []" if "m \<in> set (take (nat step) (filter (entry_is ''model'') (map js_entry (mem_readRun src (journal w)))))" for m
    using assms(5) that by (auto simp: filter_map comp_def take_map step_calls_def)
  then have "concat (map step_calls (take (nat step) (filter (entry_is ''model'') (map js_entry (mem_readRun src (journal w1)))))) = []"
    by (simp add: rows)
  from run_copy_run_no_calls [OF copy this]
  have "fr_copiedTool fr = 0" "\<And>i. map_of (store (journal w')) (key_tool dst i) = map_of (store (journal w1)) (key_tool dst i)" by blast+
  moreover have "map_of (store (journal w1)) (key_tool dst i) = map_of (store (journal w)) (key_tool dst i)" for i
    using inherit fork_keys_apart(2) [of dst i] by (auto simp: same_but_def key_tool_def map_add_def split: option.split)
  ultimately show ?thesis by simp
qed

lemma streamed_fork_runs:
  "\<exists>w'. run receipt_env fork_call (paid_run ''parts'') = (Inr \<lparr>fr_newRunId = ''r2'', fr_copiedModel = 1, fr_copiedTool = 0\<rparr>, w')"
  "map entry_value (take 1 (filter (\<lambda>e. entry_kind e = Model) (mem_readRun ''r1'' (journal (paid_run ''parts''))))) = [JObj [(''parts'', JArr [charge_part])]]"
  "map_of (store (journal (paid_run ''parts''))) ''r1:tool:c1'' \<noteq> None" "map_of (store (journal (paid_run ''parts''))) ''r2:tool:c1'' = None"
proof -
  have "fst (run receipt_env fork_call (paid_run ''parts'')) = Inr \<lparr>fr_newRunId = ''r2'', fr_copiedModel = 1, fr_copiedTool = 0\<rparr>" by code_simp
  then show "\<exists>w'. run receipt_env fork_call (paid_run ''parts'') = (Inr \<lparr>fr_newRunId = ''r2'', fr_copiedModel = 1, fr_copiedTool = 0\<rparr>, w')"
    by (metis prod.collapse)
qed code_simp+

theorem streamed_fork_copies_no_calls_witness:
  "map_of (store (journal (paid_run ''parts''))) ''r1:tool:c1'' \<noteq> None
   \<and> map_of (store (journal (snd (run receipt_env fork_call (paid_run ''parts''))))) ''r2:tool:c1'' = None"
proof -
  obtain w' where w': "run receipt_env fork_call (paid_run ''parts'') = (Inr \<lparr>fr_newRunId = ''r2'', fr_copiedModel = 1, fr_copiedTool = 0\<rparr>, w')"
    using streamed_fork_runs(1) by blast
  obtain m where m: "take (nat 1) (filter (\<lambda>e. entry_kind e = Model) (mem_readRun ''r1'' (journal (paid_run ''parts'')))) = [m]"
    "entry_value m = JObj [(''parts'', JArr [charge_part])]"
    using streamed_fork_runs(2) by auto
  have "map_of (store (journal w')) (key_tool ''r2'' ''c1'') = map_of (store (journal (paid_run ''parts''))) (key_tool ''r2'' ''c1'')"
    using streamed_fork_copies_no_calls [OF _ w' [unfolded fork_call_def], of "''r2''"] m paid_run_facts(6) by (simp add: full_caps_def)
  then show ?thesis using streamed_fork_runs(3,4) w' by (simp add: key_tool_def)
qed

text \<open>The new identifier may name an existing run of somebody else: its owner record is replaced by the one of the source.\<close>

definition taken_world :: world where
  "taken_world = (paid_run ''content'')\<lparr>journal := mem_put 4 (key_input ''r2'') (owner_record 4 [] (UserCaller ''bob'' None)) (journal (paid_run ''content''))\<rparr>"

lemma fork_overwrites_owner:
  "recordOwner (mem_get (key_input ''r2'') (journal taken_world)) = Some (UserCaller ''bob'' None)"
  "recordOwner (mem_get (key_input ''r2'') (journal (snd (run receipt_env fork_call taken_world)))) = Some (UserCaller ''ann'' None)"
  by code_simp+

end
