(* ===== verification/Cost.thy ===== *)
theory Cost
  imports Limits Organization
begin

text \<open>
  What a run costs (\<open>packages/durable/src/cost.ts\<close>, \<open>pricing.ts\<close>, and the reading of usage records in \<open>sdk-compat.ts\<close>). Prices are whole numbers of a
  unit per million tokens and costs whole numbers of a millionth of that unit, so that costs are exact; the shipped price table \<open>DEFAULT_PRICING\<close> is
  the argument \<open>defaults\<close>. A journal is the root, scope \<open>None\<close>, or the view of an organisation, scope \<open>Some P\<close> with its key prefix. Warnings are left out.
\<close>

section \<open>Definitions\<close>

text \<open>\<open>v ?? w\<close>\<close>

definition coalesce :: "js \<Rightarrow> js \<Rightarrow> js" where
  "coalesce v w = (if v = JUndef \<or> v = JNull then w else v)"

fun is_object :: "js \<Rightarrow> bool" where
  "is_object (JObj kvs) = True"
| "is_object (JArr vs) = True"
| "is_object v = False"

subsection \<open>Usage records\<close>

record FlatUsage =
  fu_input :: int
  fu_output :: int
  fu_cached :: int
  fu_total :: int

definition flattenUsage :: "js \<Rightarrow> FlatUsage" where
  "flattenUsage u =
     (let inp = js_field ''inputTokens'' u; outp = js_field ''outputTokens'' u; nested = is_object inp;
          i = js_int (coalesce (if nested then js_field ''total'' inp else inp) (JNum 0));
          out = js_int (coalesce (if nested then js_field ''total'' outp else outp) (JNum 0));
          c = js_int (coalesce (if nested then js_field ''cacheRead'' inp else coalesce (js_field ''cachedInputTokens'' u) (js_field ''cachedTokens'' u)) (JNum 0))
      in \<lparr>fu_input = i, fu_output = out, fu_cached = c, fu_total = js_int (coalesce (js_field ''totalTokens'' u) (JNum (i + out)))\<rparr>)"

definition finishReasonText :: "js \<Rightarrow> js" where
  "finishReasonText reason =
     (case reason of
        JUndef \<Rightarrow> JUndef
      | JNull \<Rightarrow> JUndef
      | JStr s \<Rightarrow> JStr s
      | _ \<Rightarrow> (case js_field ''unified'' reason of
          JStr s \<Rightarrow> JStr s
        | _ \<Rightarrow> (case js_field ''raw'' reason of JStr s \<Rightarrow> JStr s | _ \<Rightarrow> JUndef)))"

text \<open>The first part of a stream with the given type, \<open>undefined\<close> when there is none.\<close>

definition part_of_type :: "string \<Rightarrow> js \<Rightarrow> js" where
  "part_of_type ty value =
     (case filter (\<lambda>p. js_field ''type'' p = JStr ty) (js_elems (js_field ''parts'' value)) of [] \<Rightarrow> JUndef | p # ps \<Rightarrow> p)"

record model_facts =
  mf_usage :: js
  mf_modelId :: js
  mf_finishReason :: js

definition modelRecordFacts :: "js \<Rightarrow> model_facts" where
  "modelRecordFacts v =
     (let finish = part_of_type ''finish'' v in
      \<lparr>mf_usage = coalesce (js_field ''usage'' v) (js_field ''usage'' finish),
       mf_modelId = coalesce (js_field ''modelId'' (js_field ''response'' v))
         (coalesce (js_field ''modelId'' (js_field ''response'' (js_field ''rest'' v))) (js_field ''modelId'' (part_of_type ''response-metadata'' v))),
       mf_finishReason = coalesce (js_field ''finishReason'' v) (js_field ''finishReason'' finish)\<rparr>)"

subsection \<open>Prices\<close>

definition usable_number :: "js \<Rightarrow> bool" where
  "usable_number v = (case v of JNum n \<Rightarrow> 0 \<le> n | _ \<Rightarrow> False)"

definition isUsablePrice :: "js \<Rightarrow> bool" where
  "isUsablePrice row \<longleftrightarrow> is_object row \<and> usable_number (js_field ''inputPer1M'' row) \<and> usable_number (js_field ''outputPer1M'' row)
     \<and> (js_field ''cachedInputPer1M'' row = JUndef \<or> usable_number (js_field ''cachedInputPer1M'' row))"

text \<open>\<open>.sort((a, b) => b.length - a.length)[0]\<close>\<close>

definition longest_first :: "string list \<Rightarrow> string option" where
  "longest_first ps = (case ps of [] \<Rightarrow> None | p # qs \<Rightarrow> Some (foldl (\<lambda>b q. if length b < length q then q else b) p qs))"

definition price_key :: "string \<Rightarrow> js_record \<Rightarrow> string option" where
  "price_key modelId table =
     (if modelId \<in> set (js_keys table) then Some modelId else longest_first (filter (\<lambda>p. prefix p modelId) (js_keys table)))"

definition priceFor :: "string \<Rightarrow> js_record \<Rightarrow> js option" where
  "priceFor modelId table =
     (case price_key modelId table of
        None \<Rightarrow> None
      | Some k \<Rightarrow> (case map_of table k of Some row \<Rightarrow> if isUsablePrice row then Some row else None | None \<Rightarrow> None))"

definition costOf :: "FlatUsage \<Rightarrow> js \<Rightarrow> int" where
  "costOf u p =
     max 0 (fu_input u - fu_cached u) * js_int (js_field ''inputPer1M'' p)
     + fu_cached u * js_int (coalesce (js_field ''cachedInputPer1M'' p) (js_field ''inputPer1M'' p))
     + fu_output u * js_int (js_field ''outputPer1M'' p)"

text \<open>Calls on the view with the given scope.\<close>

definition in_scope :: "string option \<Rightarrow> 'a prog \<Rightarrow> 'a prog" where
  "in_scope sc p = (case sc of None \<Rightarrow> p | Some P \<Rightarrow> withOrg P p)"

definition readPricing :: "string option \<Rightarrow> js prog" where
  "readPricing sc =
     bindp (in_scope sc (get PRICING_KEY)) (\<lambda>own.
       if js_truthy own then Ret own else case sc of None \<Rightarrow> Ret JUndef | Some P \<Rightarrow> get PRICING_KEY)"

definition layer_prices :: "js_record \<Rightarrow> js \<Rightarrow> js_record" where
  "layer_prices defaults doc =
     (let models = js_field ''models'' doc in
      if \<not> js_truthy models then defaults
      else if js_truthy (js_field ''replace'' doc) then js_props models
      else spread defaults (js_props models))"

definition effectivePricingTable :: "js_record \<Rightarrow> string option \<Rightarrow> js_record prog" where
  "effectivePricingTable defaults sc = bindp (readPricing sc) (\<lambda>doc. Ret (layer_prices defaults doc))"

subsection \<open>The cost of a run\<close>

record ModelStepUsage =
  mu_flat :: FlatUsage
  mu_costUsd :: int
  mu_modelId :: string
  mu_priced :: bool

definition usageAndCostFromModelValue :: "js_record \<Rightarrow> js \<Rightarrow> js \<Rightarrow> ModelStepUsage option" where
  "usageAndCostFromModelValue table modelId value =
     (let facts = modelRecordFacts value in
      if \<not> js_truthy (mf_usage facts) then None
      else let flat = flattenUsage (mf_usage facts);
               m = js_string (coalesce (coalesce (mf_modelId facts) modelId) (JStr ''unknown''));
               pricing = priceFor m table
           in Some \<lparr>mu_flat = flat, mu_costUsd = (case pricing of Some p \<Rightarrow> costOf flat p | None \<Rightarrow> 0), mu_modelId = m, mu_priced = (pricing \<noteq> None)\<rparr>)"

record RunCost =
  rc_runId :: string
  rc_inputTokens :: int
  rc_outputTokens :: int
  rc_cachedTokens :: int
  rc_totalTokens :: int
  rc_modelCalls :: nat
  rc_toolCalls :: nat
  rc_costUsd :: int
  rc_byModel :: "(nat \<times> int \<times> int) js_map"

definition no_cost :: "string \<Rightarrow> RunCost" where
  "no_cost runId = \<lparr>rc_runId = runId, rc_inputTokens = 0, rc_outputTokens = 0, rc_cachedTokens = 0, rc_totalTokens = 0,
     rc_modelCalls = 0, rc_toolCalls = 0, rc_costUsd = 0, rc_byModel = []\<rparr>"

definition by_model :: "ModelStepUsage \<Rightarrow> (nat \<times> int \<times> int) js_map \<Rightarrow> (nat \<times> int \<times> int) js_map" where
  "by_model u m =
     (case (case map_of m (mu_modelId u) of Some b \<Rightarrow> b | None \<Rightarrow> (0, 0, 0)) of
        (calls, tokens, cost) \<Rightarrow> js_set (mu_modelId u) (Suc calls, tokens + fu_total (mu_flat u), cost + mu_costUsd u) m)"

definition cost_entry :: "js_record \<Rightarrow> js \<Rightarrow> RunCost \<Rightarrow> js \<Rightarrow> RunCost" where
  "cost_entry table modelId out e =
     (if js_field ''kind'' e = JStr ''tool'' then out\<lparr>rc_toolCalls := Suc (rc_toolCalls out)\<rparr>
      else case usageAndCostFromModelValue table modelId (js_field ''value'' e) of
        None \<Rightarrow> out
      | Some u \<Rightarrow> out\<lparr>rc_modelCalls := Suc (rc_modelCalls out), rc_inputTokens := rc_inputTokens out + fu_input (mu_flat u),
          rc_outputTokens := rc_outputTokens out + fu_output (mu_flat u), rc_cachedTokens := rc_cachedTokens out + fu_cached (mu_flat u),
          rc_totalTokens := rc_totalTokens out + fu_total (mu_flat u), rc_costUsd := rc_costUsd out + mu_costUsd u,
          rc_byModel := by_model u (rc_byModel out)\<rparr>)"

definition getRunCost :: "js_record \<Rightarrow> string option \<Rightarrow> string \<Rightarrow> js \<Rightarrow> js_record option \<Rightarrow> RunCost prog" where
  "getRunCost defaults sc runId modelId pricing =
     bindp (case pricing of Some t \<Rightarrow> Ret t | None \<Rightarrow> effectivePricingTable defaults sc) (\<lambda>table.
     bindp (in_scope sc (callp (JReadRun runId))) (\<lambda>entries.
       Ret (foldl (cost_entry table modelId) (no_cost runId) (js_elems entries))))"

text \<open>The usage of a step as the run limits read it.\<close>

definition limits_usage :: "js_record \<Rightarrow> usage_fn" where
  "limits_usage defaults doc value =
     map_option (\<lambda>u. (fu_total (mu_flat u), mu_costUsd u, mu_priced u, mu_modelId u))
       (usageAndCostFromModelValue (layer_prices defaults doc) JUndef value)"

record TraceSpan =
  sp_name :: string
  sp_kind :: JournalEntryKind
  sp_runId :: string
  sp_seq :: nat
  sp_attributes :: js_record
  sp_ts :: "int option"

definition trace_span :: "string \<Rightarrow> JournalEntry \<Rightarrow> TraceSpan" where
  "trace_span runId e =
     (case entry_kind e of
        Model \<Rightarrow>
          (let facts = modelRecordFacts (entry_value e); flat = flattenUsage (mf_usage facts) in
           \<lparr>sp_name = ''llm.generate'', sp_kind = Model, sp_runId = runId, sp_seq = entry_seq e,
            sp_attributes = [(''gen_ai.response.finish_reason'', finishReasonText (mf_finishReason facts)),
              (''gen_ai.usage.input_tokens'', JNum (fu_input flat)), (''gen_ai.usage.output_tokens'', JNum (fu_output flat)),
              (''gen_ai.response.model'', mf_modelId facts)],
            sp_ts = entry_ts e\<rparr>)
      | Tool \<Rightarrow> \<lparr>sp_name = ''tool.execute'', sp_kind = Tool, sp_runId = runId, sp_seq = entry_seq e,
            sp_attributes = [(''tool.status'', js_field ''status'' (entry_value e))], sp_ts = entry_ts e\<rparr>)"

definition toTraceSpans :: "string \<Rightarrow> InMemoryJournal \<Rightarrow> TraceSpan list" where
  "toTraceSpans runId j = map (trace_span runId) (mem_readRun runId j)"

section \<open>The row that prices a model\<close>

definition longer :: "string \<Rightarrow> string \<Rightarrow> string" where
  "longer b q = (if length b < length q then q else b)"

lemma longest_fold: "foldl longer p qs \<in> insert p (set qs) \<and> (\<forall>q \<in> insert p (set qs). length q \<le> length (foldl longer p qs))"
proof (induction qs arbitrary: p)
  case (Cons q qs)
  let ?r = "foldl longer (longer p q) qs"
  have *: "length p \<le> length (longer p q)" "length q \<le> length (longer p q)" "longer p q = p \<or> longer p q = q" by (simp_all add: longer_def)
  have IH: "?r \<in> insert (longer p q) (set qs)" "length (longer p q) \<le> length ?r" "\<forall>x \<in> set qs. length x \<le> length ?r"
    using Cons [of "longer p q"] by blast+
  have "length p \<le> length ?r" "length q \<le> length ?r" using * IH(2) by linarith+
  with IH(1,3) *(3) show ?case by auto
qed simp

lemma longest_first_Some:
  "longest_first ps = Some k \<Longrightarrow> k \<in> set ps \<and> (\<forall>q \<in> set ps. length q \<le> length k)"
  using longest_fold by (auto simp: longest_first_def longer_def [abs_def] split: list.splits)

text \<open>
  The most specific row decides: an entry of the model's own name, and otherwise the longest entry the name begins with. An unusable row is not replaced by
  a shorter one.
\<close>

lemma price_key_most_specific:
  assumes "price_key m table = Some k" and "q \<in> set (js_keys table)" and "prefix q m"
  shows "k \<in> set (js_keys table) \<and> prefix k m \<and> prefix q k"
proof -
  have "k \<in> set (js_keys table) \<and> prefix k m \<and> length q \<le> length k"
  proof (cases "m \<in> set (js_keys table)")
    case True
    with assms(1) have "k = m" by (simp add: price_key_def)
    with True prefix_length_le [OF assms(3)] show ?thesis by simp
  next
    case False
    with assms(1) have "longest_first (filter (\<lambda>p. prefix p m) (js_keys table)) = Some k" by (simp add: price_key_def)
    from longest_first_Some [OF this] assms(2,3) show ?thesis by simp
  qed
  with assms(3) show ?thesis using prefix_length_prefix by blast
qed

lemma priceFor_usable: "priceFor m table = Some row \<Longrightarrow> isUsablePrice row"
  by (auto simp: priceFor_def split: option.splits if_splits)

lemma costOf_nonneg:
  assumes "isUsablePrice p" and "0 \<le> fu_cached u" and "0 \<le> fu_output u"
  shows "0 \<le> costOf u p"
proof -
  have "0 \<le> js_int (js_field ''inputPer1M'' p)" "0 \<le> js_int (js_field ''outputPer1M'' p)"
    "0 \<le> js_int (coalesce (js_field ''cachedInputPer1M'' p) (js_field ''inputPer1M'' p))"
    using assms(1) by (auto simp: isUsablePrice_def usable_number_def coalesce_def split: js.splits)
  with assms(2,3) show ?thesis by (simp add: costOf_def)
qed

section \<open>The breakdown by model\<close>

text \<open>\<open>(calls, tokens, cost)\<close>, added over a breakdown.\<close>

definition breakdown_sum :: "((nat \<times> int \<times> int) \<Rightarrow> 'a::comm_monoid_add) \<Rightarrow> (nat \<times> int \<times> int) js_map \<Rightarrow> 'a" where
  "breakdown_sum f m = sum_list (map (f \<circ> snd) m)"

definition adds_up :: "RunCost \<Rightarrow> bool" where
  "adds_up c \<longleftrightarrow> js_map_wf (rc_byModel c) \<and> breakdown_sum fst (rc_byModel c) = rc_modelCalls c
     \<and> breakdown_sum (fst \<circ> snd) (rc_byModel c) = rc_totalTokens c \<and> breakdown_sum (snd \<circ> snd) (rc_byModel c) = rc_costUsd c"

lemma breakdown_js_set:
  assumes "js_map_wf m" and "f (case map_of m k of Some b \<Rightarrow> b | None \<Rightarrow> (0, 0, 0)) + d = f v" and "f (0, 0, 0) = 0"
  shows "breakdown_sum f (js_set k v m) = breakdown_sum f m + d"
  using assms
proof (induction m)
  case (Cons p m)
  show ?case
  proof (cases "fst p = k")
    case True
    with Cons.prems(2) show ?thesis by (cases p) (simp add: breakdown_sum_def flip: Cons.prems(2), simp add: ac_simps)
  next
    case False
    with Cons show ?thesis by (cases p) (auto simp: breakdown_sum_def js_map_wf_def ac_simps)
  qed
qed (simp add: breakdown_sum_def)

lemma adds_up_entry:
  assumes "adds_up c"
  shows "adds_up (cost_entry table modelId c e)"
proof -
  have "adds_up (c\<lparr>rc_modelCalls := Suc (rc_modelCalls c), rc_inputTokens := a, rc_outputTokens := b, rc_cachedTokens := d,
      rc_totalTokens := rc_totalTokens c + fu_total (mu_flat u), rc_costUsd := rc_costUsd c + mu_costUsd u, rc_byModel := by_model u (rc_byModel c)\<rparr>)" for u a b d
  proof -
    obtain calls tokens cost where old: "(case map_of (rc_byModel c) (mu_modelId u) of Some b \<Rightarrow> b | None \<Rightarrow> (0, 0, 0)) = (calls, tokens, cost)"
      by (metis prod_cases3)
    have wf: "js_map_wf (rc_byModel c)" using assms by (simp add: adds_up_def)
    show ?thesis
      using assms wf breakdown_js_set [OF wf, of fst "mu_modelId u" 1]
        breakdown_js_set [OF wf, of "fst \<circ> snd" "mu_modelId u" "fu_total (mu_flat u)"]
        breakdown_js_set [OF wf, of "snd \<circ> snd" "mu_modelId u" "mu_costUsd u"]
      by (simp add: adds_up_def by_model_def old)
  qed
  with assms show ?thesis by (auto simp: cost_entry_def adds_up_def split: option.split)
qed

lemma adds_up_entries: "adds_up c \<Longrightarrow> adds_up (foldl (cost_entry table modelId) c es)"
  by (induction es arbitrary: c) (simp_all add: adds_up_entry)

lemma adds_up_start: "adds_up (no_cost r)"
  by (simp add: adds_up_def no_cost_def breakdown_sum_def)

text \<open>The cost of a run, read off its records; the journal is not changed.\<close>

definition pricing_table :: "js_record \<Rightarrow> InMemoryJournal \<Rightarrow> js_record" where
  "pricing_table defaults j = (let doc = mem_get PRICING_KEY j in layer_prices defaults (if js_truthy doc then doc else JUndef))"

definition run_cost :: "js_record \<Rightarrow> InMemoryJournal \<Rightarrow> string \<Rightarrow> RunCost" where
  "run_cost table j runId = foldl (cost_entry table JUndef) (no_cost runId) (map js_entry (mem_readRun runId j))"

lemma run_effectivePricingTable [prog_simps]: "run env (effectivePricingTable defaults None) w = (Inr (pricing_table defaults (journal w)), w)"
  by (simp add: effectivePricingTable_def readPricing_def in_scope_def prog_simps pricing_table_def Let_def)

lemma run_getRunCost [prog_simps]:
  "run env (getRunCost defaults None r JUndef pricing) w
     = (Inr (run_cost (case pricing of Some t \<Rightarrow> t | None \<Rightarrow> pricing_table defaults (journal w)) (journal w) r), w)"
  by (simp add: getRunCost_def in_scope_def prog_simps run_cost_def split: option.split)

section \<open>Properties\<close>

text \<open>
  The cost report of a run adds up. The calls, tokens and costs in the breakdown by model sum to the totals of the report, with one line per model,
  for every journal and every price table; computing a report changes nothing.
\<close>

theorem cost_report_adds_up:
  "\<exists>c. run env (getRunCost defaults None r JUndef pricing) w = (Inr c, w) \<and> distinct (map fst (rc_byModel c))
     \<and> (\<Sum>(m, calls, tokens, cost) \<leftarrow> rc_byModel c. calls) = rc_modelCalls c
     \<and> (\<Sum>(m, calls, tokens, cost) \<leftarrow> rc_byModel c. tokens) = rc_totalTokens c
     \<and> (\<Sum>(m, calls, tokens, cost) \<leftarrow> rc_byModel c. cost) = rc_costUsd c"
proof -
  have "adds_up (run_cost t j r)" for t j by (simp add: run_cost_def adds_up_entries adds_up_start)
  then show ?thesis
    by (simp add: run_getRunCost adds_up_def breakdown_sum_def js_map_wf_def case_prod_unfold comp_def)
qed

end
