(* ===== verification/Budget.thy ===== *)
theory Budget
  imports Cost CounterShard
begin

text \<open>
  Budgets (\<open>packages/durable/src/budget.ts\<close>): the usage counter of an organisation, its reconstruction from the runs, and the gate. \<open>listAllRuns\<close> asks the
  journal for its runs, an outside call here, and the loop over pages (\<open>listRunsArray\<close>) is that of \<open>Journal\<close>: the answer is the array of all runs.
  Limits are whole numbers of the units of \<open>Cost\<close>.
\<close>

section \<open>Definitions\<close>

definition BUDGET_PRE :: string where "BUDGET_PRE = ''__budget__:''"
definition USAGE_KEY :: key where "USAGE_KEY = ''__usage__''"

record OrganizationUsage =
  ou_runs :: int
  ou_tokens :: int
  ou_costUsd :: int

definition no_usage :: OrganizationUsage where
  "no_usage = \<lparr>ou_runs = 0, ou_tokens = 0, ou_costUsd = 0\<rparr>"

definition usage_js :: "OrganizationUsage \<Rightarrow> js" where
  "usage_js u = JObj [(''runs'', JNum (ou_runs u)), (''tokens'', JNum (ou_tokens u)), (''costUsd'', JNum (ou_costUsd u))]"

text \<open>\<open>Math.max(0, (a ?? 0) + (b ?? 0))\<close>, field by field\<close>

definition add_clamped :: "(string \<Rightarrow> int) \<Rightarrow> (string \<Rightarrow> int) \<Rightarrow> OrganizationUsage" where
  "add_clamped a b = \<lparr>ou_runs = max 0 (a ''runs'' + b ''runs''), ou_tokens = max 0 (a ''tokens'' + b ''tokens''),
     ou_costUsd = max 0 (a ''costUsd'' + b ''costUsd'')\<rparr>"

definition usage_field :: "js \<Rightarrow> string \<Rightarrow> int" where
  "usage_field v f = js_int (js_field f v)"

definition readUsageCounter :: "caps \<Rightarrow> string option \<Rightarrow> (OrganizationUsage option) prog" where
  "readUsageCounter J sc =
     bindp (in_scope sc (get USAGE_KEY)) (\<lambda>legacy.
     bindp (if has_getCounters J then in_scope sc (callp (JGetCounters USAGE_KEY)) else Ret JUndef) (\<lambda>ctr.
       Ret (if \<not> js_truthy legacy \<and> \<not> js_truthy ctr then None else Some (add_clamped (usage_field legacy) (usage_field ctr)))))"

definition add_legacy :: "string option \<Rightarrow> OrganizationUsage \<Rightarrow> unit prog" where
  "add_legacy sc delta =
     bindp (in_scope sc (get USAGE_KEY)) (\<lambda>cur.
       in_scope sc (put USAGE_KEY (usage_js (add_clamped (usage_field cur) (usage_field (usage_js delta))))))"

definition addUsage :: "caps \<Rightarrow> string option \<Rightarrow> OrganizationUsage \<Rightarrow> unit prog" where
  "addUsage J sc delta =
     (if has_incrBy J then
        catchp (bindp (in_scope sc (callp (JIncrBy USAGE_KEY [(''runs'', ou_runs delta), (''tokens'', ou_tokens delta), (''costUsd'', ou_costUsd delta)]))) (\<lambda>_. Ret ()))
          (\<lambda>_. add_legacy sc delta)
      else add_legacy sc delta)"

definition usageCountedKey :: "string \<Rightarrow> key" where
  "usageCountedKey runId = runId @ '':usage-counted''"

text \<open>The cost cache of a host: a map, bounded or not.\<close>

definition bounded_cache_set :: "nat \<Rightarrow> string \<Rightarrow> 'v \<Rightarrow> 'v js_map \<Rightarrow> 'v js_map" where
  "bounded_cache_set maxEntries k v m =
     js_set k v (if \<not> js_has m k \<and> maxEntries \<le> length m then (case js_keys m of [] \<Rightarrow> m | oldest # ks \<Rightarrow> js_delete oldest m) else m)"

definition cache_set :: "nat option \<Rightarrow> string \<Rightarrow> 'v \<Rightarrow> 'v js_map \<Rightarrow> 'v js_map" where
  "cache_set bound k v m = (case bound of None \<Rightarrow> js_set k v m | Some n \<Rightarrow> bounded_cache_set n k v m)"

definition listAllRuns :: "string option \<Rightarrow> (js list) prog" where
  "listAllRuns sc = bindp (ext ''listRuns'' (case sc of None \<Rightarrow> JUndef | Some P \<Rightarrow> JStr P)) (\<lambda>rs. Ret (js_elems rs))"

definition run_id :: "js \<Rightarrow> string" where "run_id r = js_string (js_field ''runId'' r)"
definition run_completed :: "js \<Rightarrow> bool" where "run_completed r \<longleftrightarrow> js_field ''status'' r = JStr ''completed''"

text \<open>The price table, read at most once per call.\<close>

definition pricing_once :: "js_record \<Rightarrow> string option \<Rightarrow> js_record option \<Rightarrow> js_record prog" where
  "pricing_once defaults sc cached = (case cached of Some t \<Rightarrow> Ret t | None \<Rightarrow> effectivePricingTable defaults sc)"

text \<open>The loop over the runs that are not completed: the table, and the tokens and the cost so far.\<close>

definition live_run :: "js_record \<Rightarrow> string option \<Rightarrow> js_record option \<times> int \<times> int \<Rightarrow> js \<Rightarrow> (js_record option \<times> int \<times> int) prog" where
  "live_run defaults sc acc r =
     (if run_completed r then Ret acc
      else case acc of (cached, tokens, cost) \<Rightarrow>
        bindp (pricing_once defaults sc cached) (\<lambda>t.
        bindp (getRunCost defaults sc (run_id r) JUndef (Some t)) (\<lambda>rc. Ret (Some t, tokens + rc_totalTokens rc, cost + rc_costUsd rc))))"

text \<open>The full scan: the table, the cost cache, the totals of all runs and those of the completed runs.\<close>

record usage_scan =
  us_pricing :: "js_record option"
  us_cache :: "RunCost js_map"
  us_all :: OrganizationUsage
  us_backfill :: OrganizationUsage

definition add_run :: "RunCost \<Rightarrow> OrganizationUsage \<Rightarrow> OrganizationUsage" where
  "add_run rc u = \<lparr>ou_runs = ou_runs u + 1, ou_tokens = ou_tokens u + rc_totalTokens rc, ou_costUsd = ou_costUsd u + rc_costUsd rc\<rparr>"

definition scan_cost ::
  "js_record \<Rightarrow> string option \<Rightarrow> (nat option) option \<Rightarrow> string \<Rightarrow> usage_scan \<Rightarrow> js \<Rightarrow> (RunCost \<times> usage_scan) prog" where
  "scan_cost defaults sc bound cacheKey s r =
     (case (if run_completed r \<and> bound \<noteq> None then map_of (us_cache s) cacheKey else None) of
        Some rc \<Rightarrow> Ret (rc, s)
      | None \<Rightarrow>
          bindp (pricing_once defaults sc (us_pricing s)) (\<lambda>t.
          bindp (getRunCost defaults sc (run_id r) JUndef (Some t)) (\<lambda>rc.
            Ret (rc, s\<lparr>us_pricing := Some t,
              us_cache := (case bound of Some b \<Rightarrow> if run_completed r then cache_set b cacheKey rc (us_cache s) else us_cache s | None \<Rightarrow> us_cache s)\<rparr>))))"

definition scan_run :: "js_record \<Rightarrow> string option \<Rightarrow> (nat option) option \<Rightarrow> string option \<Rightarrow> usage_scan \<Rightarrow> js \<Rightarrow> usage_scan prog" where
  "scan_run defaults sc bound orgId s r =
     bindp (scan_cost defaults sc bound ((case orgId of None \<Rightarrow> [] | Some i \<Rightarrow> i) @ '':'' @ run_id r) s r) (\<lambda>(rc, s).
       Ret (s\<lparr>us_all := add_run rc (us_all s), us_backfill := (if run_completed r then add_run rc (us_backfill s) else us_backfill s)\<rparr>))"

definition mark_counted :: "string option \<Rightarrow> js \<Rightarrow> unit prog" where
  "mark_counted sc r =
     (if \<not> run_completed r then Ret ()
      else bindp (in_scope sc (get (usageCountedKey (run_id r)))) (\<lambda>v.
        if v = JUndef then in_scope sc (put (usageCountedKey (run_id r)) (JBool True)) else Ret ()))"

definition org_view :: "string option \<Rightarrow> (string option) prog" where
  "org_view orgId = (case orgId of None \<Rightarrow> Ret None | Some i \<Rightarrow> if i = [] then Ret None else liftp (map_sum id Some (orgPrefix i)))"

definition usage_from_counter :: "js_record \<Rightarrow> string option \<Rightarrow> bool \<Rightarrow> OrganizationUsage \<Rightarrow> OrganizationUsage prog" where
  "usage_from_counter defaults sc strict counted =
     (if \<not> strict then Ret counted
      else bindp (listAllRuns sc) (\<lambda>runs.
        bindp (foldp (live_run defaults sc) (None, 0, 0) runs) (\<lambda>(t, tokens, cost).
          Ret \<lparr>ou_runs = int (length runs), ou_tokens = ou_tokens counted + tokens, ou_costUsd = ou_costUsd counted + cost\<rparr>)))"

text \<open>\<open>cost_cache\<close>: the cache handed in, if any, with its bound; it is returned with the usage.\<close>

definition usage_from_scan ::
  "js_record \<Rightarrow> string option \<Rightarrow> string option \<Rightarrow> (nat option \<times> RunCost js_map) option \<Rightarrow> (OrganizationUsage \<times> RunCost js_map) prog" where
  "usage_from_scan defaults sc orgId cache =
     bindp (listAllRuns sc) (\<lambda>runs.
     bindp (foldp (scan_run defaults sc (map_option fst cache) orgId)
         \<lparr>us_pricing = None, us_cache = (case cache of Some c \<Rightarrow> snd c | None \<Rightarrow> []), us_all = no_usage, us_backfill = no_usage\<rparr> runs) (\<lambda>s.
     seqp (forp runs (mark_counted sc))
     (seqp (in_scope sc (put USAGE_KEY (usage_js (us_backfill s))))
       (Ret (us_all s, us_cache s)))))"

definition getOrgUsage ::
  "js_record \<Rightarrow> caps \<Rightarrow> bool \<Rightarrow> string option \<Rightarrow> (nat option \<times> RunCost js_map) option \<Rightarrow> bool \<Rightarrow> (OrganizationUsage \<times> RunCost js_map) prog" where
  "getOrgUsage defaults J hasListRuns orgId cache strict =
     bindp (org_view orgId) (\<lambda>sc.
       if \<not> hasListRuns then Ret (no_usage, case cache of Some c \<Rightarrow> snd c | None \<Rightarrow> [])
       else bindp (readUsageCounter J sc) (\<lambda>counted.
         case counted of
           Some u \<Rightarrow> bindp (usage_from_counter defaults sc strict u) (\<lambda>u. Ret (u, case cache of Some c \<Rightarrow> snd c | None \<Rightarrow> []))
         | None \<Rightarrow> usage_from_scan defaults sc orgId cache))"

definition recordRunUsage :: "js_record \<Rightarrow> caps \<Rightarrow> string option \<Rightarrow> string \<Rightarrow> unit prog" where
  "recordRunUsage defaults J sc runId =
     (if \<not> has_readRun J then Ret ()
      else bindp (in_scope sc (claim J (usageCountedKey runId) (JBool True))) (\<lambda>won.
        if \<not> won then Ret ()
        else bindp (getRunCost defaults sc runId JUndef None) (\<lambda>cost.
          addUsage J sc \<lparr>ou_runs = 1, ou_tokens = rc_totalTokens cost, ou_costUsd = rc_costUsd cost\<rparr>)))"

subsection \<open>The gate\<close>

record BudgetLimit =
  bl_usdLimit :: "int option"
  bl_tokenLimit :: "int option"

definition limit_field :: "js \<Rightarrow> int option" where
  "limit_field v = (case v of JNum n \<Rightarrow> Some n | _ \<Rightarrow> None)"

definition limit_of :: "js \<Rightarrow> BudgetLimit option" where
  "limit_of v =
     (let l = \<lparr>bl_usdLimit = limit_field (js_field ''usdLimit'' v), bl_tokenLimit = limit_field (js_field ''tokenLimit'' v)\<rparr> in
      if bl_usdLimit l \<noteq> None \<or> bl_tokenLimit l \<noteq> None then Some l else None)"

definition readBudget :: "string option \<Rightarrow> (BudgetLimit option) prog" where
  "readBudget orgId =
     bindp (case orgId of Some i \<Rightarrow> if i = [] then Ret JUndef else get (BUDGET_PRE @ i) | None \<Rightarrow> Ret JUndef) (\<lambda>own.
       case limit_of own of
         Some l \<Rightarrow> Ret (Some l)
       | None \<Rightarrow> bindp (get (BUDGET_PRE @ ''default'')) (\<lambda>d. Ret (limit_of d)))"

definition isBudgetExceeded :: "OrganizationUsage \<Rightarrow> BudgetLimit option \<Rightarrow> bool" where
  "isBudgetExceeded usage limit =
     (case limit of
        None \<Rightarrow> False
      | Some l \<Rightarrow> (case bl_usdLimit l of Some n \<Rightarrow> ou_costUsd usage > n | None \<Rightarrow> False)
          \<or> (case bl_tokenLimit l of Some n \<Rightarrow> ou_tokens usage > n | None \<Rightarrow> False))"

record BudgetCheck =
  bc_exceeded :: bool
  bc_usage :: OrganizationUsage
  bc_limit :: "BudgetLimit option"

definition checkBudget ::
  "js_record \<Rightarrow> caps \<Rightarrow> bool \<Rightarrow> string option \<Rightarrow> BudgetLimit option \<Rightarrow> (nat option \<times> RunCost js_map) option \<Rightarrow> bool \<Rightarrow> BudgetCheck prog" where
  "checkBudget defaults J hasListRuns orgId fallback cache strict =
     bindp (readBudget orgId) (\<lambda>own.
       let limit = (case own of Some l \<Rightarrow> Some l | None \<Rightarrow> fallback) in
       if (case limit of None \<Rightarrow> True | Some l \<Rightarrow> bl_usdLimit l = None \<and> bl_tokenLimit l = None)
       then Ret \<lparr>bc_exceeded = False, bc_usage = no_usage, bc_limit = None\<rparr>
       else bindp (getOrgUsage defaults J hasListRuns orgId cache strict) (\<lambda>(usage, c).
         Ret \<lparr>bc_exceeded = isBudgetExceeded usage limit, bc_usage = usage, bc_limit = limit\<rparr>))"

definition assertBudget ::
  "js_record \<Rightarrow> caps \<Rightarrow> bool \<Rightarrow> string option \<Rightarrow> BudgetLimit option \<Rightarrow> (nat option \<times> RunCost js_map) option \<Rightarrow> bool \<Rightarrow> BudgetCheck prog" where
  "assertBudget defaults J hasListRuns orgId fallback cache strict =
     bindp (checkBudget defaults J hasListRuns orgId fallback cache strict) (\<lambda>check.
       if bc_exceeded check then Raise (Err ''BudgetExceededError'' ''budget/quota exceeded'') else Ret check)"

section \<open>The counter and the scan\<close>

definition usage_counter :: "InMemoryJournal \<Rightarrow> OrganizationUsage option" where
  "usage_counter j =
     (let legacy = mem_get USAGE_KEY j; ctr = js_counters (mem_getCounters USAGE_KEY j) in
      if \<not> js_truthy legacy \<and> \<not> js_truthy ctr then None else Some (add_clamped (usage_field legacy) (usage_field ctr)))"

text \<open>The reference: the runs one by one.\<close>

definition usage_of :: "js_record \<Rightarrow> InMemoryJournal \<Rightarrow> js list \<Rightarrow> OrganizationUsage" where
  "usage_of table j runs = foldl (\<lambda>u r. add_run (run_cost table j (run_id r)) u) no_usage runs"

definition current_costs :: "js_record \<Rightarrow> InMemoryJournal \<Rightarrow> RunCost js_map \<Rightarrow> bool" where
  "current_costs table j cache \<longleftrightarrow> (\<forall>r rc. map_of cache (CHR '':'' # r) = Some rc \<longrightarrow> rc = run_cost table j r)"

lemma run_readUsageCounter: "has_getCounters J \<Longrightarrow> run env (readUsageCounter J None) w = (Inr (usage_counter (journal w)), w)"
  by (simp add: readUsageCounter_def in_scope_def prog_simps usage_counter_def Let_def)

lemma run_listAllRuns:
  "env (called w) ''listRuns'' JUndef = Inr (JArr runs) \<Longrightarrow> run env (listAllRuns None) w = (Inr runs, w\<lparr>called := called w @ [(''listRuns'', JUndef)]\<rparr>)"
  by (simp add: listAllRuns_def prog_simps)

lemma run_pricing_once:
  "cached = None \<or> cached = Some (pricing_table defaults (journal w)) \<Longrightarrow>
   run env (pricing_once defaults None cached) w = (Inr (pricing_table defaults (journal w)), w)"
  by (auto simp: pricing_once_def prog_simps)

lemma usage_of_sums:
  "ou_runs (usage_of t j runs) = int (length runs)"
  "ou_tokens (usage_of t j runs) = (\<Sum>r\<leftarrow>runs. rc_totalTokens (run_cost t j (run_id r)))"
  "ou_costUsd (usage_of t j runs) = (\<Sum>r\<leftarrow>runs. rc_costUsd (run_cost t j (run_id r)))"
proof -
  have "ou_runs (foldl (\<lambda>u r. add_run (run_cost t j (run_id r)) u) u runs) = ou_runs u + int (length runs)
    \<and> ou_tokens (foldl (\<lambda>u r. add_run (run_cost t j (run_id r)) u) u runs) = ou_tokens u + (\<Sum>r\<leftarrow>runs. rc_totalTokens (run_cost t j (run_id r)))
    \<and> ou_costUsd (foldl (\<lambda>u r. add_run (run_cost t j (run_id r)) u) u runs) = ou_costUsd u + (\<Sum>r\<leftarrow>runs. rc_costUsd (run_cost t j (run_id r)))" for u
    by (induction runs arbitrary: u) (simp_all add: add_run_def)
  then show "ou_runs (usage_of t j runs) = int (length runs)"
    "ou_tokens (usage_of t j runs) = (\<Sum>r\<leftarrow>runs. rc_totalTokens (run_cost t j (run_id r)))"
    "ou_costUsd (usage_of t j runs) = (\<Sum>r\<leftarrow>runs. rc_costUsd (run_cost t j (run_id r)))"
    by (simp_all add: usage_of_def no_usage_def)
qed

lemma sum_list_split: "(\<Sum>x\<leftarrow>filter P xs. f x) + (\<Sum>x\<leftarrow>filter (\<lambda>x. \<not> P x) xs. f x) = (\<Sum>x\<leftarrow>xs. f x :: int)"
  by (induction xs) auto

lemma run_live_run:
  assumes "cached = None \<or> cached = Some (pricing_table defaults (journal w))" and "rc = run_cost (pricing_table defaults (journal w)) (journal w) (run_id r)"
  shows "run env (live_run defaults None (cached, tokens, cost) r) w
    = (Inr (if run_completed r then (cached, tokens, cost) else (Some (pricing_table defaults (journal w)), tokens + rc_totalTokens rc, cost + rc_costUsd rc)), w)"
  using assms by (simp add: live_run_def prog_simps run_pricing_once)

lemma run_live_runs:
  assumes "cached = None \<or> cached = Some (pricing_table defaults (journal w))" and "t = pricing_table defaults (journal w)"
  shows "\<exists>cached'. run env (foldp (live_run defaults None) (cached, tokens, cost) runs) w
    = (Inr (cached', tokens + (\<Sum>r\<leftarrow>filter (\<lambda>r. \<not> run_completed r) runs. rc_totalTokens (run_cost t (journal w) (run_id r))),
        cost + (\<Sum>r\<leftarrow>filter (\<lambda>r. \<not> run_completed r) runs. rc_costUsd (run_cost t (journal w) (run_id r)))), w)"
  using assms(1)
proof (induction runs arbitrary: cached tokens cost)
  case (Cons r runs)
  let ?rc = "run_cost t (journal w) (run_id r)"
  show ?case
  proof (cases "run_completed r")
    case True
    with Cons show ?thesis by (simp add: run_live_run prog_simps)
  next
    case False
    with Cons.IH [of "Some t" "tokens + rc_totalTokens ?rc" "cost + rc_costUsd ?rc"] Cons.prems assms(2) show ?thesis
      by (simp add: run_live_run [where cached = cached, OF Cons.prems refl] prog_simps add.assoc)
  qed
qed simp

lemma current_costs_set:
  assumes "current_costs table j cache"
  shows "current_costs table j (cache_set b (CHR '':'' # r) (run_cost table j r) cache)"
  using assms
  by (auto simp: current_costs_def cache_set_def bounded_cache_set_def split: option.split list.split if_splits)

lemma run_scan_run:
  assumes "current_costs (pricing_table defaults (journal w)) (journal w) (us_cache s)"
    and "us_pricing s = None \<or> us_pricing s = Some (pricing_table defaults (journal w))" and "t = pricing_table defaults (journal w)"
  shows "\<exists>s'. run env (scan_run defaults None bound None s r) w = (Inr s', w)
    \<and> us_all s' = add_run (run_cost t (journal w) (run_id r)) (us_all s)
    \<and> us_backfill s' = (if run_completed r then add_run (run_cost t (journal w) (run_id r)) (us_backfill s) else us_backfill s)
    \<and> current_costs t (journal w) (us_cache s') \<and> (us_pricing s' = None \<or> us_pricing s' = Some t)"
proof (cases "if run_completed r \<and> bound \<noteq> None then map_of (us_cache s) (CHR '':'' # run_id r) else None")
  case None
  then show ?thesis
    using assms current_costs_set [OF assms(1)]
    by (auto simp: scan_run_def scan_cost_def prog_simps run_pricing_once split: option.split)
next
  case (Some rc)
  then have "rc = run_cost t (journal w) (run_id r)" using assms(1,3) by (auto simp: current_costs_def split: if_splits)
  with Some assms show ?thesis by (simp add: scan_run_def scan_cost_def prog_simps)
qed

lemma run_scan_runs:
  assumes "current_costs (pricing_table defaults (journal w)) (journal w) (us_cache s)"
    and "us_pricing s = None \<or> us_pricing s = Some (pricing_table defaults (journal w))" and "t = pricing_table defaults (journal w)"
  shows "\<exists>s'. run env (foldp (scan_run defaults None bound None) s runs) w = (Inr s', w)
    \<and> us_all s' = foldl (\<lambda>u r. add_run (run_cost t (journal w) (run_id r)) u) (us_all s) runs
    \<and> us_backfill s' = foldl (\<lambda>u r. add_run (run_cost t (journal w) (run_id r)) u) (us_backfill s) (filter run_completed runs)"
  using assms(1,2)
proof (induction runs arbitrary: s)
  case (Cons r runs)
  obtain s1 where s1: "run env (scan_run defaults None bound None s r) w = (Inr s1, w)"
    "us_all s1 = add_run (run_cost t (journal w) (run_id r)) (us_all s)"
    "us_backfill s1 = (if run_completed r then add_run (run_cost t (journal w) (run_id r)) (us_backfill s) else us_backfill s)"
    "current_costs t (journal w) (us_cache s1)" "us_pricing s1 = None \<or> us_pricing s1 = Some t"
    using run_scan_run [OF Cons.prems assms(3)] by blast
  with Cons.IH [of s1] assms(3) show ?case by (auto simp: prog_simps)
qed simp

text \<open>Marking the completed runs leaves the usage records alone.\<close>

lemma usage_key_no_marker [simp]: "usageCountedKey r \<noteq> USAGE_KEY" "USAGE_KEY \<noteq> usageCountedKey r"
proof -
  have "length (usageCountedKey r) \<noteq> length USAGE_KEY" by (simp add: usageCountedKey_def USAGE_KEY_def)
  then show "usageCountedKey r \<noteq> USAGE_KEY" "USAGE_KEY \<noteq> usageCountedKey r" by metis+
qed

lemma run_mark_counted:
  "\<exists>w'. run env (forp runs (mark_counted None)) w = (Inr (), w') \<and> mem_getCounters USAGE_KEY (journal w') = mem_getCounters USAGE_KEY (journal w)
     \<and> mem_get USAGE_KEY (journal w') = mem_get USAGE_KEY (journal w)"
proof (induction runs arbitrary: w)
  case (Cons r runs)
  have "\<exists>w1. run env (mark_counted None r) w = (Inr (), w1) \<and> mem_getCounters USAGE_KEY (journal w1) = mem_getCounters USAGE_KEY (journal w)
     \<and> mem_get USAGE_KEY (journal w1) = mem_get USAGE_KEY (journal w)"
    by (auto simp: mark_counted_def in_scope_def prog_simps mem_getCounters_def mem_put_def mem_get_def)
  then obtain w1 where w1: "run env (mark_counted None r) w = (Inr (), w1)" "mem_getCounters USAGE_KEY (journal w1) = mem_getCounters USAGE_KEY (journal w)"
    "mem_get USAGE_KEY (journal w1) = mem_get USAGE_KEY (journal w)" by blast
  with Cons.IH [of w1] show ?case by (auto simp: prog_simps)
qed simp

lemma usage_of_nonneg:
  assumes "\<forall>r \<in> set runs. 0 \<le> rc_totalTokens (run_cost t j (run_id r)) \<and> 0 \<le> rc_costUsd (run_cost t j (run_id r))"
  shows "0 \<le> ou_runs (usage_of t j runs)" "0 \<le> ou_tokens (usage_of t j runs)" "0 \<le> ou_costUsd (usage_of t j runs)"
  using assms by (auto simp: usage_of_sums intro!: sum_list_nonneg)

lemma usage_of_completed:
  "usage_of t j runs =
     \<lparr>ou_runs = int (length runs),
      ou_tokens = ou_tokens (usage_of t j (filter run_completed runs)) + (\<Sum>r\<leftarrow>filter (\<lambda>r. \<not> run_completed r) runs. rc_totalTokens (run_cost t j (run_id r))),
      ou_costUsd = ou_costUsd (usage_of t j (filter run_completed runs)) + (\<Sum>r\<leftarrow>filter (\<lambda>r. \<not> run_completed r) runs. rc_costUsd (run_cost t j (run_id r)))\<rparr>"
  by (rule OrganizationUsage.equality) (simp_all add: usage_of_sums sum_list_split)

lemma run_usage_from_counter:
  assumes "env (called w) ''listRuns'' JUndef = Inr (JArr runs)" and "t = pricing_table defaults (journal w)"
    and "counted = usage_of t (journal w) (filter run_completed runs)"
  shows "\<exists>w'. run env (usage_from_counter defaults None True counted) w = (Inr (usage_of t (journal w) runs), w') \<and> journal w' = journal w"
proof -
  define w1 where "w1 = w\<lparr>called := called w @ [(''listRuns'', JUndef)]\<rparr>"
  have j: "journal w1 = journal w" by (simp add: w1_def)
  obtain c where "run env (foldp (live_run defaults None) (None, 0, 0) runs) w1
    = (Inr (c, (\<Sum>r\<leftarrow>filter (\<lambda>r. \<not> run_completed r) runs. rc_totalTokens (run_cost t (journal w) (run_id r))),
        (\<Sum>r\<leftarrow>filter (\<lambda>r. \<not> run_completed r) runs. rc_costUsd (run_cost t (journal w) (run_id r)))), w1)"
    using run_live_runs [where cached = None and tokens = 0 and cost = 0 and w = w1 and t = t and defaults = defaults and runs = runs and env = env] assms(2) j by auto
  then show ?thesis
    unfolding usage_of_completed [of t "journal w" runs] using run_listAllRuns [where env = env and w = w, OF assms(1)] j assms(3)
    by (intro exI [of _ w1]) (simp add: usage_from_counter_def run_bindp w1_def [symmetric])
qed

lemma usage_field_js [simp]:
  "usage_field (usage_js u) ''runs'' = ou_runs u" "usage_field (usage_js u) ''tokens'' = ou_tokens u" "usage_field (usage_js u) ''costUsd'' = ou_costUsd u"
  "js_truthy (usage_js u)" "usage_field JUndef f = 0"
  by (simp_all add: usage_field_def usage_js_def)

lemma usage_counter_written:
  assumes "mem_get USAGE_KEY j = usage_js u" and "mem_getCounters USAGE_KEY j = None" and "0 \<le> ou_runs u" "0 \<le> ou_tokens u" "0 \<le> ou_costUsd u"
  shows "usage_counter j = Some u"
  using assms by (simp add: usage_counter_def js_counters_def add_clamped_def)

lemma run_usage_from_scan:
  assumes "env (called w) ''listRuns'' JUndef = Inr (JArr runs)" and "t = pricing_table defaults (journal w)"
    and "\<forall>c. cache = Some c \<longrightarrow> current_costs t (journal w) (snd c)" and "usage_counter (journal w) = None"
    and "\<forall>r \<in> set runs. 0 \<le> rc_totalTokens (run_cost t (journal w) (run_id r)) \<and> 0 \<le> rc_costUsd (run_cost t (journal w) (run_id r))"
  shows "\<exists>c' w'. run env (usage_from_scan defaults None None cache) w = (Inr (usage_of t (journal w) runs, c'), w')
    \<and> usage_counter (journal w') = Some (usage_of t (journal w) (filter run_completed runs))"
proof -
  define w1 where "w1 = w\<lparr>called := called w @ [(''listRuns'', JUndef)]\<rparr>"
  have j: "journal w1 = journal w" by (simp add: w1_def)
  define s where "s = \<lparr>us_pricing = None, us_cache = (case cache of Some c \<Rightarrow> snd c | None \<Rightarrow> []), us_all = no_usage, us_backfill = no_usage\<rparr>"
  have "current_costs t (journal w) (us_cache s)" using assms(3) by (auto simp: s_def current_costs_def split: option.split)
  then obtain s' where s': "run env (foldp (scan_run defaults None (map_option fst cache) None) s runs) w1 = (Inr s', w1)"
    "us_all s' = usage_of t (journal w) runs" "us_backfill s' = usage_of t (journal w) (filter run_completed runs)"
    using run_scan_runs [where s = s and w = w1 and t = t and defaults = defaults and runs = runs and env = env and bound = "map_option fst cache"] assms(2) j
    by (auto simp: s_def usage_of_def)
  obtain w2 where w2: "run env (forp runs (mark_counted None)) w1 = (Inr (), w2)" "mem_getCounters USAGE_KEY (journal w2) = mem_getCounters USAGE_KEY (journal w)"
    using run_mark_counted [of env runs w1] j by metis
  define w3 where "w3 = w2\<lparr>journal := mem_put (clock w2) USAGE_KEY (usage_js (us_backfill s')) (journal w2)\<rparr>"
  have r: "run env (usage_from_scan defaults None None cache) w = (Inr (us_all s', us_cache s'), w3)"
    using run_listAllRuns [where env = env and w = w, OF assms(1)] s'(1) w2(1) by (simp add: usage_from_scan_def run_bindp w1_def [symmetric] s_def [symmetric] in_scope_def run_seqp run_put w3_def)
  have "mem_getCounters USAGE_KEY (journal w) = None"
    using assms(4) by (auto simp: usage_counter_def Let_def js_counters_def split: if_splits option.splits)
  then have "mem_getCounters USAGE_KEY (journal w3) = None" "mem_get USAGE_KEY (journal w3) = usage_js (us_backfill s')"
    using w2(2) by (simp_all add: w3_def mem_getCounters_def mem_get_def mem_put_def)
  then have "usage_counter (journal w3) = Some (us_backfill s')"
    using s'(3) usage_of_nonneg [of "filter run_completed runs" t "journal w"] assms(5) by (intro usage_counter_written) simp_all
  with r s'(2,3) show ?thesis by auto
qed

section \<open>Recording a run\<close>

lemma usage_field_counters: "usage_field (js_counters c) f = amount c f"
proof (cases c)
  case (Some m)
  have "map_of (map (map_prod id JNum) m) f = map_option JNum (map_of m f)" by (induction m) auto
  with Some show ?thesis by (simp add: usage_field_def js_counters_def amount_def split: option.split)
qed (simp add: usage_field_def js_counters_def amount_def)

lemma usage_field_falsy: "\<not> js_truthy v \<Longrightarrow> usage_field v f = 0"
  by (cases v) (auto simp: usage_field_def)

lemma amount_incr: "amount (mem_getCounters k (mem_incrBy k flds j)) f = amount (mem_getCounters k j) f + field_sum flds f"
  by (simp add: mem_getCounters_def mem_incrBy_def Let_def amount_foldl_add_field split: option.split)
    (simp add: amount_def)

lemma usage_counter_fields:
  "(case usage_counter j of Some u \<Rightarrow> u | None \<Rightarrow> no_usage)
     = add_clamped (usage_field (mem_get USAGE_KEY j)) (amount (mem_getCounters USAGE_KEY j))"
  by (auto simp: usage_counter_def Let_def usage_field_falsy usage_field_counters [symmetric] no_usage_def add_clamped_def split: option.split)

lemma usage_counter_incr:
  assumes "\<And>f. 0 \<le> usage_field (mem_get USAGE_KEY j) f + amount (mem_getCounters USAGE_KEY j) f" and "0 \<le> a" "0 \<le> b"
  shows "usage_counter (mem_incrBy USAGE_KEY [(''runs'', 1), (''tokens'', a), (''costUsd'', b)] j)
    = Some (let u = (case usage_counter j of Some u \<Rightarrow> u | None \<Rightarrow> no_usage) in \<lparr>ou_runs = ou_runs u + 1, ou_tokens = ou_tokens u + a, ou_costUsd = ou_costUsd u + b\<rparr>)"
proof -
  let ?j = "mem_incrBy USAGE_KEY [(''runs'', 1), (''tokens'', a), (''costUsd'', b)] j"
  have same: "mem_get USAGE_KEY ?j = mem_get USAGE_KEY j" by (simp add: mem_get_def mem_incrBy_def Let_def)
  have "js_truthy (js_counters (mem_getCounters USAGE_KEY ?j))" by (simp add: js_counters_def mem_getCounters_def mem_incrBy_def Let_def)
  then have "usage_counter ?j = Some (add_clamped (usage_field (mem_get USAGE_KEY j)) (amount (mem_getCounters USAGE_KEY ?j)))"
    using same by (simp add: usage_counter_def Let_def usage_field_counters [abs_def])
  then show ?thesis
    unfolding usage_counter_fields Let_def using assms(2,3) assms(1) [of "''runs''"] assms(1) [of "''tokens''"] assms(1) [of "''costUsd''"]
    by (simp add: add_clamped_def amount_incr)
qed

lemma marker_not_of_run: "parseJournalKey (usageCountedKey r) \<noteq> Some (r, kd)"
proof
  assume "parseJournalKey (usageCountedKey r) = Some (r, kd)"
  then have "last_kind (usageCountedKey r) = Some (r, kd)" by (simp add: parseJournalKey_def split: if_splits)
  from last_kind_split [OF this] show False by (auto simp: usageCountedKey_def)
qed

text \<open>
  A completed run is counted when it is recorded for the first time, with its cost at that time, and never again: recording it again changes nothing.
\<close>

lemma recordRunUsage_counts:
  assumes "has_putIfAbsent J" "has_incrBy J" "has_readRun J"
    and "\<And>f. 0 \<le> usage_field (mem_get USAGE_KEY (journal w)) f + amount (mem_getCounters USAGE_KEY (journal w)) f"
    and "c = run_cost (pricing_table defaults (journal w)) (journal w) r" and "0 \<le> rc_totalTokens c" "0 \<le> rc_costUsd c"
  shows "\<exists>w'. run env (recordRunUsage defaults J None r) w = (Inr (), w') \<and> js_has (store (journal w')) (usageCountedKey r)
    \<and> (if js_has (store (journal w)) (usageCountedKey r) then w' = w
       else usage_counter (journal w') = Some (add_run c (case usage_counter (journal w) of Some u \<Rightarrow> u | None \<Rightarrow> no_usage)))"
proof (cases "js_has (store (journal w)) (usageCountedKey r)")
  case True
  with assms(1,3) show ?thesis by (simp add: recordRunUsage_def in_scope_def claim_def prog_simps mem_putIfAbsent_def)
next
  case False
  define j1 where "j1 = snd (mem_putIfAbsent (clock w) (usageCountedKey r) (JBool True) (journal w))"
  have same: "same_but (usageCountedKey r) (journal w) j1" 
    using False by (auto simp: j1_def mem_putIfAbsent_def same_but_def js_set_new domIff)
  have rd: "mem_readRun r j1 = mem_readRun r (journal w)" by (rule readRun_same [OF same]) (rule marker_not_of_run)
  have "PRICING_KEY \<noteq> usageCountedKey r"
  proof
    assume "PRICING_KEY = usageCountedKey r"
    then have "length PRICING_KEY = length (usageCountedKey r)" by simp
    then show False by (simp add: PRICING_KEY_def usageCountedKey_def)
  qed
  then have keep: "mem_get PRICING_KEY j1 = mem_get PRICING_KEY (journal w)" "mem_get USAGE_KEY j1 = mem_get USAGE_KEY (journal w)"
    "mem_getCounters USAGE_KEY j1 = mem_getCounters USAGE_KEY (journal w)" "js_has (store j1) (usageCountedKey r)"
    by (simp_all add: j1_def mem_putIfAbsent_def mem_get_def mem_getCounters_def)
  then have cost: "run_cost (pricing_table defaults j1) j1 r = c" using rd assms(5) by (simp add: run_cost_def pricing_table_def)
  have "usage_counter j1 = usage_counter (journal w)" using keep by (simp add: usage_counter_def)
  then have "usage_counter (mem_incrBy USAGE_KEY [(''runs'', 1), (''tokens'', rc_totalTokens c), (''costUsd'', rc_costUsd c)] j1)
      = Some (add_run c (case usage_counter (journal w) of Some u \<Rightarrow> u | None \<Rightarrow> no_usage))"
    using usage_counter_incr [of j1] keep assms(4,6,7) by (simp add: add_run_def Let_def)
  moreover have "mem_putIfAbsent (clock w) (usageCountedKey r) (JBool True) (journal w) = (True, j1)"
    using False by (simp add: j1_def mem_putIfAbsent_def)
  ultimately show ?thesis
    using assms(1-3) False cost keep(4)
    by (simp add: recordRunUsage_def in_scope_def claim_def prog_simps addUsage_def mem_incrBy_def Let_def)
qed

section \<open>Counting under concurrency\<close>

text \<open>
  A worker that creates the marker of a run holds the right to one increment of the usage counter. Everything else a worker of this component does leaves
  the counter alone and removes no record.
\<close>

datatype counting = Idle | Won key | Spent key

fun counting_key :: "counting \<Rightarrow> key option" where
  "counting_key Idle = None"
| "counting_key (Won k) = Some k"
| "counting_key (Spent k) = Some k"

definition is_marker :: "key \<Rightarrow> bool" where
  "is_marker k \<longleftrightarrow> (\<exists>r. k = usageCountedKey r)"

fun count_allowed :: "counting \<Rightarrow> jop \<Rightarrow> bool" where
  "count_allowed g (JPutIfAbsent k v) = (is_marker k \<and> g = Idle)"
| "count_allowed g (JDeletePrefix p) = False"
| "count_allowed g (JIncrBy k fs) = ((\<exists>m. g = Won m) \<and> field_sum fs ''runs'' \<le> 1)"
| "count_allowed g c = True"

fun count_upd :: "counting \<Rightarrow> jop \<Rightarrow> err + js \<Rightarrow> counting" where
  "count_upd g (JPutIfAbsent k v) r = (if r = Inr (JBool True) then Won k else g)"
| "count_upd g (JIncrBy k fs) r = (case counting_key g of Some m \<Rightarrow> Spent m | None \<Rightarrow> g)"
| "count_upd g c r = g"

definition counted_runs :: "world \<Rightarrow> int" where
  "counted_runs w = amount (mem_getCounters USAGE_KEY (journal w)) ''runs''"

definition spent :: "(nat \<Rightarrow> counting) \<Rightarrow> nat set" where
  "spent gs = {i. \<exists>k. gs i = Spent k}"

definition new_key :: "world \<Rightarrow> world \<Rightarrow> key \<Rightarrow> bool" where
  "new_key w0 w k \<longleftrightarrow> is_marker k \<and> js_has (store (journal w)) k \<and> \<not> js_has (store (journal w0)) k"

definition holds_apart :: "world \<Rightarrow> world \<Rightarrow> (nat \<Rightarrow> counting) \<Rightarrow> bool" where
  "holds_apart w0 w gs \<longleftrightarrow> dom (map_of (store (journal w0))) \<subseteq> dom (map_of (store (journal w)))
     \<and> (\<forall>i k. counting_key (gs i) = Some k \<longrightarrow> new_key w0 w k)
     \<and> (\<forall>i j k. counting_key (gs i) = Some k \<and> counting_key (gs j) = Some k \<longrightarrow> i = j)"

definition count_inv :: "world \<Rightarrow> world \<Rightarrow> (nat \<Rightarrow> counting) \<Rightarrow> bool" where
  "count_inv w0 w gs \<longleftrightarrow> holds_apart w0 w gs \<and> counted_runs w \<le> counted_runs w0 + int (card (spent gs))"

definition count_resp :: "counting \<Rightarrow> jop \<Rightarrow> err + js \<Rightarrow> bool" where
  "count_resp g c r \<longleftrightarrow> possible c r"

lemma finite_new_keys: "finite {k. new_key w0 w k}"
  by (rule finite_subset [of _ "dom (map_of (store (journal w)))"]) (auto simp: new_key_def finite_dom_map_of)

lemma spent_inj:
  assumes "holds_apart w0 w gs"
  shows "inj_on (the \<circ> counting_key \<circ> gs) (spent gs)" and "(the \<circ> counting_key \<circ> gs) ` spent gs \<subseteq> {k. new_key w0 w k}"
proof -
  show "inj_on (the \<circ> counting_key \<circ> gs) (spent gs)"
    using assms by (auto simp: holds_apart_def spent_def inj_on_def)
  show "(the \<circ> counting_key \<circ> gs) ` spent gs \<subseteq> {k. new_key w0 w k}"
    using assms by (auto simp: holds_apart_def spent_def) (metis counting_key.simps(3))
qed

lemma spent_bound:
  assumes "holds_apart w0 w gs"
  shows "finite (spent gs)" and "card (spent gs) \<le> card {k. new_key w0 w k}"
  using inj_on_finite [OF spent_inj [OF assms] finite_new_keys] card_inj_on_le [OF spent_inj [OF assms] finite_new_keys] .

lemma holds_apart_grow:
  assumes "holds_apart w0 w gs" and "dom (map_of (store (journal w))) \<subseteq> dom (map_of (store (journal w')))"
  shows "holds_apart w0 w' gs"
proof -
  have "new_key w0 w' k" if "new_key w0 w k" for k using that subsetD [OF assms(2), of k] by (simp add: new_key_def)
  with assms show ?thesis unfolding holds_apart_def by blast
qed

lemma count_store_grows:
  assumes "count_allowed g c" and "answer c w r w'"
  shows "dom (map_of (store (journal w))) \<subseteq> dom (map_of (store (journal w')))"
proof -
  have "dom (map_of (store (journal w))) \<subseteq> dom (map_of (store (journal w1)))" if "journal_op c w = Some (r1, w1)" for r1 w1
    using that assms(1) by (cases c) (auto simp: mem_put_def mem_putIfAbsent_def mem_putIfMatch_def mem_incrBy_def Let_def split: prod.splits if_splits)
  with assms(2) show ?thesis by (cases rule: answer.cases) auto
qed

lemma count_runs_step:
  assumes "count_allowed g c" and "answer c w r w'"
  shows "counted_runs w' \<le> counted_runs w + (case c of JIncrBy k fs \<Rightarrow> 1 | _ \<Rightarrow> 0)"
proof -
  have step: "counted_runs w1 \<le> counted_runs w + (case c of JIncrBy k fs \<Rightarrow> 1 | _ \<Rightarrow> 0)" if j: "journal_op c w = Some (r1, w1)" for r1 w1
  proof (cases "\<exists>k fs. c = JIncrBy k fs")
    case True
    then obtain k fs where c: "c = JIncrBy k fs" by blast
    then have w1: "w1 = w\<lparr>journal := mem_incrBy k fs (journal w)\<rparr>" and f: "field_sum fs ''runs'' \<le> 1" using j assms(1) by auto
    have "mem_getCounters USAGE_KEY (mem_incrBy k fs (journal w)) = mem_getCounters USAGE_KEY (journal w)" if "k \<noteq> USAGE_KEY"
      using that by (simp add: mem_getCounters_def mem_incrBy_def Let_def)
    then show ?thesis using f by (cases "k = USAGE_KEY") (simp_all add: c w1 counted_runs_def amount_incr)
  next
    case False
    then have "counters (journal w1) = counters (journal w)"
      using j assms(1) by (cases c) (auto simp: mem_put_def mem_putIfAbsent_def mem_putIfMatch_def split: prod.splits if_splits)
    with False show ?thesis by (cases c) (simp_all add: counted_runs_def mem_getCounters_def)
  qed
  have pos: "(0 :: int) \<le> (case c of JIncrBy k fs \<Rightarrow> 1 | _ \<Rightarrow> 0)" by (cases c) simp_all
  from assms(2) show ?thesis
    by (cases rule: answer.cases) (use step pos in \<open>auto simp: counted_runs_def\<close>)
qed

lemma count_inv_won:
  assumes "count_inv w0 w gs" and "count_allowed (gs i) (JPutIfAbsent k v)" and "answer (JPutIfAbsent k v) w (Inr (JBool True)) w'"
  shows "holds_apart w0 w' (gs(i := Won k))" and "spent (gs(i := Won k)) = spent gs"
proof -
  have apart: "holds_apart w0 w' gs"
    using assms(1) holds_apart_grow [OF _ count_store_grows [OF assms(2,3)]] by (simp add: count_inv_def)
  have k: "\<not> js_has (store (journal w)) k" "js_has (store (journal w')) k"
    using assms(3) by (auto simp: answer_JPutIfAbsent mem_putIfAbsent_def split: if_splits)
  have fresh: "counting_key (gs j) \<noteq> Some k" for j
    using assms(1) k(1) by (auto simp: count_inv_def holds_apart_def new_key_def)
  have "new_key w0 w' k" using assms(1,2) k by (auto simp: count_inv_def holds_apart_def new_key_def)
  with apart fresh show "holds_apart w0 w' (gs(i := Won k))" by (auto simp: holds_apart_def)
  show "spent (gs(i := Won k)) = spent gs" using assms(2) by (auto simp: spent_def)
qed

lemma count_inv_spent:
  assumes "holds_apart w0 w' gs" and "gs i = Won m"
  shows "holds_apart w0 w' (gs(i := Spent m))" and "card (spent (gs(i := Spent m))) = Suc (card (spent gs))"
proof -
  have "counting_key ((gs(i := Spent m)) j) = counting_key (gs j)" for j using assms(2) by simp
  then show "holds_apart w0 w' (gs(i := Spent m))" using assms(1) unfolding holds_apart_def by presburger
  have "spent (gs(i := Spent m)) = insert i (spent gs)" "i \<notin> spent gs" using assms(2) by (auto simp: spent_def)
  then show "card (spent (gs(i := Spent m))) = Suc (card (spent gs))" using spent_bound(1) [OF assms(1)] by simp
qed

lemma count_inv_answer:
  assumes inv: "count_inv w0 w gs" and al: "count_allowed (gs i) c" and ans: "answer c w r w'"
  shows "count_inv w0 w' (gs(i := count_upd (gs i) c r))"
proof -
  have apart: "holds_apart w0 w' gs" using inv holds_apart_grow [OF _ count_store_grows [OF al ans]] by (simp add: count_inv_def)
  note runs = count_runs_step [OF al ans]
  consider (won) k v where "c = JPutIfAbsent k v" "r = Inr (JBool True)" | (incr) k fs m where "c = JIncrBy k fs" "gs i = Won m"
    | (same) "count_upd (gs i) c r = gs i" "\<forall>k fs. c \<noteq> JIncrBy k fs"
    using al by (cases c; cases "r = Inr (JBool True)") auto
  then show ?thesis
  proof cases
    case won
    with count_inv_won [OF inv] al ans runs inv show ?thesis by (simp add: count_inv_def)
  next
    case incr
    with count_inv_spent [OF apart incr(2)] runs inv show ?thesis by (simp add: count_inv_def)
  next
    case same
    then have "counted_runs w' \<le> counted_runs w" using runs by (cases c) auto
    with same(1) apart inv show ?thesis by (simp add: count_inv_def)
  qed
qed

interpretation counting: protocol count_allowed count_upd Idle "count_inv w0" count_resp for w0
  by unfold_locales (fact count_inv_answer, simp add: count_inv_def holds_apart_def new_key_def counted_runs_def, auto simp: count_resp_def possible_def)

abbreviation count_wp :: "'a prog \<Rightarrow> counting \<Rightarrow> (counting \<Rightarrow> err + 'a \<Rightarrow> bool) \<Rightarrow> bool" where
  "count_wp \<equiv> wp count_resp count_allowed count_upd"

text \<open>Calls that are always allowed and say nothing about the counter.\<close>

fun uncounted :: "jop \<Rightarrow> bool" where
  "uncounted (JPutIfAbsent k v) = False"
| "uncounted (JDeletePrefix p) = False"
| "uncounted (JIncrBy k fs) = False"
| "uncounted c = True"

lemma uncounted_wp: "calls_in uncounted p \<Longrightarrow> (\<And>r. Q g r) \<Longrightarrow> count_wp p g Q"
proof (rule wp_calls_in [where P = uncounted])
  show "count_allowed g c" if "uncounted c" for c using that by (cases c) auto
  show "count_upd g c r = g" if "uncounted c" for c r using that by (cases c) auto
qed

lemma uncounted_cost: "calls_in uncounted (getRunCost defaults None r m pr)" "calls_in uncounted (effectivePricingTable defaults None)"
  by (auto simp: getRunCost_def effectivePricingTable_def readPricing_def in_scope_def callp_def intro!: calls_in_bindp split: option.split)

lemma uncounted_scan: "calls_in uncounted (scan_run defaults None bound None s r)" "calls_in uncounted (live_run defaults None acc r)"
  "calls_in uncounted (mark_counted None r)"
  by (auto simp: scan_run_def scan_cost_def live_run_def pricing_once_def mark_counted_def in_scope_def uncounted_cost intro!: calls_in_bindp calls_in_ops_bound split: option.split prod.split)

lemma uncounted_usage: "calls_in uncounted (getOrgUsage defaults J h None cache strict)"
  by (auto simp: getOrgUsage_def org_view_def readUsageCounter_def usage_from_counter_def usage_from_scan_def listAllRuns_def in_scope_def callp_def
      intro!: calls_in_bindp calls_in_seqp calls_in_foldp calls_in_forp uncounted_scan calls_in_ops_bound split: option.split prod.split)

lemma wp_addUsage:
  assumes "ou_runs delta \<le> 1"
  shows "count_wp (addUsage J None delta) (Won k) (\<lambda>_ _. True)"
proof -
  have legacy: "count_wp (add_legacy None delta) g (\<lambda>_ _. True)" for g
    by (rule uncounted_wp) (auto simp: add_legacy_def in_scope_def intro!: calls_in_bindp calls_in_ops_bound)
  then show ?thesis using assms by (auto simp: addUsage_def in_scope_def wp_catchp wp_bindp wp_callp split: sum.split)
qed

lemma wp_recordRunUsage:
  assumes "has_putIfAbsent J"
  shows "count_wp (recordRunUsage defaults J None r) Idle (\<lambda>_ _. True)"
proof -
  have counted: "count_wp (bindp (getRunCost defaults None r JUndef None) (\<lambda>cost.
      addUsage J None \<lparr>ou_runs = 1, ou_tokens = rc_totalTokens cost, ou_costUsd = rc_costUsd cost\<rparr>)) (Won k) (\<lambda>_ _. True)" for k
    unfolding wp_bindp by (rule uncounted_wp [OF uncounted_cost(1)]) (auto intro: wp_addUsage split: sum.split)
  then show ?thesis
    using assms by (auto simp: recordRunUsage_def in_scope_def claim_def putIfAbsent_def wp_bindp [of _ _ _ "bindp (callp _) _"] wp_bindp [of _ _ _ "callp _"] wp_callp
        is_marker_def count_resp_def possible_putIfAbsent split: sum.split)
qed

section \<open>Properties\<close>


text \<open>A priced run, completed, and one that is suspended.\<close>

definition step_record :: "int \<Rightarrow> js" where
  "step_record n = JObj [(''usage'', JObj [(''inputTokens'', JNum n), (''outputTokens'', JNum 1)]), (''response'', JObj [(''modelId'', JStr ''m'')])]"

definition price_list :: js_record where
  "price_list = [(''m'', JObj [(''inputPer1M'', JNum 2), (''outputPer1M'', JNum 3)])]"

definition usage_world :: world where
  "usage_world = new_world\<lparr>journal := mem_put 1 ''b:model:0'' (step_record 5) (mem_put 0 ''a:model:0'' (step_record 4) empty_journal)\<rparr>"

definition usage_runs :: "js list" where
  "usage_runs = [JObj [(''runId'', JStr ''a''), (''status'', JStr ''completed'')], JObj [(''runId'', JStr ''b''), (''status'', JStr ''suspended'')]]"

definition usage_env :: env where
  "usage_env _ _ _ = Inr (JArr usage_runs)"

lemma usage_world_facts:
  "usage_counter (journal usage_world) = None"
  "map (rc_totalTokens \<circ> run_cost (pricing_table price_list (journal usage_world)) (journal usage_world) \<circ> run_id) usage_runs = [5, 6]"
  "map (rc_costUsd \<circ> run_cost (pricing_table price_list (journal usage_world)) (journal usage_world) \<circ> run_id) usage_runs = [11, 13]"
  "usage_of (pricing_table price_list (journal usage_world)) (journal usage_world) usage_runs = \<lparr>ou_runs = 2, ou_tokens = 11, ou_costUsd = 24\<rparr>"
  "usage_of (pricing_table price_list (journal usage_world)) (journal usage_world) (filter run_completed usage_runs) = \<lparr>ou_runs = 1, ou_tokens = 5, ou_costUsd = 11\<rparr>"
  by code_simp+


text \<open>
  C13: No run is counted twice by the atomic counter. Any number of workers record finished runs, each run any number of times, and compute usages (which
  fills the counter in), in any interleaving with crashes and with calls that fail before or after they took effect: the counter never grows by more
  than the number of runs that got their marker.
\<close>

theorem usage_counts_each_run_once:
  assumes "has_putIfAbsent J"
    and "S = {recordRunUsage defaults J None r | r. True} \<union> {seqp (getOrgUsage defaults J h None cache strict) (Ret ()) | h cache strict. True}"
    and "reachable S w c"
  shows "counted_runs (cworld c) \<le> counted_runs w
    + int (card {r. js_has (store (journal (cworld c))) (usageCountedKey r) \<and> \<not> js_has (store (journal w)) (usageCountedKey r)})"
proof -
  have wps: "count_wp p Idle (\<lambda>_ _. True)" if "p \<in> S" for p
    using that assms(2) by (auto intro: wp_recordRunUsage [OF assms(1)] uncounted_wp [OF calls_in_seqp [OF uncounted_usage]])
  have "count_inv w w (\<lambda>_. Idle)" by (simp add: count_inv_def holds_apart_def spent_def)
  then obtain gs where inv: "count_inv w (cworld c) gs" using counting.reachable_inv [OF assms(3) _ wps] by blast
  have "{k. new_key w (cworld c) k} = usageCountedKey ` {r. js_has (store (journal (cworld c))) (usageCountedKey r) \<and> \<not> js_has (store (journal w)) (usageCountedKey r)}"
    by (auto simp: new_key_def is_marker_def)
  moreover have "inj usageCountedKey" by (auto simp: inj_def usageCountedKey_def)
  ultimately have "card {k. new_key w (cworld c) k} = card {r. js_has (store (journal (cworld c))) (usageCountedKey r) \<and> \<not> js_has (store (journal w)) (usageCountedKey r)}"
    by (metis (no_types, lifting) card_image inj_on_subset subset_UNIV)
  with inv spent_bound(2) [of w "cworld c" gs] show ?thesis by (simp add: count_inv_def)
qed

lemma record_usage_runs:
  "fst (run usage_env (recordRunUsage price_list full_caps None ''a'') usage_world) = Inr ()"
  "counted_runs (snd (run usage_env (recordRunUsage price_list full_caps None ''a'') usage_world)) = 1" "counted_runs usage_world = 0"
  by code_simp+

theorem usage_counts_each_run_once_witness:
  "\<exists>c. reachable ({recordRunUsage price_list full_caps None r | r. True} \<union> {seqp (getOrgUsage price_list full_caps h None cache strict) (Ret ()) | h cache strict. True}) usage_world c
     \<and> counted_runs (cworld c) = 1
     \<and> 1 \<le> card {r. js_has (store (journal (cworld c))) (usageCountedKey r) \<and> \<not> js_has (store (journal usage_world)) (usageCountedKey r)}"
proof -
  let ?S = "{recordRunUsage price_list full_caps None r | r. True} \<union> {seqp (getOrgUsage price_list full_caps h None cache strict) (Ret ()) | h cache strict. True}"
  obtain w' where w': "run usage_env (recordRunUsage price_list full_caps None ''a'') usage_world = (Inr (), w')" "counted_runs w' = 1"
    using record_usage_runs by (metis prod.collapse)
  have "recordRunUsage price_list full_caps None ''a'' \<in> ?S" by blast
  from run_solo [OF this w'(1)] have r: "reachable ?S usage_world (solo w' (Ret ()))" by (simp add: finished_def)
  from usage_counts_each_run_once [OF _ refl r] w'(2) record_usage_runs(3) r show ?thesis
    by (intro exI [of _ "solo w' (Ret ())"]) (simp add: full_caps_def solo_def)
qed

definition backfill_race :: "unit prog list \<times> world" where
  "backfill_race = interleave usage_env
     [recordRunUsage price_list full_caps None ''a'', seqp (getOrgUsage price_list full_caps True None None True) (Ret ())]
     (0 # replicate 12 1 @ replicate 4 0) usage_world"

lemma backfill_race_runs:
  "map (\<lambda>p. case p of Ret u \<Rightarrow> True | _ \<Rightarrow> False) (fst backfill_race) = [True, True]"
  "usage_counter (journal (snd backfill_race)) = Some \<lparr>ou_runs = 2, ou_tokens = 10, ou_costUsd = 22\<rparr>"
  by code_simp+


text \<open>A single worker does the same when the increment takes effect and its answer is lost: it falls back to the older record and adds the run there too.\<close>

fun lost_increment :: "jop \<Rightarrow> world \<Rightarrow> (err + js) \<times> world" where
  "lost_increment (JIncrBy k fs) w = (Inl (Err ''Error'' ''timeout''), snd (exec_op usage_env (JIncrBy k fs) w))"
| "lost_increment c w = exec_op usage_env c w"

lemma lost_increment_counts_twice:
  "usage_counter (journal (snd (grun lost_increment (recordRunUsage price_list full_caps None ''a'') usage_world))) = Some \<lparr>ou_runs = 2, ou_tokens = 10, ou_costUsd = 22\<rparr>"
  by code_simp

lemma lost_increment_possible: "lost_increment c w = (r, w') \<Longrightarrow> answer c w r w'"
proof (cases "\<exists>k fs. c = JIncrBy k fs")
  case True
  moreover assume "lost_increment c w = (r, w')"
  ultimately show ?thesis by (auto intro!: ans_lost [where r = JUndef])
next
  case False
  moreover assume "lost_increment c w = (r, w')"
  ultimately show ?thesis using exec_op_answer [of usage_env c w r w'] by (cases c) auto
qed

end
