(* ===== verification/Triggers.thy ===== *)
theory Triggers
  imports Scheduler Polling
begin

text \<open>
  The rest of the scheduler (\<open>packages/scheduler/src/index.ts\<close>): listing triggers, the scheduler object around \<open>pollScheduler\<close>, moving a trigger of the
  system to an owner, and erasing the triggers of a person. \<open>localeCompare\<close> is the order of code units on the model's strings.
\<close>

section \<open>Definitions\<close>

record TriggerInfo =
  ti_id :: string
  ti_name :: js
  ti_kind :: js
  ti_value :: js
  ti_input :: js
  ti_nextRunAt :: js
  ti_attempts :: js
  ti_maxAttempts :: js
  ti_fireCount :: js
  ti_status :: js
  ti_misfire :: js
  ti_resourceId :: js
  ti_orgId :: js
  ti_movedTo :: js
  ti_lastError :: js
  ti_lastErrorAt :: js
  ti_deferrals :: js
  ti_lastDeferralAt :: js

definition trigger_info :: "string \<Rightarrow> js \<Rightarrow> js \<Rightarrow> TriggerInfo" where
  "trigger_info i def state =
     \<lparr>ti_id = i, ti_name = js_field ''name'' def, ti_kind = js_field ''kind'' def, ti_value = js_field ''value'' def, ti_input = js_field ''input'' def,
      ti_nextRunAt = js_field ''nextRunAt'' state, ti_attempts = js_field ''attempts'' state, ti_maxAttempts = js_field ''maxAttempts'' def,
      ti_fireCount = js_field ''fireCount'' state, ti_status = js_field ''status'' state, ti_misfire = js_field ''misfire'' def,
      ti_resourceId = js_field ''resourceId'' def, ti_orgId = js_field ''orgId'' def, ti_movedTo = js_field ''movedTo'' state,
      ti_lastError = JUndef, ti_lastErrorAt = JUndef, ti_deferrals = JUndef, ti_lastDeferralAt = JUndef\<rparr>"

definition with_failure :: "string \<Rightarrow> TriggerInfo \<Rightarrow> TriggerInfo prog" where
  "with_failure i info =
     (if ti_status info \<noteq> JStr ''failed'' then Ret info
      else bindp (get (FAIL i)) (\<lambda>fail.
        Ret (if js_truthy fail then info\<lparr>ti_lastError := js_field ''error'' fail, ti_lastErrorAt := js_field ''at'' fail\<rparr> else info)))"

definition with_deferrals :: "string \<Rightarrow> TriggerInfo \<Rightarrow> TriggerInfo prog" where
  "with_deferrals i info =
     bindp (get (BUSY_SKIP i)) (\<lambda>busy.
       Ret (if js_truthy (js_field ''deferrals'' busy)
            then info\<lparr>ti_deferrals := js_field ''deferrals'' busy, ti_lastDeferralAt := js_field ''at'' busy\<rparr> else info))"

definition list_trigger :: "TriggerInfo list \<Rightarrow> key \<Rightarrow> (TriggerInfo list) prog" where
  "list_trigger out dkey =
     (let i = drop (length ''sched:def:'') dkey in
      bindp (get (DEF i)) (\<lambda>def. bindp (get (STATE i)) (\<lambda>state.
        if \<not> js_truthy def \<or> \<not> js_truthy state then Ret out
        else bindp (with_failure i (trigger_info i def state)) (\<lambda>info. bindp (with_deferrals i info) (\<lambda>info. Ret (out @ [info]))))))"

definition listTriggers :: "caps \<Rightarrow> string option \<Rightarrow> bool \<Rightarrow> (TriggerInfo list) prog" where
  "listTriggers J scope subjectView =
     seqp (liftp (assertRootJournal scope subjectView))
       (if \<not> has_listKeys J then Raise (Err ''Error'' ''listTriggers requires journal.listKeys'')
        else bindp (listKeys ''sched:def:'') (\<lambda>ks. bindp (foldp list_trigger [] ks) (\<lambda>out. Ret (sort_key ti_id out))))"

text \<open>The scheduler object: the options of its poll loop and what a tick of the loop does.\<close>

definition createScheduler :: "string option \<Rightarrow> bool \<Rightarrow> int option \<Rightarrow> bool option \<Rightarrow> int option \<Rightarrow> err + PollLoopOptions" where
  "createScheduler scope subjectView pollMs backoffOn maxPollMs =
     (case assertRootJournal scope subjectView of
        Inl e \<Rightarrow> Inl e
      | Inr _ \<Rightarrow> Inr (let ms = (case pollMs of Some n \<Rightarrow> n | None \<Rightarrow> 1000) in
          \<lparr>pl_pollMs = ms, pl_backoff = (backoffOn = Some True), pl_maxPollMs = (case maxPollMs of Some n \<Rightarrow> n | None \<Rightarrow> ms * 32)\<rparr>))"

definition scheduler_tick :: "caps \<Rightarrow> poll_opts \<Rightarrow> bool prog" where
  "scheduler_tick J o1 = bindp date_now (\<lambda>now. bindp (pollScheduler J None False o1 now) (\<lambda>r. Ret (0 < pr_fired r)))"

text \<open>\<open>{...v}\<close> without some fields\<close>

definition without_fields :: "string list \<Rightarrow> js \<Rightarrow> (string \<times> js) list" where
  "without_fields fs v = filter (\<lambda>p. fst p \<notin> set fs) (js_props v)"

definition copy_trigger :: "TriggerOwner \<Rightarrow> js \<Rightarrow> js \<Rightarrow> string \<Rightarrow> unit prog" where
  "copy_trigger ow def state toId =
     bindp (get (DEF toId)) (\<lambda>d.
       if d \<noteq> JUndef then Ret ()
       else seqp (put (DEF toId) (JObj (spread (without_fields [''resourceId'', ''orgId'', ''ownerKind''] def) (owner_fields ow))))
         (put (STATE toId) (JObj (without_fields [''movedTo''] state))))"

definition retire_trigger :: "caps \<Rightarrow> string \<Rightarrow> js \<Rightarrow> string \<Rightarrow> unit prog" where
  "retire_trigger J fromId state toId =
     (if js_field ''status'' state \<noteq> JStr ''pending'' then Ret ()
      else let retired = JObj (spread (js_props state) [(''status'', JStr ''done''), (''movedTo'', JStr toId)]) in
        if has_putIfMatch J then bindp (putIfMatch (STATE fromId) state retired) (\<lambda>ok. if ok then Ret () else Raise (Err ''Error'' fromId))
        else put (STATE fromId) retired)"

definition moveTrigger :: "caps \<Rightarrow> string option \<Rightarrow> bool \<Rightarrow> string \<Rightarrow> Caller option \<Rightarrow> string option \<Rightarrow> string option \<Rightarrow> (string option) prog" where
  "moveTrigger J scope subjectView fromId caller res org =
     seqp (liftp (assertRootJournal scope subjectView))
     (let from = fst (ownerOfName fromId) in
      if o_resourceId from \<noteq> None \<or> o_orgId from \<noteq> None then Raise (Err ''TypeError'' fromId)
      else bindp (liftp (triggerOwnerOf caller res org)) (\<lambda>ow.
        if to_resourceId ow = None \<and> to_orgId ow = None then Raise (Err ''TypeError'' ''moveTrigger needs an owner'')
        else seqp (case to_orgId ow of None \<Rightarrow> Ret () | Some og \<Rightarrow> bindp (liftp (orgPrefix og)) (\<lambda>_. Ret ()))
        (bindp (get (DEF fromId)) (\<lambda>def. bindp (get (STATE fromId)) (\<lambda>state.
          if \<not> js_truthy def \<or> \<not> js_truthy state then Ret None
          else bindp (liftp (ownedName fromId \<lparr>o_orgId = to_orgId ow, o_resourceId = to_resourceId ow\<rparr>)) (\<lambda>toId.
            seqp (copy_trigger ow def state toId) (seqp (retire_trigger J fromId state toId) (Ret (Some toId)))))))))"

definition erase_families :: "string list" where
  "erase_families = [''sched:def:'', ''sched:state:'', ''sched:fail:'', ''sched:budget-skip:'', ''sched:busy-skip:'', ''sched:'']"

definition erase_family :: "string \<Rightarrow> int \<Rightarrow> string \<Rightarrow> int prog" where
  "erase_family pre n fam = bindp (deletePrefix (fam @ pre)) (\<lambda>r. Ret (n + js_int r))"

definition triggerEraser :: "caps \<Rightarrow> string option \<Rightarrow> bool \<Rightarrow> string \<Rightarrow> string option \<Rightarrow> int prog" where
  "triggerEraser J scope subjectView resourceId orgId =
     seqp (liftp (assertRootJournal scope subjectView))
       (if \<not> has_deletePrefix J then Raise (Err ''Error'' ''the journal cannot deletePrefix'')
        else bindp (liftp (ownedPrefix \<lparr>o_orgId = orgId, o_resourceId = Some resourceId\<rparr>)) (\<lambda>pre. foldp (erase_family pre) 0 erase_families))"

section \<open>Erasing the triggers of a person\<close>

lemma run_erase_family:
  "run env (erase_family pre n fam) w = (case mem_deletePrefix (fam @ pre) (journal w) of (d, j) \<Rightarrow> (Inr (n + int d), w\<lparr>journal := j\<rparr>))"
  by (simp add: erase_family_def deletePrefix_def run_bindp run_callp split: prod.split)

text \<open>What a pass over some of the families leaves of the journal.\<close>

lemma run_erase_families:
  "\<exists>n1 w1. run env (foldp (erase_family pre) n fams) w = (Inr n1, w1)
     \<and> (\<forall>k. map_of (store (journal w1)) k = (if \<exists>fam \<in> set fams. prefix (fam @ pre) k then None else map_of (store (journal w)) k))"
proof (induction fams arbitrary: n w)
  case (Cons fam fams)
  obtain d j1 where d: "mem_deletePrefix (fam @ pre) (journal w) = (d, j1)" by fastforce
  then have j1: "map_of (store j1) k = (if prefix (fam @ pre) k then None else map_of (store (journal w)) k)" for k
    using map_of_deletePrefix(1) [of "fam @ pre" "journal w" k] by simp
  obtain n1 w1 where h: "run env (foldp (erase_family pre) (n + int d) fams) (w\<lparr>journal := j1\<rparr>) = (Inr n1, w1)"
    "\<And>k. map_of (store (journal w1)) k = (if \<exists>fam \<in> set fams. prefix (fam @ pre) k then None else map_of (store j1) k)"
    using Cons.IH [of "n + int d" "w\<lparr>journal := j1\<rparr>"] by auto
  then show ?case using d j1 by (intro exI [of _ n1] exI [of _ w1]) (auto simp: run_erase_family run_bindp)
qed simp

definition record_families :: "string list" where
  "record_families = butlast erase_families"

lemma family_prefix:
  assumes "prefix ''~'' pre" and "fam \<in> set record_families"
  shows "(\<exists>f \<in> set erase_families. prefix (f @ pre) (fam @ i)) \<longleftrightarrow> prefix pre i"
  using assms by (auto simp: erase_families_def record_families_def prefix_def)

lemma ownedPrefix_tilde: "ownedPrefix ow = Inr pre \<Longrightarrow> prefix ''~'' pre"
  using ownerPart_Inr by (fastforce simp: ownedPrefix_def OWNED_def)

text \<open>
  Erasing a person's triggers removes the definition, the state and the failure and skip records of every trigger of that person, with whatever stands below
  them, and the runs and locks of its fires; the records of every other trigger, of another user, of the same user in another organisation or of the
  system, stay, and no key outside the scheduler's is touched.
\<close>

theorem trigger_erasure_is_exact:
  assumes "has_deletePrefix J" and "ownedPrefix \<lparr>o_orgId = og, o_resourceId = Some res\<rparr> = Inr pre" and "ownedName nm o2 = Inr i"
    and "fam \<in> set record_families"
  shows "\<exists>n w'. run env (triggerEraser J None False res og) w = (Inr n, w')
    \<and> map_of (store (journal w')) (fam @ i) = (if o2 = \<lparr>o_orgId = og, o_resourceId = Some res\<rparr> then None else map_of (store (journal w)) (fam @ i))
    \<and> (o2 = \<lparr>o_orgId = og, o_resourceId = Some res\<rparr> \<longrightarrow> map_of (store (journal w')) (''sched:'' @ i @ x) = None)
    \<and> (\<forall>k. \<not> prefix ''sched:'' k \<longrightarrow> map_of (store (journal w')) k = map_of (store (journal w)) k)"
proof -
  obtain n w' where r: "run env (foldp (erase_family pre) 0 erase_families) w = (Inr n, w')"
    and get: "\<And>k. map_of (store (journal w')) k = (if \<exists>f \<in> set erase_families. prefix (f @ pre) k then None else map_of (store (journal w)) k)"
    using run_erase_families by blast
  have own: "prefix pre i \<longleftrightarrow> o2 = \<lparr>o_orgId = og, o_resourceId = Some res\<rparr>"
  proof
    show "prefix pre i \<Longrightarrow> o2 = \<lparr>o_orgId = og, o_resourceId = Some res\<rparr>" by (drule ownedPrefix_owner(1) [OF assms(3,2)]) (rule sym)
    show "o2 = \<lparr>o_orgId = og, o_resourceId = Some res\<rparr> \<Longrightarrow> prefix pre i" by (rule ownedPrefix_owner(2) [OF assms(3,2)]) simp_all
  qed
  have "map_of (store (journal w')) (''sched:'' @ i @ x) = None" if "prefix pre i"
  proof -
    have "prefix (''sched:'' @ pre) (''sched:'' @ i @ x)" using that by (auto simp: prefix_def)
    moreover have "''sched:'' \<in> set erase_families" by (simp add: erase_families_def)
    ultimately have "\<exists>f \<in> set erase_families. prefix (f @ pre) (''sched:'' @ i @ x)" by blast
    then show ?thesis unfolding get by (rule if_P)
  qed
  moreover have "map_of (store (journal w')) k = map_of (store (journal w)) k" if "\<not> prefix ''sched:'' k" for k
  proof -
    have "prefix ''sched:'' f" if "f \<in> set erase_families" for f using that by (auto simp: erase_families_def)
    then have "prefix ''sched:'' (f @ pre)" if "f \<in> set erase_families" for f using that prefix_prefix by blast
    then have "\<not> (\<exists>f \<in> set erase_families. prefix (f @ pre) k)" using that prefix_order.trans by blast
    then show ?thesis unfolding get by (rule if_not_P)
  qed
  ultimately show ?thesis
    using assms(1,2) r own get [of "fam @ i"] family_prefix [OF ownedPrefix_tilde [OF assms(2)] assms(4)]
    by (simp add: triggerEraser_def assertRootJournal_def prog_simps)
qed

section \<open>Moving a trigger\<close>

lemma trigger_keys_differ [simp]: "DEF i \<noteq> STATE k" "STATE k \<noteq> DEF i" "DEF i = DEF k \<longleftrightarrow> i = k" "STATE i = STATE k \<longleftrightarrow> i = k"
  by (auto simp: DEF_def STATE_def)

text \<open>
  An undisturbed move leaves one pending trigger: the owned one has the definition with its owner and the state, with the next time, the attempts and the fire
  count; the old one is retired and names its successor. A second move changes nothing.
\<close>

theorem moved_trigger_is_pending_once:
  assumes "has_putIfMatch J" and "ownerOfName fromId = (\<lparr>o_orgId = None, o_resourceId = None\<rparr>, fromId)"
    and "triggerOwnerOf caller res org = Inr ow" and "to_resourceId ow \<noteq> None" and "\<forall>og. to_orgId ow = Some og \<longrightarrow> (\<exists>p. orgPrefix og = Inr p)"
    and "ownedName fromId \<lparr>o_orgId = to_orgId ow, o_resourceId = to_resourceId ow\<rparr> = Inr toId"
    and "mem_get (DEF fromId) (journal w) = JObj d" and "mem_get (STATE fromId) (journal w) = TriggerState n a f ''pending'' None"
    and "mem_get (DEF toId) (journal w) = JUndef"
  shows "\<exists>w'. run env (moveTrigger J None False fromId caller res org) w = (Inr (Some toId), w')
    \<and> mem_get (STATE toId) (journal w') = TriggerState n a f ''pending'' None
    \<and> mem_get (STATE fromId) (journal w') = TriggerState n a f ''done'' (Some toId)
    \<and> mem_get (DEF toId) (journal w') = JObj (spread (without_fields [''resourceId'', ''orgId'', ''ownerKind''] (JObj d)) (owner_fields ow))
    \<and> run env (moveTrigger J None False fromId caller res org) w' = (Inr (Some toId), w')"
proof -
  have ne: "toId \<noteq> fromId"
    using ownerOfName_ownedName [OF assms(6)] assms(2,4) by auto
  have st: "without_fields [''movedTo''] (TriggerState n a f ''pending'' None) = js_props (TriggerState n a f ''pending'' None)"
    "JObj (js_props (TriggerState n a f ''pending'' None)) = TriggerState n a f ''pending'' None"
    "JObj (spread (js_props (TriggerState n a f ''pending'' None)) [(''status'', JStr ''done''), (''movedTo'', JStr toId)]) = TriggerState n a f ''done'' (Some toId)"
    by (simp_all add: TriggerState_def without_fields_def opt_field_def spread_def)
  have pre: "run env (case to_orgId ow of None \<Rightarrow> Ret () | Some og \<Rightarrow> bindp (liftp (orgPrefix og)) (\<lambda>_. Ret ())) v = (Inr (), v)" for v
    using assms(5) by (auto simp: prog_simps split: option.split)
  have has: "STATE fromId \<in> dom (map_of (store (journal w)))"
  proof -
    have "mem_get (STATE fromId) (journal w) \<noteq> JUndef" unfolding assms(8) by simp
    then show ?thesis by (auto simp: mem_get_def split: option.splits)
  qed
  show ?thesis
    using assms(1,2,4,6-9) ne has
    by (auto simp: moveTrigger_def assertRootJournal_def prog_simps assms(3) pre copy_trigger_def retire_trigger_def st
        mem_putIfMatch_def mem_get_def mem_put_def split: option.splits)
qed

text \<open>
  The move is two writes: a process that stops between the definition and the state of the owned trigger leaves a definition without a state. The move that
  is repeated afterwards finds the definition, writes no state, retires the old trigger and reports success: no trigger is pending, and the listing shows
  only the retired one.
\<close>

definition half_moved :: world where
  "half_moved = new_world\<lparr>journal :=
     mem_put 2 (DEF ''~o~acme::nightly'') (TriggerDef ''report'' JUndef ''every'' (JNum 60) 5 ''skip'' \<lparr>to_resourceId = None, to_orgId = Some ''acme'', to_staff = False\<rparr>)
    (mem_put 1 (STATE ''nightly'') (TriggerState (JNum 100) 0 7 ''pending'' None)
    (mem_put 0 (DEF ''nightly'') (TriggerDef ''report'' JUndef ''every'' (JNum 60) 5 ''skip'' \<lparr>to_resourceId = None, to_orgId = None, to_staff = False\<rparr>) empty_journal))\<rparr>"

definition repeat_move :: "(err + string option) \<times> world" where
  "repeat_move = run (\<lambda>_ _ _. Inr JUndef) (moveTrigger full_caps None False ''nightly'' None None (Some ''acme'')) half_moved"

lemma repeated_move_loses_trigger:
  "fst repeat_move = Inr (Some ''~o~acme::nightly'')"
  "mem_get (STATE ''~o~acme::nightly'') (journal (snd repeat_move)) = JUndef"
  "js_field ''status'' (mem_get (STATE ''nightly'') (journal (snd repeat_move))) = JStr ''done''"
  "map_sum id (map (\<lambda>t. (ti_id t, ti_status t))) (fst (run (\<lambda>_ _ _. Inr JUndef) (listTriggers full_caps None False) (snd repeat_move)))
     = Inr [(''nightly'', JStr ''done'')]"
  by code_simp+

end
