(* ===== verification/Policy.thy ===== *)
theory Policy
  imports Taint
begin

text \<open>
  Small modules around the gates of the tool wrapper: the policy document and its guard (\<open>packages/durable/src/policy.ts\<close>), the guard for tainted runs
  (\<open>guard.ts\<close>), the table of duplicate actions (\<open>policy-matrix.ts\<close>) and the ledger of refused runs (\<open>idem-ledger.ts\<close>). A guard decision is the object the
  tool wrapper reads. The process-wide counter of the ledger is an argument.
\<close>

section \<open>Definitions\<close>

subsection \<open>Policies\<close>

definition POLICY_KEY :: key where "POLICY_KEY = ''__policy__''"

definition rule_for :: "string \<Rightarrow> js list \<Rightarrow> js" where
  "rule_for tool rules = (case filter (\<lambda>r. js_field ''tool'' r = JStr tool) rules of [] \<Rightarrow> JUndef | r # rs \<Rightarrow> r)"

definition evaluatePolicy :: "js \<Rightarrow> string \<Rightarrow> string \<Rightarrow> js" where
  "evaluatePolicy doc toolName fallback =
     (let rules = js_elems (js_field ''rules'' doc);
          rule = (let r = rule_for toolName rules in if r \<noteq> JUndef \<and> r \<noteq> JNull then r else rule_for ''*'' rules);
          action = (let a = js_field ''action'' rule in if a \<noteq> JUndef \<and> a \<noteq> JNull then a else JStr fallback)
      in if action = JStr ''allow'' then JObj [(''action'', JStr ''allow'')]
         else JObj [(''action'', action), (''reason'', js_field ''reason'' rule)])"

definition policyGuard :: "key option \<Rightarrow> string option \<Rightarrow> string \<Rightarrow> js prog" where
  "policyGuard key fallback toolName =
     bindp (get (case key of Some k \<Rightarrow> k | None \<Rightarrow> POLICY_KEY)) (\<lambda>doc.
       Ret (evaluatePolicy doc toolName (case fallback of Some f \<Rightarrow> f | None \<Rightarrow> ''allow'')))"

text \<open>\<open>call\<close> is the object handed to a guard; \<open>onTainted\<close> and \<open>otherwise\<close> are guards of the application.\<close>

definition taintGuardian :: "(string \<Rightarrow> bool) \<Rightarrow> bool \<Rightarrow> js \<Rightarrow> js prog" where
  "taintGuardian isSensitive hasOtherwise call =
     (if js_field ''tainted'' call \<noteq> JUndef \<and> isSensitive (js_string (js_field ''toolName'' call)) then ext ''onTainted'' call
      else if hasOtherwise then ext ''otherwise'' call
      else Ret (JObj [(''action'', JStr ''allow'')]))"

subsection \<open>What a duplicate call does\<close>

datatype Profile = Assistant | Headless | Critical
datatype EffectClass = Transactional | Notification | IdempotentWrite | Delete | ExternalApi
datatype DupAction = DOff | DWarn | DReflect | DBlock | DSuspend | DSkip

record DupSpec =
  ds_action :: DupAction
  ds_threadScope :: bool

fun PRESET_MATRIX :: "Profile \<Rightarrow> EffectClass \<Rightarrow> DupSpec" where
  "PRESET_MATRIX Assistant Transactional = \<lparr>ds_action = DSuspend, ds_threadScope = True\<rparr>"
| "PRESET_MATRIX Assistant Notification = \<lparr>ds_action = DSuspend, ds_threadScope = True\<rparr>"
| "PRESET_MATRIX Assistant IdempotentWrite = \<lparr>ds_action = DOff, ds_threadScope = False\<rparr>"
| "PRESET_MATRIX Assistant Delete = \<lparr>ds_action = DSkip, ds_threadScope = True\<rparr>"
| "PRESET_MATRIX Assistant ExternalApi = \<lparr>ds_action = DOff, ds_threadScope = False\<rparr>"
| "PRESET_MATRIX Headless Transactional = \<lparr>ds_action = DBlock, ds_threadScope = True\<rparr>"
| "PRESET_MATRIX Headless Notification = \<lparr>ds_action = DSkip, ds_threadScope = True\<rparr>"
| "PRESET_MATRIX Headless IdempotentWrite = \<lparr>ds_action = DOff, ds_threadScope = False\<rparr>"
| "PRESET_MATRIX Headless Delete = \<lparr>ds_action = DSkip, ds_threadScope = True\<rparr>"
| "PRESET_MATRIX Headless ExternalApi = \<lparr>ds_action = DOff, ds_threadScope = False\<rparr>"
| "PRESET_MATRIX Critical IdempotentWrite = \<lparr>ds_action = DWarn, ds_threadScope = True\<rparr>"
| "PRESET_MATRIX Critical _ = \<lparr>ds_action = DSuspend, ds_threadScope = True\<rparr>"

fun PRESET_DEFAULT :: "Profile \<Rightarrow> DupSpec" where
  "PRESET_DEFAULT Headless = \<lparr>ds_action = DBlock, ds_threadScope = True\<rparr>"
| "PRESET_DEFAULT _ = \<lparr>ds_action = DSuspend, ds_threadScope = True\<rparr>"

subsection \<open>The ledger of refused runs\<close>

record IdemConflict =
  ic_runId :: string
  ic_code :: string
  ic_actor :: "string option"
  ic_detail :: js

definition conflict_js :: "int \<Rightarrow> IdemConflict \<Rightarrow> js" where
  "conflict_js at r = JObj ([(''runId'', JStr (ic_runId r)), (''code'', JStr (ic_code r))]
     @ (case ic_actor r of Some a \<Rightarrow> [(''actor'', JStr a)] | None \<Rightarrow> []) @ [(''detail'', ic_detail r), (''at'', JNum at)])"

definition append_conflict :: "caps \<Rightarrow> nat \<Rightarrow> IdemConflict \<Rightarrow> unit prog" where
  "append_conflict J seq r =
     bindp (if has_now J then journal_now else date_now) (\<lambda>at.
     bindp randomUUID (\<lambda>u.
       put (''idem:conflict:'' @ ic_runId r @ '':'' @ show_int at @ ''-'' @ show_nat seq @ ''-'' @ take 8 u) (conflict_js at r)))"

definition recordIdemConflict :: "caps \<Rightarrow> nat \<Rightarrow> IdemConflict \<Rightarrow> bool \<Rightarrow> unit prog" where
  "recordIdemConflict J seq r require =
     (if require then append_conflict J seq r else catchp (append_conflict J seq r) (\<lambda>_. Ret ()))"

definition ledger_prefix :: "string \<Rightarrow> string" where
  "ledger_prefix runId = (if runId \<noteq> [] then ''idem:conflict:'' @ runId @ '':'' else ''idem:conflict:'')"

primrec read_present :: "key list \<Rightarrow> (js list) prog" where
  "read_present [] = Ret []"
| "read_present (k # ks) = bindp (get k) (\<lambda>r. bindp (read_present ks) (\<lambda>rs. Ret (if js_truthy r then r # rs else rs)))"

definition readIdemLedger :: "caps \<Rightarrow> string \<Rightarrow> (js list) prog" where
  "readIdemLedger J runId =
     (if \<not> has_listKeys J then Raise (Err ''Error'' ''readIdemLedger requires listKeys'')
      else bindp (listKeys (ledger_prefix runId)) (\<lambda>ks. bindp (read_present ks) (\<lambda>rs.
        Ret (sort_key (\<lambda>r. - js_int (js_field ''at'' r)) rs))))"

section \<open>Lemmas\<close>

text \<open>A rule for the tool itself decides before the rule for all tools, and a document without a matching rule leaves the fallback.\<close>

lemma exact_rule_decides:
  assumes "js_field ''rules'' doc = JArr (as @ r # bs)" and "js_field ''tool'' r = JStr tool" and "\<forall>x \<in> set as. js_field ''tool'' x \<noteq> JStr tool"
    and "js_field ''action'' r = JStr a" and "a \<noteq> ''allow''"
  shows "evaluatePolicy doc tool fallback = JObj [(''action'', JStr a), (''reason'', js_field ''reason'' r)]"
proof -
  have "filter (\<lambda>x. js_field ''tool'' x = JStr tool) as = []" using assms(3) by (simp add: filter_empty_conv)
  moreover have "r \<noteq> JUndef" "r \<noteq> JNull" using assms(2) by auto
  ultimately show ?thesis using assms by (simp add: evaluatePolicy_def rule_for_def)
qed

lemma no_rule_falls_back:
  assumes "\<forall>x \<in> set (js_elems (js_field ''rules'' doc)). js_field ''tool'' x \<noteq> JStr tool \<and> js_field ''tool'' x \<noteq> JStr ''*''"
  shows "js_field ''action'' (evaluatePolicy doc tool fallback) = JStr fallback"
proof -
  have "rule_for tool (js_elems (js_field ''rules'' doc)) = JUndef" "rule_for ''*'' (js_elems (js_field ''rules'' doc)) = JUndef"
    using assms by (auto simp: rule_for_def filter_empty_conv split: list.split)
  then show ?thesis by (simp add: evaluatePolicy_def)
qed

text \<open>In no profile does a repeated transaction or deletion run unasked.\<close>

lemma harmful_repeats_are_gated:
  "c = Transactional \<or> c = Delete \<Longrightarrow> ds_action (PRESET_MATRIX p c) \<in> {DBlock, DSuspend, DSkip} \<and> ds_threadScope (PRESET_MATRIX p c)"
  by (cases p; cases c) auto

text \<open>
  The ledger of one run is read by a key prefix. Run identifiers may contain colons, so the ledger of \<open>a\<close> holds the refusals of the run \<open>a:b\<close> too.
\<close>

definition ledger_world :: world where
  "ledger_world = snd (run (\<lambda>_ _ _. Inr JUndef)
     (recordIdemConflict full_caps 0 \<lparr>ic_runId = ''a:b'', ic_code = ''run_busy'', ic_actor = None, ic_detail = JUndef\<rparr> True) new_world)"

lemma ledger_of_run_holds_others:
  "map_sum id (map (js_field ''runId'')) (fst (run (\<lambda>_ _ _. Inr JUndef) (readIdemLedger full_caps ''a'') ledger_world)) = Inr [JStr ''a:b'']"
  by code_simp

end
