(* ===== verification/Spec2Isabelle.thy ===== *)
theory Spec2Isabelle
  imports Compensation Outcome CounterShard RunIdGate Queue Events Polling Waker SubjectView TimeTravel Budget Triggers Policy
begin

text \<open>
  Verification development of the durable-execution core of gnldev: \<open>packages/durable\<close> and the packages built directly on its journal and
  work store, \<open>packages/workflow\<close>, \<open>packages/scheduler\<close>, \<open>packages/queue\<close> and \<open>packages/events\<close>.

  The program makes runs of language-model agents survive crashes: every model step, tool call and workflow step leaves a record in a journal, a
  resumed run replays the records and executes only what has none, and several workers may resume the same run at the same time. What it
  promises is mostly about that last point, so the model keeps the single calls of the code on its stores apart and quantifies over their
  interleavings.

  \<^bold>\<open>Foundations\<close>

  \<^item> \<open>Prelude\<close>: numerals, insertion-ordered maps (\<open>js_set\<close>, \<open>js_delete\<close>), prefixes, error values.
  \<^item> \<open>JsValue\<close>: JavaScript values (\<open>js\<close>), property reads, truthiness, \<open>JSON.stringify\<close>.
  \<^item> \<open>Calls\<close>: asynchronous code as trees of calls, generic in the calls; the undisturbed run \<open>grun\<close>, the interleaving \<open>gstep\<close> of any number of
    workers, weakest preconditions, and the locale \<open>call_protocol\<close>, which turns rules about single calls into an invariant of all reachable
    configurations.
  \<^item> \<open>Prog\<close>: the calls of the journal port, the clock, \<open>randomUUID\<close> and outside code; \<open>run\<close> against an \<open>InMemoryJournal\<close> and \<open>cstep\<close>, in which
    a call may fail before or after it took effect and a worker may stop anywhere. The optional methods of the port are the record \<open>caps\<close>.
    \<open>WorkProg\<close> adds the calls of the work store.
  \<^item> \<open>Protocol\<close>: the locale \<open>protocol\<close>, its instance for the journal, interpreted for write-once records (\<open>JournalOps\<close>), leases (\<open>RunLock\<close>),
    recorded calls (\<open>ExactlyOnce\<close>), tombstones (\<open>Compensation\<close>) and, over the work store, the position of a consumer (\<open>Events\<close>). \<open>Ticket\<close>: the
    interpretation for one execution per record, used by tools, workflow steps and the waker. \<open>CasRegister\<close>: the locale \<open>cas_register\<close> of a
    record that is only replaced by compare-and-swap, interpreted for verdicts (\<open>Outcome\<close>) and trigger states (\<open>Scheduler\<close>).

  \<^bold>\<open>Components\<close> (paths under \<open>src/packages\<close>; \<open>durable/src\<close> where no package is named)

  \<^item> \<open>Hash\<close> (\<open>hash.ts\<close>): canonical form and hash of arguments, derived run identifiers. SHA-256 is a parameter.
  \<^item> \<open>Journal\<close> (\<open>journal.ts\<close>): the key schema \<open>runKeys\<close> and its parsers, run summaries, paging, and every operation of \<open>InMemoryJournal\<close> on a
    record of its three maps. \<open>Format\<close> (\<open>format.ts\<close>): version stamp, upgrader registry, upgrade loop.
  \<^item> \<open>JournalOps\<close> (\<open>journal.ts\<close>, \<open>durable-log.ts\<close>): \<open>claim\<close>, \<open>frozenGet\<close>, \<open>ctxGet\<close>, the replay cache, the log, \<open>consumeOnce\<close>.
  \<^item> \<open>RunLock\<close> (\<open>run-lock.ts\<close>): acquire, renew, release of the lease on a run.
  \<^item> \<open>RunIdentity\<close> (\<open>run-identity.ts\<close>, \<open>identity-types.ts\<close>): callers, seals, owner records, access, admission. \<open>RunIdGate\<close> (\<open>run.ts\<close>):
    \<open>assertRunIdSafe\<close>. \<open>OwnedName\<close> (\<open>owned-name.ts\<close>): names that carry their owner. \<open>Organization\<close> (\<open>organization.ts\<close>): the view of a
    journal for one organisation.
  \<^item> \<open>Taint\<close> (\<open>taint.ts\<close>, \<open>incidents.ts\<close>), \<open>Limits\<close> (\<open>limits.ts\<close>), \<open>CounterShard\<close> (\<open>counter-shard.ts\<close>): marks and incidents, counters and
    gates, sharded counters.
  \<^item> \<open>DurableTool\<close> (\<open>durable-tool.ts\<close>): the wrapper around a tool call, phase by phase, and \<open>durableTools\<close>; \<open>ExactlyOnce\<close>: what it promises under
    concurrency. \<open>Compensation\<close> (\<open>compensation.ts\<close>): unwinding a run. \<open>Outcome\<close> (\<open>outcome.ts\<close>, \<open>cancel.ts\<close>, \<open>errors.ts\<close>): verdicts and the
    cancel flag.
  \<^item> \<open>Workflow\<close> (\<open>workflow/src/workflow.ts\<close>): steps, claims of side effects, builders, resumable runs, forks, cancellation, retries.
  \<^item> \<open>Cron\<close> and \<open>Scheduler\<close> (\<open>scheduler/src/cron.ts\<close>, \<open>index.ts\<close>, \<open>root-journal.ts\<close>): cron expressions, triggers and their poll. \<open>Waker\<close>
    (\<open>scheduler/src/workflow-waker.ts\<close>): waking of suspended workflows.
  \<^item> \<open>ThreadOwner\<close> (\<open>thread-owner.ts\<close>): owner records of threads, their derivation for older threads, the gate of a run on a thread.
    \<open>SubjectView\<close> (\<open>subject-view.ts\<close>): what an end user sees of a journal and of a memory.
  \<^item> \<open>TimeTravel\<close> (\<open>time-travel.ts\<close>): the state of a run after a number of entries, forks.
  \<^item> \<open>Cost\<close> (\<open>cost.ts\<close>, \<open>pricing.ts\<close>, \<open>sdk-compat.ts\<close>): usage records, prices, the cost of a run. \<open>Budget\<close> (\<open>budget.ts\<close>): the usage counter, the scan it
    stands for, the gate.
  \<^item> \<open>Triggers\<close> (\<open>scheduler/src/index.ts\<close>): listing, moving and erasing triggers, the scheduler object.
  \<^item> \<open>Policy\<close> (\<open>policy.ts\<close>, \<open>guard.ts\<close>, \<open>policy-matrix.ts\<close>, \<open>idem-ledger.ts\<close>): policy rules, guards, duplicate actions, the ledger of refused runs.
  \<^item> \<open>WorkStore\<close> (\<open>in-memory-storage.ts\<close>): logs, leases and markers. \<open>Queue\<close> (\<open>queue/src/index.ts\<close>): jobs and the worker. \<open>Events\<close>
    (\<open>events/src/index.ts\<close>): emitting, consuming, releasing and erasing events. \<open>Polling\<close> (\<open>polling.ts\<close>): the loop that drives them.

  \<^bold>\<open>What is shown.\<close> Coordination, in all interleavings with crashes and failing calls: a side-effect tool or workflow step executes at most once and
  a recorded call never again; a suspension is resumed at most once by any number of wakers; a live lease is not stolen; a run is admitted for one
  user; a frozen decision is one value; a run is condemned before it is unwound and executes nothing afterwards; verdicts and trigger states
  only move forward; no event is skipped by a stored position. Separation: workers of one organisation behave as on a journal of their own; names and
  keys of different owners and runs never meet; erasure removes the events of one owner and no others. Behaviour: replay returns what is on
  record; a paused workflow continues as if it had not been paused; drains and polls reach every job and event that is due; the scheduler's
  next time is the first match; the waker wakes exactly what is due. Equivalences and round trips: equal hash preimages mean equal
  arguments up to key order; sharded counters read as plain ones; derived identifiers and owned names parse back; summaries agree with records.
  Some theorems state a limit of the code: concurrent passes can refund twice (\<open>concurrent_passes_can_refund_twice\<close>), a leased job can be passed over, a trigger without a
  next time stops the poll, a failed wake-up is not repeated, a restarted poll loop can have two chains. Of the later
  components: all users let in on a thread are one user; the view of a user shows exactly the keys of runs that are theirs; a fork writes only
  under its own identifier and keeps the records of settled tool calls, but not those of streamed steps; the usage counter agrees with the
  scan over the runs and counts no run twice, but its sum with the older usage record can; erasing a
  person's triggers leaves those of everybody else, and a moved trigger is pending once.

  \<^bold>\<open>Fuel and bounds.\<close> The claim loop of a tool call, the sum over nested runs, the catch-up over model steps, and the page loops of the queue, of the
  events and of an organisation's runs run on fuel and stop with the error class \<open>OutOfFuel\<close>, or \<open>None\<close>. The safety theorems hold for every
  amount of fuel. One unit is enough for the claim loop in \<open>call\<close> mode (\<open>call_mode_makes_one_pass\<close>) and one step for the upgrade
  loop of the built-in registry (\<open>upgrade_format_total\<close>); a page loop over a log needs one unit per page of 50 records, which the theorems on drains
  and polls assume. Integers are unbounded: the values counted are far below the range in which JavaScript numbers are exact; the shard hash,
  which wraps, is on 32-bit words.

  \<^bold>\<open>Outside code.\<close> Tools, guards, processors, handlers, step bodies, runners and hooks are calls \<open>Ext\<close> that may answer anything. The hash function,
  the pricing of a step in the run limits (\<open>limits_usage\<close> of \<open>Cost\<close> is an instance), the parsing of JSON argument strings and the collation of strings are arguments.

  \<^bold>\<open>Not modelled.\<close> The engine loop around the AI SDK (\<open>run.ts\<close>, \<open>durable-model.ts\<close>, \<open>registry.ts\<close>), which is streaming and calls into third-party code;
  the SQL and Redis journals, which are represented by the journal port and its failing answers; the semantic duplicate layer, which rests on
  embeddings and model judgements; retention and erasure, which sweep over records of parts that are not modelled; start-up reports and wrappers that configure tools; servers, clients and user interfaces. Within the modelled parts: console output, caches of warnings,
  abort signals and timers.
\<close>

end
